(* ===== verification/Prelude.thy ===== *)
theory Prelude
  imports Main "HOL-Library.Word" "HOL-Library.Signed_Division" "HOL-Library.Multiset"
begin

text \<open>
  Shared vocabulary of the development: the outcomes of a C computation, sequencing of
  computations that can go wrong, C arrays and C strings held in byte arrays, the allocator and
  the build configuration, and the generic lemmas on these that the component theories use.

  Conventions. Unsigned C integers (\<open>size_t\<close>, \<open>uintptr_t\<close>, \<open>uint32_t\<close>, \<open>unsigned\<close>) are
  words of their width, so that their arithmetic wraps as it does in C. Signed C integers are
  \<open>int\<close>; where a signed operation of the source can leave the range of its type on data the
  program does not bound, the model stops with \<open>Signed_Overflow\<close>. A heap array is a list behind
  an \<open>option\<close>: \<open>None\<close> is the null pointer and the length of the list is what the allocator
  granted, so every access is checked against it.
\<close>

section \<open>Outcomes of a computation\<close>

text \<open>
  \<open>Inl\<close> is a run that does not return to its caller: undefined behaviour of the C program
  (\<open>Null_Deref\<close>, \<open>Out_Of_Bounds\<close>, \<open>Signed_Overflow\<close>, \<open>Div_By_Zero\<close>, \<open>Bad_Message\<close> for a
  receive whose type or length does not fit the message), a blocking call that does not return, a
  receive nobody has sent to or a send nobody takes (\<open>Would_Block\<close>), a call to \<open>exit\<close> (\<open>Exit_Failure\<close>) or a loop that never
  ends (\<open>Diverges\<close>).
\<close>

datatype fault =
    Null_Deref
  | Out_Of_Bounds
  | Signed_Overflow
  | Div_By_Zero
  | Bad_Message
  | Would_Block
  | Exit_Failure
  | Diverges

type_synonym 'a result = "fault + 'a"

definition andThen :: "'a result \<Rightarrow> ('a \<Rightarrow> 'b result) \<Rightarrow> 'b result" where
  "andThen m f = (case m of Inl e \<Rightarrow> Inl e | Inr x \<Rightarrow> f x)"

text \<open>A \<open>for\<close> loop over the entries of an array, threading a state.\<close>

primrec for_list :: "('x \<Rightarrow> 's \<Rightarrow> 's result) \<Rightarrow> 'x list \<Rightarrow> 's \<Rightarrow> 's result" where
  "for_list f [] s = Inr s"
| "for_list f (x # xs) s = andThen (f x s) (for_list f xs)"

named_theorems outcome "sequencing of computations that can stop"

lemma andThen_Inr [simp, outcome]: "andThen (Inr x) f = f x"
  by (simp add: andThen_def)

lemma andThen_Inl [simp, outcome]: "andThen (Inl e) f = Inl e"
  by (simp add: andThen_def)

lemma andThen_eq_Inr [outcome]:
  "andThen m f = Inr y \<longleftrightarrow> (\<exists>x. m = Inr x \<and> f x = Inr y)"
  by (cases m) auto

lemma andThen_eq_Inl [outcome]:
  "andThen m f = Inl e \<longleftrightarrow> m = Inl e \<or> (\<exists>x. m = Inr x \<and> f x = Inl e)"
  by (cases m) auto

lemma andThen_InrE [elim]:
  assumes "andThen m f = Inr y"
  obtains x where "m = Inr x" and "f x = Inr y"
  using assms by (auto simp: andThen_eq_Inr)

lemma andThen_assoc: "andThen (andThen m f) g = andThen m (\<lambda>x. andThen (f x) g)"
  by (cases m) auto

lemma for_list_append: "for_list f (xs @ ys) s = andThen (for_list f xs s) (for_list f ys)"
  by (induction xs arbitrary: s) (auto simp: andThen_assoc cong: sum.case_cong intro!: arg_cong2 [where f = andThen])

text \<open>A computation that is seen to return.\<close>

lemma returnsE:
  assumes "case_sum (\<lambda>_. False) P r" obtains x where "r = Inr x" and "P x"
  using assms by (cases r) auto

text \<open>The loop rule: an invariant of the list still to visit and of the state.\<close>

lemma for_list_inv:
  assumes "for_list f xs s = Inr t" and "I xs s"
    and "\<And>x xs s s'. I (x # xs) s \<Longrightarrow> f x s = Inr s' \<Longrightarrow> I xs s'"
  shows "I [] t"
  using assms(1,2)
proof (induction xs arbitrary: s)
  case Nil
  then show ?case by simp
next
  case (Cons x xs)
  then obtain s' where "f x s = Inr s'" and "for_list f xs s' = Inr t"
    by auto
  with Cons assms(3) show ?case by blast
qed

section \<open>Arithmetic\<close>

text \<open>The remainder of C, for the operands the program takes it of.\<close>

lemma smod_nonneg: "0 \<le> (a :: int) \<Longrightarrow> 0 < b \<Longrightarrow> a smod b = a mod b"
  by (cases "a = 0") (simp_all add: signed_modulo_int_def)

text \<open>The last and the first rank with a property.\<close>

lemma last_rank:
  fixes n :: int
  assumes "i \<in> {0..<n}" and "P i"
  obtains j where "j \<in> {0..<n}" "P j" "\<And>l. j < l \<Longrightarrow> l < n \<Longrightarrow> \<not> P l"
proof -
  define S where "S = {i \<in> {0..<n}. P i}"
  have "finite S" "i \<in> S" using assms by (auto simp: S_def intro: finite_subset [of _ "{0..<n}"])
  then have m: "Max S \<in> S" "\<And>l. l \<in> S \<Longrightarrow> l \<le> Max S" using Max_in [of S] Max_ge [of S] by blast+
  show ?thesis
  proof (rule that)
    show "Max S \<in> {0..<n}" "P (Max S)" using m(1) by (auto simp: S_def)
    show "\<not> P l" if "Max S < l" "l < n" for l using m(1) m(2) [of l] that by (auto simp: S_def)
  qed
qed

lemma first_rank:
  fixes n :: int
  assumes "i \<in> {0..<n}" and "P i"
  obtains j where "j \<in> {0..<n}" "P j" "\<And>l. 0 \<le> l \<Longrightarrow> l < j \<Longrightarrow> \<not> P l"
proof -
  define S where "S = {i \<in> {0..<n}. P i}"
  have "finite S" "i \<in> S" using assms by (auto simp: S_def intro: finite_subset [of _ "{0..<n}"])
  then have "Min S \<in> S" "\<And>l. l \<in> S \<Longrightarrow> Min S \<le> l" using Min_in [of S] Min_le [of S] by blast+
  then show ?thesis by (intro that [of "Min S"]) (force simp: S_def)+
qed

text \<open>A sum in which two terms change.\<close>

lemma sum_update1:
  fixes f g :: "'a \<Rightarrow> int"
  assumes "finite A" and "i \<in> A" and "\<And>j. j \<in> A \<Longrightarrow> j \<noteq> i \<Longrightarrow> g j = f j"
  shows "sum g A = sum f A - f i + g i"
proof -
  have "sum g (A - {i}) = sum f (A - {i})" using assms(3) by (intro sum.cong) auto
  then show ?thesis using assms(1,2) by (simp add: sum.remove [of A i])
qed

lemma sum_update2:
  fixes f g :: "'a \<Rightarrow> int"
  assumes "finite A" and "i \<in> A" and "k \<in> A" and "i \<noteq> k" and "\<And>j. j \<in> A \<Longrightarrow> j \<noteq> i \<Longrightarrow> j \<noteq> k \<Longrightarrow> g j = f j"
  shows "sum g A = sum f A - f i + g i - f k + g k"
proof -
  have "sum g (A - {i} - {k}) = sum f (A - {i} - {k})" using assms(5) by (intro sum.cong) auto
  then show ?thesis using assms(1-4) by (simp add: sum.remove [of A i] sum.remove [of "A - {i}" k])
qed

section \<open>C arrays\<close>

definition arr_get :: "'a list option \<Rightarrow> int \<Rightarrow> 'a result" where
  "arr_get a i = (case a of None \<Rightarrow> Inl Null_Deref
     | Some xs \<Rightarrow> if 0 \<le> i \<and> i < int (length xs) then Inr (xs ! nat i) else Inl Out_Of_Bounds)"

definition arr_set :: "'a list option \<Rightarrow> int \<Rightarrow> 'a \<Rightarrow> 'a list option result" where
  "arr_set a i v = (case a of None \<Rightarrow> Inl Null_Deref
     | Some xs \<Rightarrow> if 0 \<le> i \<and> i < int (length xs) then Inr (Some (xs[nat i := v]))
                 else Inl Out_Of_Bounds)"

text \<open>The first \<open>n\<close> entries of an array, as a loop over \<open>0 \<le> i < n\<close> reads them.\<close>

definition arr_prefix :: "'a list option \<Rightarrow> int \<Rightarrow> 'a list result" where
  "arr_prefix a n = (if n \<le> 0 then Inr [] else (case a of None \<Rightarrow> Inl Null_Deref
     | Some xs \<Rightarrow> if n \<le> int (length xs) then Inr (take (nat n) xs) else Inl Out_Of_Bounds))"

lemma arr_get_Some [simp]:
  "0 \<le> i \<Longrightarrow> i < int (length xs) \<Longrightarrow> arr_get (Some xs) i = Inr (xs ! nat i)"
  by (simp add: arr_get_def)

lemma arr_get_Cons [simp]:
  "arr_get (Some (x # xs)) 0 = Inr x" "arr_get (Some (x # y # xs)) 1 = Inr y"
  by (simp_all add: arr_get_def)

lemma arr_get_eq_Inr:
  "arr_get a i = Inr x \<longleftrightarrow>
     (\<exists>xs. a = Some xs \<and> 0 \<le> i \<and> i < int (length xs) \<and> x = xs ! nat i)"
  by (auto simp: arr_get_def split: option.splits)

lemma arr_set_Some [simp]:
  "0 \<le> i \<Longrightarrow> i < int (length xs) \<Longrightarrow> arr_set (Some xs) i v = Inr (Some (xs[nat i := v]))"
  by (simp add: arr_set_def)

lemma arr_set_eq_Inr:
  "arr_set a i v = Inr b \<longleftrightarrow>
     (\<exists>xs. a = Some xs \<and> 0 \<le> i \<and> i < int (length xs) \<and> b = Some (xs[nat i := v]))"
  by (auto simp: arr_set_def split: option.splits)

lemma arr_prefix_Some:
  "n \<le> int (length xs) \<Longrightarrow> arr_prefix (Some xs) n = Inr (take (nat n) xs)"
  by (simp add: arr_prefix_def)

lemma take_Suc_update [simp]:
  "n < length xs \<Longrightarrow> take (Suc n) (xs[n := v]) = take n xs @ [v]"
  by (simp add: take_Suc_conv_app_nth)

section \<open>C strings in byte arrays\<close>

definition NUL :: char where
  "NUL = CHR 0x00"

text \<open>The C string that starts at offset \<open>off\<close> of a byte array.\<close>

definition cstr_at :: "string \<Rightarrow> nat \<Rightarrow> string" where
  "cstr_at b off = takeWhile (\<lambda>c. c \<noteq> NUL) (drop off b)"

definition terminated_at :: "string \<Rightarrow> nat \<Rightarrow> bool" where
  "terminated_at b off \<longleftrightarrow> NUL \<in> set (drop off b)"

text \<open>\<open>strlen (p + off)\<close> and the string itself; running off the array is undefined.\<close>

definition c_string :: "string option \<Rightarrow> nat \<Rightarrow> string result" where
  "c_string a off = (case a of None \<Rightarrow> Inl Null_Deref
     | Some b \<Rightarrow> if terminated_at b off then Inr (cstr_at b off) else Inl Out_Of_Bounds)"

text \<open>\<open>strcpy (p + off, s)\<close>: the characters and the terminator.\<close>

definition strcpy_to :: "string option \<Rightarrow> nat \<Rightarrow> string \<Rightarrow> string option result" where
  "strcpy_to a off s = (case a of None \<Rightarrow> Inl Null_Deref
     | Some b \<Rightarrow> if off + length s + 1 \<le> length b
                then Inr (Some (take off b @ s @ [NUL] @ drop (off + length s + 1) b))
                else Inl Out_Of_Bounds)"

text \<open>The offset just past the terminator of the string at \<open>off\<close>.\<close>

definition seg_end :: "string \<Rightarrow> nat \<Rightarrow> nat" where
  "seg_end b off = off + length (cstr_at b off) + 1"

lemma length_takeWhile_NUL:
  "NUL \<in> set xs \<Longrightarrow> length (takeWhile (\<lambda>c. c \<noteq> NUL) xs) < length xs"
  by (induction xs) auto

lemma seg_end_le: "terminated_at b off \<Longrightarrow> seg_end b off \<le> length b"
  using length_takeWhile_NUL [of "drop off b"]
  by (auto simp: terminated_at_def seg_end_def cstr_at_def)

lemma seg_end_gt [simp]: "off < seg_end b off"
  by (simp add: seg_end_def)

lemma cstr_at_no_NUL: "NUL \<notin> set (cstr_at b off)"
  by (auto simp: cstr_at_def dest: set_takeWhileD)

lemma takeWhile_NUL_append:
  "NUL \<notin> set s \<Longrightarrow> takeWhile (\<lambda>c. c \<noteq> NUL) (s @ NUL # r) = s"
  by (simp add: takeWhile_append2 takeWhile_append)

lemma cstr_at_here: "NUL \<notin> set s \<Longrightarrow> length a = off \<Longrightarrow> cstr_at (a @ s @ NUL # r) off = s"
  by (simp add: cstr_at_def takeWhile_NUL_append)

lemma terminated_at_here: "length a = off \<Longrightarrow> terminated_at (a @ s @ NUL # r) off"
  by (simp add: terminated_at_def)

text \<open>A string that ends below \<open>h\<close> does not depend on what is stored from \<open>h\<close> on.\<close>

lemma drop_split_string:
  assumes "terminated_at b off"
  shows "drop off b = cstr_at b off @ NUL # drop (seg_end b off) b"
proof -
  from assms obtain ys z zs where split: "drop off b = ys @ z # zs" "z = NUL" "NUL \<notin> set ys"
    by (metis split_list_first terminated_at_def)
  then have ys: "cstr_at b off = ys"
    by (simp add: cstr_at_def takeWhile_NUL_append)
  have "drop (seg_end b off) b = drop (length ys + 1) (drop off b)"
    by (simp add: seg_end_def ys add.commute add.left_commute)
  with split ys show ?thesis by simp
qed

lemma string_below:
  assumes same: "take h b' = take h b" and t: "terminated_at b off" and e: "seg_end b off \<le> h"
  shows "cstr_at b' off = cstr_at b off" and "terminated_at b' off"
    and "seg_end b' off = seg_end b off"
proof -
  let ?s = "cstr_at b off"
  have len: "off + length ?s + 1 \<le> h" using e by (simp add: seg_end_def)
  have "take (length ?s + 1) (drop off b) = ?s @ [NUL]"
    by (subst drop_split_string [OF t]) simp
  moreover have "take (length ?s + 1) (drop off b') = take (length ?s + 1) (drop off b)"
  proof -
    have "take (length ?s + 1) (drop off c) = take (length ?s + 1) (drop off (take h c))" for c
      using len by (simp add: drop_take min_def)
    with same show ?thesis by metis
  qed
  ultimately have "take (length ?s + 1) (drop off b') = ?s @ [NUL]" by simp
  then have d: "drop off b' = ?s @ NUL # drop (length ?s + 1) (drop off b')"
    by (metis append_Cons append_assoc append_self_conv2 append_take_drop_id)
  have nn: "NUL \<notin> set ?s" by (rule cstr_at_no_NUL)
  show c: "cstr_at b' off = ?s"
    unfolding cstr_at_def [of b'] by (subst d) (simp add: takeWhile_NUL_append nn)
  show "terminated_at b' off" unfolding terminated_at_def by (subst d) simp
  show "seg_end b' off = seg_end b off" by (simp add: seg_end_def c)
qed

section \<open>The host: allocator, page size, build configuration\<close>

text \<open>
  What the program takes from its host. \<open>malloc_ok\<close> says for which sizes the allocator succeeds,
  \<open>indet_byte\<close> and \<open>indet_word\<close> give the indeterminate contents of fresh memory,
  \<open>sc_pagesize\<close> is \<open>sysconf(_SC_PAGESIZE)\<close>, and \<open>rand_r\<close> is the POSIX generator on the seed.
  \<open>CIRCLE_MAX_STRING_LEN\<close> (\<open>PATH_MAX\<close> where defined, else 4096) and
  \<open>CIRCLE_INITIAL_INTERNAL_QUEUE_SIZE\<close> (overridable, 4096 by default) are set by the build.
\<close>

record host =
  malloc_ok :: "nat \<Rightarrow> bool"
  indet_byte :: "nat \<Rightarrow> char"
  indet_word :: "nat \<Rightarrow> 64 word"
  sc_pagesize :: "64 word"
  rand_r :: "32 word \<Rightarrow> int \<times> 32 word"
  CIRCLE_MAX_STRING_LEN :: nat
  CIRCLE_INITIAL_INTERNAL_QUEUE_SIZE :: nat

definition INT32_MAX :: int where
  "INT32_MAX = 2147483647"

text \<open>\<open>malloc\<close> and \<open>realloc\<close> of an array of \<open>n\<close> entries of \<open>sz\<close> bytes each.\<close>

definition malloc_arr :: "('z) host_scheme \<Rightarrow> (nat \<Rightarrow> 'a) \<Rightarrow> nat \<Rightarrow> nat \<Rightarrow> 'a list option" where
  "malloc_arr H fill sz n = (if malloc_ok H (sz * n) then Some (map fill [0..<n]) else None)"

definition realloc_arr ::
  "('z) host_scheme \<Rightarrow> (nat \<Rightarrow> 'a) \<Rightarrow> nat \<Rightarrow> 'a list option \<Rightarrow> nat \<Rightarrow> 'a list option" where
  "realloc_arr H fill sz old n =
     (if malloc_ok H (sz * n)
      then (case old of None \<Rightarrow> Some (map fill [0..<n])
            | Some xs \<Rightarrow> Some (take n xs @ map fill [length xs..<n]))
      else None)"

definition mem_ample :: "('z) host_scheme \<Rightarrow> bool" where
  "mem_ample H \<longleftrightarrow> (\<forall>n. malloc_ok H n)"

lemma mem_ampleD [simp]: "mem_ample H \<Longrightarrow> malloc_ok H n"
  by (simp add: mem_ample_def)

lemma realloc_arr_grow:
  "malloc_ok H (sz * n) \<Longrightarrow> length xs \<le> n \<Longrightarrow>
     realloc_arr H fill sz (Some xs) n = Some (xs @ map fill [length xs..<n])"
  by (simp add: realloc_arr_def)

section \<open>Machine words\<close>

lemma unat_add_fits:
  "unat (a :: 'l::len word) + unat b < 2 ^ LENGTH('l) \<Longrightarrow> unat (a + b) = unat a + unat b"
  by (rule unat_add_lem [THEN iffD1])

lemma unat_of_nat_fits: "n < 2 ^ LENGTH('l) \<Longrightarrow> unat (of_nat n :: 'l::len word) = n"
  by (simp add: unsigned_of_nat take_bit_nat_eq_self)

lemma unat_ucast_up: "unat (ucast (w :: 32 word) :: 64 word) = unat w"
  using unsigned_less [of w, where 'a = nat]
  by (simp add: unsigned_ucast_eq take_bit_nat_eq_self_iff)

section \<open>A concrete host\<close>

text \<open>
  A host on which the instance theorems of the component theories are evaluated: memory never runs
  out, a page is one byte (so the pool grows by 4096 bytes), strings take at most 8 bytes with
  their terminator, and a fresh queue holds two of them. The generator is a counter.
\<close>

definition small_host :: host where
  "small_host = \<lparr>malloc_ok = (\<lambda>_. True), indet_byte = (\<lambda>_. CHR ''?''), indet_word = (\<lambda>_. 7),
     sc_pagesize = 1, rand_r = (\<lambda>seed. (uint seed, seed + 1)),
     CIRCLE_MAX_STRING_LEN = 8, CIRCLE_INITIAL_INTERNAL_QUEUE_SIZE = 2\<rparr>"

lemma small_host_simps [simp]:
  "malloc_ok small_host n" "indet_byte small_host n = CHR ''?''" "indet_word small_host n = 7"
  "sc_pagesize small_host = 1" "rand_r small_host seed = (uint seed, seed + 1)"
  "CIRCLE_MAX_STRING_LEN small_host = 8" "CIRCLE_INITIAL_INTERNAL_QUEUE_SIZE small_host = 2"
  "mem_ample small_host"
  by (simp_all add: small_host_def mem_ample_def)

end
