(* ===== verification/Queue.thy ===== *)
theory Queue
  imports Prelude
begin

text \<open>
  The local work queue of \<^verbatim>\<open>libcircle/queue.c\<close>: a stack of C strings packed one after the other
  in a byte pool (\<open>base\<close>), with the offset of each string in a growing table (\<open>strings\<close>).
  The theory translates every operation of the file but the two checkpoint routines (theory
  \<open>Checkpoint\<close>), states the well-formedness invariant \<open>queue_wf\<close>, and shows that the byte-level
  operations implement a stack of strings (\<open>items\<close>) without ever reading or writing outside
  the memory they own.
\<close>

section \<open>Data and operations\<close>

record CIRCLE_internal_queue_t =
  base :: "string option"
  bytes :: "64 word"
  head :: "64 word"
  strings :: "64 word list option"
  str_count :: int
  count :: int

text \<open>The conversion \<open>(int32_t)\<close> of a \<open>size_t\<close>.\<close>

definition to_int32 :: "64 word \<Rightarrow> int" where
  "to_int32 w = signed_take_bit 31 (uint w)"

text \<open>The heap blocks of a queue, in the order the code releases them.\<close>

datatype queue_block = Strings_block | Base_block | Struct_block

definition CIRCLE_internal_queue_free ::
  "CIRCLE_internal_queue_t option \<Rightarrow> int \<times> queue_block list" where
  "CIRCLE_internal_queue_free qp = (case qp of
     Some q \<Rightarrow> (1, (if strings q \<noteq> None then [Strings_block] else []) @
                   (if base q \<noteq> None then [Base_block] else []) @ [Struct_block])
   | None \<Rightarrow> (-1, []))"

text \<open>
  \<open>sizeof(CIRCLE_internal_queue_t)\<close> is 40 on an LP64 target. The fields are written before the
  test for a null \<open>qp\<close>, so a failed allocation of the structure itself is a null dereference.
\<close>

definition CIRCLE_internal_queue_init ::
  "('z) host_scheme \<Rightarrow> CIRCLE_internal_queue_t option result" where
  "CIRCLE_internal_queue_init H =
     (if \<not> malloc_ok H 40 then Inl Null_Deref else
      let sc = (of_nat (CIRCLE_INITIAL_INTERNAL_QUEUE_SIZE H) :: 64 word);
          byt = of_nat (CIRCLE_MAX_STRING_LEN H) * sc;
          qp = \<lparr>base = malloc_arr H (indet_byte H) 1 (unat byt), bytes = byt, head = 0,
                strings = malloc_arr H (indet_word H) 8 (unat sc),
                str_count = to_int32 sc, count = 0\<rparr>
      in if base qp = None \<or> strings qp = None
         then (case CIRCLE_internal_queue_free (Some qp) of _ \<Rightarrow> Inr None)
         else Inr (Some qp))"

text \<open>
  \<open>while(p++ < base + bytes)\<close> reads \<open>*p\<close> after the increment; \<open>LOG\<close> evaluates its arguments only
  when the debug level is reached. The result is what is logged.
\<close>

definition CIRCLE_internal_queue_dump :: "int \<Rightarrow> CIRCLE_internal_queue_t \<Rightarrow> string result" where
  "CIRCLE_internal_queue_dump debug_level qp =
     (if debug_level < 5 then Inr [] else
      for_list (\<lambda>i out. andThen (arr_get (base qp) (int i)) (\<lambda>c. Inr (out @ [c])))
        [1..<Suc (unat (bytes qp))] [])"

definition CIRCLE_internal_queue_print ::
  "int \<Rightarrow> CIRCLE_internal_queue_t \<Rightarrow> string list result" where
  "CIRCLE_internal_queue_print debug_level qp =
     (if debug_level < 5 then Inr [] else
      for_list (\<lambda>i out. andThen (arr_get (strings qp) (int i))
          (\<lambda>off. andThen (c_string (base qp) (unat off)) (\<lambda>s. Inr (out @ [s]))))
        [0..<nat (count qp)] [])"

text \<open>\<open>while(str_count < new_size) str_count += 4096\<close> on \<open>int32_t\<close>.\<close>

function str_count_loop :: "int \<Rightarrow> int \<Rightarrow> int result" where
  "str_count_loop sc new_size =
     (if sc < new_size
      then if sc + 4096 > INT32_MAX then Inl Signed_Overflow
           else str_count_loop (sc + 4096) new_size
      else Inr sc)"
  by pat_completeness auto
termination
  by (relation "measure (\<lambda>(sc, new_size). nat (new_size - sc))") auto

declare str_count_loop.simps [simp del]

definition CIRCLE_internal_queue_str_extend ::
  "('z) host_scheme \<Rightarrow> CIRCLE_internal_queue_t \<Rightarrow> int \<Rightarrow> (int \<times> CIRCLE_internal_queue_t) result" where
  "CIRCLE_internal_queue_str_extend H qp new_size =
     andThen (str_count_loop (str_count qp) new_size) (\<lambda>sc.
     let qp = qp\<lparr>str_count := sc\<rparr>;
         entries = (word_of_int sc :: 64 word);
         qp = qp\<lparr>strings := realloc_arr H (indet_word H) 8 (strings qp) (unat entries)\<rparr>
     in if strings qp = None then Inr (-1, qp) else Inr (0, qp))"

text \<open>
  \<open>while(current < new_size) current += sysconf(_SC_PAGESIZE) * 4096\<close> on \<open>size_t\<close>, which wraps
  and so may not end.
\<close>

partial_function (option) bytes_loop :: "64 word \<Rightarrow> 64 word \<Rightarrow> 64 word \<Rightarrow> 64 word option" where
  "bytes_loop step current new_size =
     (if current < new_size then bytes_loop step (current + step) new_size else Some current)"

declare bytes_loop.simps [code]

definition CIRCLE_internal_queue_extend ::
  "('z) host_scheme \<Rightarrow> CIRCLE_internal_queue_t \<Rightarrow> 64 word \<Rightarrow> (int \<times> CIRCLE_internal_queue_t) result" where
  "CIRCLE_internal_queue_extend H qp new_size =
     (case bytes_loop (sc_pagesize H * 4096) (bytes qp) new_size of
        None \<Rightarrow> Inl Diverges
      | Some current \<Rightarrow>
          let qp = qp\<lparr>base := realloc_arr H (indet_byte H) 1 (base qp) (unat current)\<rparr>
          in if base qp = None then Inr (-1, qp) else Inr (0, qp\<lparr>bytes := current\<rparr>))"

text \<open>
  The argument is a pointer to a C string: \<open>None\<close> for a null pointer, otherwise the characters
  before the terminator.
\<close>

definition CIRCLE_internal_queue_push ::
  "('z) host_scheme \<Rightarrow> CIRCLE_internal_queue_t \<Rightarrow> string option \<Rightarrow>
     (int \<times> CIRCLE_internal_queue_t) result" where
  "CIRCLE_internal_queue_push H qp str = (case str of None \<Rightarrow> Inr (-1, qp) | Some s \<Rightarrow>
     let real_len = (of_nat (length s) + 1 :: 64 word);
         len = (ucast real_len :: 32 word)
     in if len = 0 then Inr (-1, qp)
        else if unat len > CIRCLE_MAX_STRING_LEN H then Inr (-1, qp)
        else if count qp + 1 > INT32_MAX then Inl Signed_Overflow
        else andThen (if count qp + 1 > str_count qp
                      then CIRCLE_internal_queue_str_extend H qp (count qp + 1)
                      else Inr (0, qp)) (\<lambda>(rc, qp).
        if rc < 0 then Inr (-1, qp) else
        let new_bytes = head qp + ucast len
        in andThen (if new_bytes > bytes qp
                    then CIRCLE_internal_queue_extend H qp new_bytes
                    else Inr (0, qp)) (\<lambda>(rc, qp).
        if rc < 0 then Inr (-1, qp) else
        andThen (arr_set (strings qp) (count qp) (head qp)) (\<lambda>ss.
        andThen (strcpy_to (base qp) (unat (head qp)) s) (\<lambda>b.
        Inr (0, qp\<lparr>strings := ss, base := b, head := head qp + ucast len,
                    count := count qp + 1\<rparr>))))))"

text \<open>
  \<open>qp\<close> may be null. The destination \<open>str\<close> is \<open>None\<close> for a null pointer and otherwise the size
  of the caller's buffer; the result carries the string written to it.
\<close>

definition CIRCLE_internal_queue_pop ::
  "CIRCLE_internal_queue_t option \<Rightarrow> nat option \<Rightarrow>
     (int \<times> string option \<times> CIRCLE_internal_queue_t option) result" where
  "CIRCLE_internal_queue_pop qp str = (case qp of None \<Rightarrow> Inr (-1, None, None) | Some q \<Rightarrow>
     if count q < 1 then Inr (-1, None, qp) else
     (case str of None \<Rightarrow> Inr (-1, None, qp) | Some cap \<Rightarrow>
      andThen (arr_get (strings q) (count q - 1)) (\<lambda>current.
      andThen (c_string (base q) (unat current)) (\<lambda>s.
      if length s + 1 > cap then Inl Out_Of_Bounds
      else Inr (0, Some s, Some (q\<lparr>head := current, count := count q - 1\<rparr>))))))"

section \<open>The growth loops\<close>

text \<open>
  The string table always grows by whole blocks, to the least number of blocks that is enough.
\<close>

lemma str_count_loop_result:
  assumes "str_count_loop sc n = Inr r"
  shows "sc \<le> r \<and> n \<le> r \<and> (sc \<le> INT32_MAX \<longrightarrow> r \<le> INT32_MAX) \<and> (sc < n \<longrightarrow> r < n + 4096)
    \<and> 4096 dvd r - sc"
  using assms
proof (induction sc n rule: str_count_loop.induct)
  case (1 sc n)
  show ?case
  proof (cases "sc < n")
    case True
    with "1.prems" have le: "sc + 4096 \<le> INT32_MAX" and r: "str_count_loop (sc + 4096) n = Inr r"
      by (auto simp: str_count_loop.simps [of sc n] split: if_splits)
    with True "1.IH" have
      IH: "sc + 4096 \<le> r \<and> n \<le> r \<and> (sc + 4096 \<le> INT32_MAX \<longrightarrow> r \<le> INT32_MAX)
        \<and> (sc + 4096 < n \<longrightarrow> r < n + 4096) \<and> 4096 dvd r - (sc + 4096)"
      by (intro "1.IH") auto
    have r': "r = sc + 4096" if "\<not> sc + 4096 < n"
      using r that by (simp add: str_count_loop.simps [of "sc + 4096"])
    have dvd: "4096 dvd r - sc" 
      using dvd_add [of 4096 "r - (sc + 4096)" 4096] IH by simp
    have "r < n + 4096" using IH r' True by (cases "sc + 4096 < n") auto
    with IH le dvd show ?thesis by simp
  next
    case False
    with "1.prems" show ?thesis by (auto simp: str_count_loop.simps [of sc n])
  qed
qed

lemma str_count_loop_total:
  assumes "n + 4095 \<le> INT32_MAX" and "sc \<le> INT32_MAX"
  shows "\<exists>r. str_count_loop sc n = Inr r"
  using assms
proof (induction sc n rule: str_count_loop.induct)
  case (1 sc n)
  then show ?case
    by (cases "sc < n") (auto simp: str_count_loop.simps [of sc n])
qed

lemma bytes_loop_result:
  assumes "bytes_loop step c n = Some r"
  shows "n \<le> r"
proof (rule bytes_loop.raw_induct [where P = "\<lambda>step c n r. n \<le> r", OF _ assms])
  fix f :: "64 word \<Rightarrow> 64 word \<Rightarrow> 64 word \<Rightarrow> 64 word option" and step c n r
  assume IH: "\<And>step c n r. f step c n = Some r \<Longrightarrow> n \<le> r"
    and eq: "(if c < n then f step (c + step) n else Some c) = Some r"
  then show "n \<le> r" by (cases "c < n") (auto simp: not_less)
qed

text \<open>
  The byte pool loop ends when there is room for one more growth step below \<open>2 ^ 64\<close>.
\<close>

lemma bytes_loop_total:
  assumes "0 < step" and "unat n + unat step \<le> 2 ^ 64"
  shows "\<exists>r. bytes_loop step c n = Some r \<and> unat r < max (unat c + 1) (unat n + unat step)"
  using assms
proof (induction "unat n - unat c" arbitrary: c rule: less_induct)
  case less
  show ?case
  proof (cases "c < n")
    case False
    then show ?thesis by (subst bytes_loop.simps) simp
  next
    case True
    then have lt: "unat c < unat n" by (simp add: word_less_nat_alt)
    with less.prems have sum: "unat (c + step) = unat c + unat step"
      by (intro unat_add_fits) simp
    moreover have "0 < unat step" using less.prems by (simp add: word_less_nat_alt)
    ultimately have "unat n - unat (c + step) < unat n - unat c" using lt by simp
    from less.hyps [OF this less.prems] obtain r where
      "bytes_loop step (c + step) n = Some r"
      "unat r < max (unat (c + step) + 1) (unat n + unat step)" by blast
    with True lt sum show ?thesis by (subst bytes_loop.simps) auto
  qed
qed

section \<open>Well-formed queues and the stack they hold\<close>

definition offsets :: "CIRCLE_internal_queue_t \<Rightarrow> nat list" where
  "offsets q = (case strings q of None \<Rightarrow> [] | Some ss \<Rightarrow> map unat (take (nat (count q)) ss))"

definition pool :: "CIRCLE_internal_queue_t \<Rightarrow> string" where
  "pool q = (case base q of None \<Rightarrow> [] | Some b \<Rightarrow> b)"

text \<open>
  A layout of strings: each offset starts a terminated string shorter than the maximum, and each
  string, its terminator included, ends at or before the next offset; the last ends at or before
  the free byte \<open>h\<close>, which lies in the pool. Gaps are allowed: sending work away lowers the count
  and leaves \<open>head\<close> where it was.
\<close>

definition layout :: "nat \<Rightarrow> string \<Rightarrow> nat list \<Rightarrow> nat \<Rightarrow> bool" where
  "layout mx b os h \<longleftrightarrow> h \<le> length b
     \<and> (\<forall>off \<in> set os. terminated_at b off \<and> length (cstr_at b off) < mx)
     \<and> sorted_wrt (\<lambda>off off'. seg_end b off \<le> off') (os @ [h])"

definition queue_wf :: "('z) host_scheme \<Rightarrow> CIRCLE_internal_queue_t \<Rightarrow> bool" where
  "queue_wf H q \<longleftrightarrow>
     (case (base q, strings q) of
        (Some b, Some ss) \<Rightarrow>
          unat (bytes q) = length b \<and> int (length ss) = str_count q \<and> str_count q \<le> INT32_MAX
          \<and> 0 \<le> count q \<and> count q \<le> str_count q
          \<and> layout (CIRCLE_MAX_STRING_LEN H) b (offsets q) (unat (head q))
      | _ \<Rightarrow> False)"

text \<open>The strings held, oldest first: the stack the queue implements, its top at the end.\<close>

definition items :: "CIRCLE_internal_queue_t \<Rightarrow> string list" where
  "items q = map (cstr_at (pool q)) (offsets q)"

text \<open>A string the program can hand to \<open>CIRCLE_internal_queue_push\<close> (a C string whose length fits
  \<open>uint32_t\<close>, as the comment in the code requires).\<close>

definition c_str :: "string \<Rightarrow> bool" where
  "c_str s \<longleftrightarrow> NUL \<notin> set s \<and> length s + 1 < 2 ^ 32"

lemma queue_wfE:
  assumes "queue_wf H q"
  obtains b ss where "base q = Some b" and "strings q = Some ss" and "pool q = b"
    and "unat (bytes q) = length b" and "int (length ss) = str_count q"
    and "str_count q \<le> INT32_MAX" and "0 \<le> count q" and "count q \<le> str_count q"
    and "offsets q = map unat (take (nat (count q)) ss)"
    and "layout (CIRCLE_MAX_STRING_LEN H) b (offsets q) (unat (head q))"
  using assms by (auto simp: queue_wf_def pool_def offsets_def split: option.splits)

lemma length_offsets: "queue_wf H q \<Longrightarrow> length (offsets q) = nat (count q)"
  by (elim queue_wfE) auto

lemma length_items [simp]: "queue_wf H q \<Longrightarrow> length (items q) = nat (count q)"
  by (simp add: items_def length_offsets)

lemma queue_wf_count: "queue_wf H q \<Longrightarrow> 0 \<le> count q \<and> count q \<le> str_count q \<and> count q \<le> INT32_MAX"
  by (elim queue_wfE) simp

lemma items_empty_iff: "queue_wf H q \<Longrightarrow> items q = [] \<longleftrightarrow> count q = 0"
  using length_items [of H q] queue_wf_count [of H q]
  by (auto simp del: length_items simp flip: length_0_conv)

lemma items_c_str:
  assumes "queue_wf H q" and "s \<in> set (items q)"
  shows "NUL \<notin> set s \<and> length s < CIRCLE_MAX_STRING_LEN H"
  using assms by (elim queue_wfE) (auto simp: items_def layout_def cstr_at_no_NUL)

subsection \<open>Layouts under the changes the operations make\<close>

lemma layout_prefix: "layout mx b (os @ os') h \<Longrightarrow> layout mx b os h"
  by (auto simp: layout_def sorted_wrt_append)

lemma layout_below: "layout mx b os h \<Longrightarrow> off \<in> set os \<Longrightarrow> seg_end b off \<le> h"
  by (auto simp: layout_def sorted_wrt_append)

lemma layout_pop: "layout mx b (os @ [off]) h \<Longrightarrow> layout mx b os off"
  using seg_end_gt [of off b] by (auto simp: layout_def sorted_wrt_append simp del: seg_end_gt)

lemma layout_same_below:
  assumes "layout mx b os h" and "take h b' = take h b" and "h \<le> length b'"
  shows "layout mx b' os h" and "map (cstr_at b') os = map (cstr_at b) os"
proof -
  have *: "cstr_at b' off = cstr_at b off" "terminated_at b' off" "seg_end b' off = seg_end b off"
    if "off \<in> set os" for off
    using string_below [OF assms(2)] assms(1) that layout_below [OF assms(1) that]
    by (auto simp: layout_def)
  show "map (cstr_at b') os = map (cstr_at b) os" using * by simp
  have "sorted_wrt (\<lambda>off off'. seg_end b' off \<le> off') (os @ [h])"
    using assms(1) * by (auto simp: layout_def sorted_wrt_append elim: sorted_wrt_mono_rel [rotated])
  with * assms show "layout mx b' os h" by (auto simp: layout_def)
qed

lemma layout_push:
  assumes lay: "layout mx b os h" and s: "NUL \<notin> set s" "length s < mx"
    and fits: "h + length s + 1 \<le> length b"
  defines "b' \<equiv> take h b @ s @ [NUL] @ drop (h + length s + 1) b"
  shows "layout mx b' (os @ [h]) (h + length s + 1)"
    and "map (cstr_at b') (os @ [h]) = map (cstr_at b) os @ [s]"
proof -
  have h: "h \<le> length b" using lay by (simp add: layout_def)
  have same: "take h b' = take h b" using h by (simp add: b'_def)
  have len: "length b' = length b" using fits by (simp add: b'_def)
  have new: "cstr_at b' h = s" "terminated_at b' h"
    using cstr_at_here [of s "take h b" h] terminated_at_here [of "take h b" h] s h
    by (auto simp: b'_def min_def)
  then have e: "seg_end b' h = h + length s + 1" by (simp add: seg_end_def)
  have old: "layout mx b' os h" "map (cstr_at b') os = map (cstr_at b) os"
    using layout_same_below [OF lay same] len h by auto
  then show "map (cstr_at b') (os @ [h]) = map (cstr_at b) os @ [s]" using new by simp
  have "sorted_wrt (\<lambda>off off'. seg_end b' off \<le> off') (os @ [h, h + length s + 1])"
    using old(1) e by (auto simp: layout_def sorted_wrt_append intro: le_trans)
  then show "layout mx b' (os @ [h]) (h + length s + 1)"
    using old(1) new s fits len by (auto simp: layout_def)
qed

section \<open>The operations implement a stack\<close>

lemma to_int32_small: "n \<le> nat INT32_MAX \<Longrightarrow> to_int32 (of_nat n) = int n"
  by (simp add: to_int32_def INT32_MAX_def unsigned_of_nat take_bit_nat_eq_self
      signed_take_bit_int_eq_self uint_nat)

lemma unat_word_of_int64: "0 \<le> i \<Longrightarrow> i \<le> INT32_MAX \<Longrightarrow> unat (word_of_int i :: 64 word) = nat i"
  by (simp add: unat_eq_nat_uint uint_word_of_int INT32_MAX_def)

lemma init_wf:
  assumes "CIRCLE_internal_queue_init H = Inr (Some q)"
    and "int (CIRCLE_INITIAL_INTERNAL_QUEUE_SIZE H) \<le> INT32_MAX"
  shows "queue_wf H q" and "items q = []" and "count q = 0" and "head q = 0"
proof -
  let ?n = "CIRCLE_INITIAL_INTERNAL_QUEUE_SIZE H"
  have n: "unat (of_nat ?n :: 64 word) = ?n"
    using assms(2) by (intro unat_of_nat_fits) (simp add: INT32_MAX_def)
  have sc: "to_int32 (of_nat ?n) = int ?n" using assms(2) by (intro to_int32_small) simp
  from assms(1) have q: "count q = 0" "head q = 0" "str_count q = int ?n"
      "base q = Some (map (indet_byte H) [0..<unat (bytes q)])"
      "strings q = Some (map (indet_word H) [0..<?n])"
    by (auto simp: CIRCLE_internal_queue_init_def Let_def malloc_arr_def n sc split: if_splits)
  then have "offsets q = []" by (simp add: offsets_def)
  with q assms(2) show "queue_wf H q" "items q = []" "count q = 0" "head q = 0"
    by (simp_all add: queue_wf_def layout_def items_def)
qed

lemma str_extend_wf:
  assumes wf: "queue_wf H q" and ample: "mem_ample H"
    and run: "CIRCLE_internal_queue_str_extend H q n = Inr (rc, q')"
  shows "rc = 0 \<and> queue_wf H q' \<and> items q' = items q \<and> n \<le> str_count q'
    \<and> base q' = base q \<and> bytes q' = bytes q \<and> head q' = head q \<and> count q' = count q"
proof -
  from run obtain sc where loop: "str_count_loop (str_count q) n = Inr sc"
    and q': "q' = q\<lparr>str_count := sc,
      strings := realloc_arr H (indet_word H) 8 (strings q) (unat (word_of_int sc :: 64 word))\<rparr>"
    and rc: "rc = (if strings q' = None then -1 else 0)"
    by (auto simp: CIRCLE_internal_queue_str_extend_def Let_def outcome split: if_splits)
  from wf obtain b ss where q: "base q = Some b" "strings q = Some ss" "pool q = b"
      "unat (bytes q) = length b" "int (length ss) = str_count q" "str_count q \<le> INT32_MAX"
      "0 \<le> count q" "count q \<le> str_count q" "offsets q = map unat (take (nat (count q)) ss)"
      "layout (CIRCLE_MAX_STRING_LEN H) b (offsets q) (unat (head q))"
    by (rule queue_wfE)
  from str_count_loop_result [OF loop] q have sc: "str_count q \<le> sc" "n \<le> sc" "sc \<le> INT32_MAX"
    by auto
  with q have "unat (word_of_int sc :: 64 word) = nat sc" by (intro unat_word_of_int64) auto
  moreover have "length ss \<le> nat sc" using q sc by linarith
  ultimately have ss': "strings q' = Some (ss @ map (indet_word H) [length ss..<nat sc])"
    using q q' ample by (simp add: realloc_arr_grow)
  have off: "offsets q' = offsets q" using q q' ss' by (simp add: offsets_def)
  with q q' ss' sc \<open>length ss \<le> nat sc\<close> show ?thesis
    by (auto simp: queue_wf_def items_def pool_def rc)
qed

lemma extend_wf:
  assumes wf: "queue_wf H q" and ample: "mem_ample H" and more: "bytes q < n"
    and run: "CIRCLE_internal_queue_extend H q n = Inr (rc, q')"
  shows "rc = 0 \<and> queue_wf H q' \<and> items q' = items q \<and> n \<le> bytes q'
    \<and> strings q' = strings q \<and> str_count q' = str_count q \<and> head q' = head q
    \<and> count q' = count q"
proof -
  from run obtain c where loop: "bytes_loop (sc_pagesize H * 4096) (bytes q) n = Some c"
    and q': "q' = (let q1 = q\<lparr>base := realloc_arr H (indet_byte H) 1 (base q) (unat c)\<rparr>
                   in if base q1 = None then q1 else q1\<lparr>bytes := c\<rparr>)"
    and rc: "rc = (if base q' = None then -1 else 0)"
    by (auto simp: CIRCLE_internal_queue_extend_def Let_def split: if_splits option.splits)
  from wf obtain b ss where q: "base q = Some b" "strings q = Some ss" "pool q = b"
      "unat (bytes q) = length b" "int (length ss) = str_count q" "str_count q \<le> INT32_MAX"
      "0 \<le> count q" "count q \<le> str_count q" "offsets q = map unat (take (nat (count q)) ss)"
      "layout (CIRCLE_MAX_STRING_LEN H) b (offsets q) (unat (head q))"
    by (rule queue_wfE)
  have nc: "n \<le> c" using loop by (rule bytes_loop_result)
  with more have "bytes q \<le> c" by simp
  then have lc: "length b \<le> unat c" using q by (simp add: word_le_nat_alt)
  define b' where "b' = b @ map (indet_byte H) [length b..<unat c]"
  have base': "q' = q\<lparr>base := Some b', bytes := c\<rparr>"
    using q' q ample lc by (simp add: realloc_arr_grow b'_def)
  have h: "unat (head q) \<le> length b" using q by (simp add: layout_def)
  have same: "take (unat (head q)) b' = take (unat (head q)) b" using h by (simp add: b'_def)
  have lb': "length b' = unat c" using lc by (simp add: b'_def)
  have off: "offsets q' = offsets q" by (simp add: base' offsets_def q)
  show ?thesis
    using layout_same_below [OF q(10) same] h lb' lc q nc off rc
    by (auto simp: base' queue_wf_def items_def pool_def offsets_def)
qed

text \<open>The store of a string in a queue that has room for it.\<close>

lemma store_wf:
  assumes wf: "queue_wf H q" and s: "NUL \<notin> set s" "length s < CIRCLE_MAX_STRING_LEN H"
    and room: "count q < str_count q"
    and ss: "arr_set (strings q) (count q) (head q) = Inr ss'"
    and cp: "strcpy_to (base q) (unat (head q)) s = Inr b'"
    and h: "unat h' = unat (head q) + length s + 1"
  defines "q' \<equiv> q\<lparr>strings := ss', base := b', head := h', count := count q + 1\<rparr>"
  shows "queue_wf H q'" and "items q' = items q @ [s]"
proof -
  from wf obtain b ss where q: "base q = Some b" "strings q = Some ss" "pool q = b"
      "unat (bytes q) = length b" "int (length ss) = str_count q" "str_count q \<le> INT32_MAX"
      "0 \<le> count q" "count q \<le> str_count q" "offsets q = map unat (take (nat (count q)) ss)"
      "layout (CIRCLE_MAX_STRING_LEN H) b (offsets q) (unat (head q))"
    by (rule queue_wfE)
  let ?h = "unat (head q)"
  from cp q have fits: "?h + length s + 1 \<le> length b"
    and b': "b' = Some (take ?h b @ s @ [NUL] @ drop (?h + length s + 1) b)"
    by (auto simp: strcpy_to_def split: if_splits)
  have ss': "ss' = Some (ss[nat (count q) := head q])"
    using ss q by (auto simp: arr_set_eq_Inr)
  have n: "nat (count q) < length ss" "nat (count q + 1) = Suc (nat (count q))"
    using q room by auto
  have off: "offsets q' = offsets q @ [?h]"
    using n q by (simp add: q'_def offsets_def ss' b')
  note lay = layout_push [OF q(10) s fits]
  show "queue_wf H q'"
    using lay(1) q room off fits by (simp add: q'_def queue_wf_def b' ss' h offsets_def)
  show "items q' = items q @ [s]"
    using lay(2) off q by (simp add: items_def) (simp add: q'_def pool_def b')
qed

lemma push_len:
  assumes "c_str s"
  shows "unat (ucast (of_nat (length s) + 1 :: 64 word) :: 32 word) = length s + 1"
proof -
  have "(of_nat (length s) + 1 :: 64 word) = of_nat (length s + 1)" by simp
  also have "unat \<dots> = length s + 1"
    using assms by (intro unat_of_nat_fits) (simp add: c_str_def)
  finally show ?thesis
    using assms by (simp add: unsigned_ucast_eq c_str_def take_bit_nat_eq_self)
qed

lemma push_run:
  assumes wf: "queue_wf H q" and ample: "mem_ample H" and s: "c_str s"
    and run: "CIRCLE_internal_queue_push H q (Some s) = Inr (rc, q')"
  shows "if length s < CIRCLE_MAX_STRING_LEN H
    then rc = 0 \<and> queue_wf H q' \<and> items q' = items q @ [s] \<and> count q' = count q + 1
      \<and> unat (head q') = unat (head q) + length s + 1
    else rc = -1 \<and> q' = q"
proof -
  define len where "len = (ucast (of_nat (length s) + 1 :: 64 word) :: 32 word)"
  have len: "unat len = length s + 1" using s by (simp add: len_def push_len)
  have len64: "unat (ucast len :: 64 word) = length s + 1" by (simp add: unat_ucast_up len)
  have nz: "len \<noteq> 0" using len by auto
  show ?thesis
  proof (cases "length s < CIRCLE_MAX_STRING_LEN H")
    case False
    with run len nz show ?thesis
      by (simp add: CIRCLE_internal_queue_push_def Let_def flip: len_def)
  next
    case True
    with run len nz obtain rc1 q1 rc2 q2 where
      e1: "(if count q + 1 > str_count q then CIRCLE_internal_queue_str_extend H q (count q + 1)
            else Inr (0, q)) = Inr (rc1, q1)" and
      e2: "\<not> rc1 < 0 \<Longrightarrow> (if head q1 + ucast len > bytes q1
            then CIRCLE_internal_queue_extend H q1 (head q1 + ucast len)
            else Inr (0, q1)) = Inr (rc2, q2)" and
      e3: "\<not> rc1 < 0 \<Longrightarrow> \<not> rc2 < 0 \<Longrightarrow>
            \<exists>ss b. arr_set (strings q2) (count q2) (head q2) = Inr ss
             \<and> strcpy_to (base q2) (unat (head q2)) s = Inr b \<and> rc = 0
             \<and> q' = q2\<lparr>strings := ss, base := b, head := head q2 + ucast len,
                        count := count q2 + 1\<rparr>"
      by (fastforce simp: CIRCLE_internal_queue_push_def Let_def outcome
          simp flip: len_def split: if_splits)
    have s1: "rc1 = 0 \<and> queue_wf H q1 \<and> items q1 = items q \<and> count q < str_count q1
        \<and> count q1 = count q \<and> head q1 = head q"
      using e1 str_extend_wf [OF wf ample, of "count q + 1" rc1 q1] wf by (auto split: if_splits)
    with e2 have e2': "(if head q1 + ucast len > bytes q1
        then CIRCLE_internal_queue_extend H q1 (head q1 + ucast len) else Inr (0, q1)) = Inr (rc2, q2)"
      by simp
    have s2: "rc2 = 0 \<and> queue_wf H q2 \<and> items q2 = items q \<and> count q2 < str_count q2
        \<and> count q2 = count q \<and> head q2 = head q"
      using e2' s1 extend_wf [OF _ ample, of q1] by (auto split: if_splits)
    with s1 e3 obtain ss b where
      set: "arr_set (strings q2) (count q2) (head q2) = Inr ss" and
      cp: "strcpy_to (base q2) (unat (head q2)) s = Inr b" and rc: "rc = 0" and
      q': "q' = q2\<lparr>strings := ss, base := b, head := head q2 + ucast len, count := count q2 + 1\<rparr>"
      by auto
    have "unat (head q2) + length s + 1 \<le> length (pool q2)"
      using cp s2 by (auto simp: strcpy_to_def pool_def split: option.splits if_splits)
    moreover have "length (pool q2) < 2 ^ 64"
      using s2 unsigned_less [of "bytes q2", where 'a = nat] by (elim conjE queue_wfE) simp
    ultimately have h: "unat (head q2 + ucast len) = unat (head q2) + length s + 1"
      using unat_add_fits [of "head q2" "ucast len"] by (simp add: len64)
    from store_wf [of H q2 s, OF _ _ _ _ set cp h] s2 s True rc q' h show ?thesis
      by (simp add: c_str_def)
  qed
qed

text \<open>
  Room to push a string of \<open>n\<close> bytes: the number of items is a block away from the \<open>int32_t\<close> limit
  and the pool is a growth step away from the end of the address space.
\<close>

definition queue_room :: "('z) host_scheme \<Rightarrow> CIRCLE_internal_queue_t \<Rightarrow> nat \<Rightarrow> bool" where
  "queue_room H q n \<longleftrightarrow> count q + 4096 \<le> INT32_MAX \<and> sc_pagesize H * 4096 > 0
     \<and> unat (head q) + n + unat (sc_pagesize H * 4096) \<le> 2 ^ 64"

lemma extend_total:
  assumes "0 < sc_pagesize H * 4096" and "unat n + unat (sc_pagesize H * 4096) \<le> 2 ^ 64"
  shows "\<exists>rc q'. CIRCLE_internal_queue_extend H q n = Inr (rc, q')"
  using bytes_loop_total [OF assms, of "bytes q"]
  by (auto simp: CIRCLE_internal_queue_extend_def Let_def)

lemma str_extend_total:
  assumes "n + 4095 \<le> INT32_MAX" and "str_count q \<le> INT32_MAX"
  shows "\<exists>rc q'. CIRCLE_internal_queue_str_extend H q n = Inr (rc, q')"
  using str_count_loop_total [OF assms] by (auto simp: CIRCLE_internal_queue_str_extend_def Let_def)

lemma push_total:
  assumes wf: "queue_wf H q" and ample: "mem_ample H" and s: "c_str s"
    and room: "queue_room H q (length s + 1)"
  shows "\<exists>rc q'. CIRCLE_internal_queue_push H q (Some s) = Inr (rc, q')"
proof -
  define len where "len = (ucast (of_nat (length s) + 1 :: 64 word) :: 32 word)"
  have len: "unat len = length s + 1" using s by (simp add: len_def push_len)
  have len64: "unat (ucast len :: 64 word) = length s + 1" by (simp add: unat_ucast_up len)
  let ?e1 = "if count q + 1 > str_count q then CIRCLE_internal_queue_str_extend H q (count q + 1)
             else Inr (0, q)"
  have "\<exists>rc q1. ?e1 = Inr (rc, q1)"
    using str_extend_total [of "count q + 1" q H] room wf
    by (auto simp: queue_room_def elim!: queue_wfE)
  then obtain rc1 q1 where e1: "?e1 = Inr (rc1, q1)" by blast
  then have s1: "rc1 = 0 \<and> queue_wf H q1 \<and> count q < str_count q1 \<and> count q1 = count q
      \<and> head q1 = head q"
    using str_extend_wf [OF wf ample, of "count q + 1" rc1 q1] wf by (auto split: if_splits)
  let ?n = "head q1 + ucast len"
  have n: "unat ?n = unat (head q) + length s + 1"
    using room s1 unat_add_fits [of "head q1" "ucast len"]
    by (auto simp: queue_room_def len64 word_less_nat_alt)
  let ?e2 = "if ?n > bytes q1 then CIRCLE_internal_queue_extend H q1 ?n else Inr (0, q1)"
  have "\<exists>rc q2. ?e2 = Inr (rc, q2)"
    using extend_total [of H ?n q1] room n by (auto simp: queue_room_def)
  then obtain rc2 q2 where e2: "?e2 = Inr (rc2, q2)" by blast
  then have s2: "rc2 = 0 \<and> queue_wf H q2 \<and> count q2 < str_count q2 \<and> count q2 = count q
      \<and> head q2 = head q \<and> ?n \<le> bytes q2"
    using s1 extend_wf [OF _ ample, of q1 ?n rc2 q2] by (auto split: if_splits)
  then have "\<exists>ss b. arr_set (strings q2) (count q2) (head q2) = Inr ss
      \<and> strcpy_to (base q2) (unat (head q2)) s = Inr b"
    using n by (elim conjE queue_wfE) (auto simp: arr_set_def strcpy_to_def word_le_nat_alt)
  moreover have "\<not> INT32_MAX < count q + 1" using room by (simp add: queue_room_def)
  ultimately show ?thesis
    using e1 e2 s1 s2
    by (simp add: CIRCLE_internal_queue_push_def Let_def flip: len_def) auto
qed

lemma push_rejects:
  "CIRCLE_internal_queue_push H q None = Inr (-1, q)"
  "c_str s \<Longrightarrow> CIRCLE_MAX_STRING_LEN H \<le> length s \<Longrightarrow>
     CIRCLE_internal_queue_push H q (Some s) = Inr (-1, q)"
proof -
  show "CIRCLE_internal_queue_push H q None = Inr (-1, q)"
    by (simp add: CIRCLE_internal_queue_push_def)
  assume s: "c_str s" and long: "CIRCLE_MAX_STRING_LEN H \<le> length s"
  with push_len [OF s] show "CIRCLE_internal_queue_push H q (Some s) = Inr (-1, q)"
    by (simp add: CIRCLE_internal_queue_push_def Let_def)
qed

lemma pop_nonempty:
  assumes wf: "queue_wf H q" and ne: "0 < count q" and cap: "CIRCLE_MAX_STRING_LEN H \<le> cap"
  shows "\<exists>q'. CIRCLE_internal_queue_pop (Some q) (Some cap) = Inr (0, Some (last (items q)), Some q')
    \<and> queue_wf H q' \<and> items q' = butlast (items q) \<and> count q' = count q - 1"
proof -
  from wf obtain b ss where q: "base q = Some b" "strings q = Some ss" "pool q = b"
      "unat (bytes q) = length b" "int (length ss) = str_count q" "str_count q \<le> INT32_MAX"
      "0 \<le> count q" "count q \<le> str_count q" "offsets q = map unat (take (nat (count q)) ss)"
      "layout (CIRCLE_MAX_STRING_LEN H) b (offsets q) (unat (head q))"
    by (rule queue_wfE)
  define k where "k = nat (count q - 1)"
  have k: "nat (count q) = Suc k" "k < length ss" using ne q by (auto simp: k_def)
  let ?off = "unat (ss ! k)"
  have off: "offsets q = map unat (take k ss) @ [?off]"
    using q k by (simp add: take_Suc_conv_app_nth)
  then have t: "terminated_at b ?off" "length (cstr_at b ?off) < CIRCLE_MAX_STRING_LEN H"
    using q by (auto simp: layout_def)
  define q' where "q' = q\<lparr>head := ss ! k, count := count q - 1\<rparr>"
  have off': "offsets q' = map unat (take k ss)"
    using q by (simp add: q'_def offsets_def flip: k_def)
  have lay: "layout (CIRCLE_MAX_STRING_LEN H) b (offsets q') ?off"
    using layout_pop q off off' by metis
  have get: "arr_get (strings q) (count q - 1) = Inr (ss ! k)"
    using q ne by (simp add: k_def)
  have its: "items q = map (cstr_at b) (map unat (take k ss)) @ [cstr_at b ?off]"
    using q(3) off by (simp add: items_def)
  have str: "c_string (base q) ?off = Inr (last (items q))"
    using q(1) t its by (simp add: c_string_def)
  have "last (items q) = cstr_at b ?off" using its by simp
  then have "CIRCLE_internal_queue_pop (Some q) (Some cap) = Inr (0, Some (last (items q)), Some q')"
    using ne cap t get str by (simp add: CIRCLE_internal_queue_pop_def q'_def)
  moreover have "items q' = butlast (items q)"
    unfolding its using off' q(1) by (simp add: items_def pool_def q'_def)
  moreover have "queue_wf H q'" using q ne lay off' by (simp add: queue_wf_def q'_def)
  ultimately show ?thesis by (auto simp: q'_def)
qed

lemma pop_rejects:
  "CIRCLE_internal_queue_pop None str = Inr (-1, None, None)"
  "count q < 1 \<Longrightarrow> CIRCLE_internal_queue_pop (Some q) str = Inr (-1, None, Some q)"
  "CIRCLE_internal_queue_pop (Some q) None = Inr (-1, None, Some q)"
  by (simp_all add: CIRCLE_internal_queue_pop_def)

section \<open>The contract the clients of the queue rely on\<close>

text \<open>
  The clients (the user's callbacks through \<open>CIRCLE_handle\<close>, the checkpoint routines, the restart
  reader) see a stack of strings. \<open>valid\<close> are the strings a client may pass, \<open>fits\<close> those short
  enough to be stored. A \<open>push\<close> that returns does what it says; a \<open>pop\<close> always returns.
\<close>

locale work_stack =
  fixes inv :: "'q \<Rightarrow> bool"
    and stack :: "'q \<Rightarrow> string list"
    and valid :: "string \<Rightarrow> bool"
    and fits :: "string \<Rightarrow> bool"
    and push :: "'q \<Rightarrow> string option \<Rightarrow> (int \<times> 'q) result"
    and pop :: "'q \<Rightarrow> (int \<times> string option \<times> 'q) result"
  assumes push_null: "push q None = Inr (-1, q)"
    and push_fits: "inv q \<Longrightarrow> valid s \<Longrightarrow> fits s \<Longrightarrow> push q (Some s) = Inr (rc, q') \<Longrightarrow>
          rc = 0 \<and> inv q' \<and> stack q' = stack q @ [s]"
    and push_long: "inv q \<Longrightarrow> valid s \<Longrightarrow> \<not> fits s \<Longrightarrow> push q (Some s) = Inr (-1, q)"
    and pop_some: "inv q \<Longrightarrow> stack q \<noteq> [] \<Longrightarrow>
          \<exists>q'. pop q = Inr (0, Some (last (stack q)), q') \<and> inv q' \<and> stack q' = butlast (stack q)"
    and pop_none: "inv q \<Longrightarrow> stack q = [] \<Longrightarrow> pop q = Inr (-1, None, q)"
begin

lemma push_inv:
  assumes "inv q" and "\<And>s. str = Some s \<Longrightarrow> valid s" and "push q str = Inr (rc, q')"
  shows "inv q'"
  using assms push_null push_fits push_long by (cases str) (auto, metis Inr_inject Pair_inject)

lemma pop_inv:
  assumes "inv q" and "pop q = Inr (rc, s, q')"
  shows "inv q'"
  using assms pop_some pop_none by (cases "stack q = []") fastforce+

lemma pop_never_stops: "inv q \<Longrightarrow> \<exists>rc s q'. pop q = Inr (rc, s, q')"
  using pop_some pop_none by (cases "stack q = []") fastforce+

text \<open>Last in, first out.\<close>

lemma push_pop:
  assumes "inv q" and "valid s" and "fits s" and "push q (Some s) = Inr (rc, q')"
  shows "\<exists>q''. pop q' = Inr (0, Some s, q'') \<and> inv q'' \<and> stack q'' = stack q"
  using push_fits [OF assms] pop_some [of q'] by auto

text \<open>A run of pushes leaves exactly the strings that fit, in order.\<close>

lemma push_many:
  assumes "inv q" and "\<forall>s \<in> set xs. valid s"
    and "for_list (\<lambda>s q. andThen (push q (Some s)) (\<lambda>(rc, q). Inr q)) xs q = Inr q'"
  shows "inv q' \<and> stack q' = stack q @ filter fits xs"
  using assms
proof (induction xs arbitrary: q)
  case Nil
  then show ?case by simp
next
  case (Cons s xs)
  then obtain rc q1 where p: "push q (Some s) = Inr (rc, q1)"
    and rest: "for_list (\<lambda>s q. andThen (push q (Some s)) (\<lambda>(rc, q). Inr q)) xs q1 = Inr q'"
    by (auto simp: outcome)
  have "inv q1 \<and> stack q1 = stack q @ filter fits [s]"
    using Cons.prems p push_fits [of q s rc q1] push_long [of q s] by (cases "fits s") auto
  with Cons.IH [of q1] Cons.prems rest show ?case by auto
qed

end

text \<open>Popping into a caller buffer of \<open>cap\<close> bytes, from a queue that exists.\<close>

definition queue_pop_into ::
  "nat \<Rightarrow> CIRCLE_internal_queue_t \<Rightarrow> (int \<times> string option \<times> CIRCLE_internal_queue_t) result" where
  "queue_pop_into cap q = andThen (CIRCLE_internal_queue_pop (Some q) (Some cap))
     (\<lambda>(rc, s, qo). case qo of None \<Rightarrow> Inl Null_Deref | Some q' \<Rightarrow> Inr (rc, s, q'))"

text \<open>
  With memory to grow into, the byte-level queue honours the contract, for callers whose buffer
  holds \<open>CIRCLE_MAX_STRING_LEN\<close> bytes.
\<close>

interpretation wq: work_stack
  "\<lambda>q. mem_ample H \<and> queue_wf H q"
  items
  c_str
  "\<lambda>s. length s < CIRCLE_MAX_STRING_LEN H"
  "CIRCLE_internal_queue_push H"
  "queue_pop_into (CIRCLE_MAX_STRING_LEN H)"
  for H :: "('z) host_scheme"
proof (unfold_locales, goal_cases)
  case 1
  show ?case by (rule push_rejects)
next
  case (2 q s rc q')
  then show ?case using push_run [of H q s rc q'] by auto
next
  case (3 q s)
  then show ?case by (intro push_rejects) auto
next
  case (4 q)
  then have "0 < count q" using items_empty_iff queue_wf_count by fastforce
  with 4 show ?case
    using pop_nonempty [of H q "CIRCLE_MAX_STRING_LEN H"] by (auto simp: queue_pop_into_def)
next
  case (5 q)
  then have "count q < 1" using items_empty_iff by fastforce
  then show ?case by (simp add: queue_pop_into_def pop_rejects)
qed

section \<open>Properties of the queue\<close>

text \<open>
  C17. Push. On a well-formed queue with room and memory, pushing a string that fits returns 0,
  keeps the queue well formed and puts the string on top of the stack. In particular no byte
  outside the pool and no entry outside the table is touched, whatever growth the push triggers.
\<close>

theorem queue_push_correct:
  assumes "queue_wf H q" and "mem_ample H" and "c_str s" and "queue_room H q (length s + 1)"
    and "length s < CIRCLE_MAX_STRING_LEN H"
  shows "\<exists>q'. CIRCLE_internal_queue_push H q (Some s) = Inr (0, q')
    \<and> queue_wf H q' \<and> items q' = items q @ [s] \<and> count q' = count q + 1"
  using push_total [OF assms(1-4)] push_run [OF assms(1-3)] assms(5) by fastforce

text \<open>A queue holding the strings \<open>ab\<close> and \<open>c\<close>, with a gap between them.\<close>

definition small_queue :: CIRCLE_internal_queue_t where
  "small_queue = \<lparr>base = Some (''ab'' @ [NUL] @ ''x'' @ ''c'' @ [NUL] @ ''yyyyyyyyyy''),
     bytes = 16, head = 6, strings = Some [0, 4], str_count = 2, count = 2\<rparr>"

lemma small_queue_wf: "queue_wf small_host small_queue"
  by code_simp

lemma small_queue_items: "items small_queue = [''ab'', ''c'']"
  by code_simp

theorem queue_push_correct_witness:
  "\<exists>q'. CIRCLE_internal_queue_push small_host small_queue (Some ''de'') = Inr (0, q')
    \<and> queue_wf small_host q' \<and> items q' = [''ab'', ''c'', ''de''] \<and> count q' = 3"
proof -
  have "c_str ''de''" by (simp add: c_str_def NUL_def)
  moreover have "queue_room small_host small_queue (length ''de'' + 1)"
    by (simp add: queue_room_def small_queue_def INT32_MAX_def)
  ultimately show ?thesis
    using queue_push_correct [OF small_queue_wf, of "''de''"] small_queue_items
    by (simp add: small_queue_def)
qed

text \<open>
  C20. Push and pop are inverse. After a successful push into a well-formed queue, popping into a
  buffer of \<open>CIRCLE_MAX_STRING_LEN\<close> bytes returns 0, delivers the string just pushed without
  overrunning the buffer, and restores the stack there was before.
\<close>

theorem queue_push_pop:
  assumes "queue_wf H q" and "mem_ample H" and "c_str s" and "length s < CIRCLE_MAX_STRING_LEN H"
    and "CIRCLE_internal_queue_push H q (Some s) = Inr (rc, q')"
  shows "\<exists>q''. CIRCLE_internal_queue_pop (Some q') (Some (CIRCLE_MAX_STRING_LEN H))
      = Inr (0, Some s, Some q'') \<and> queue_wf H q'' \<and> items q'' = items q"
  using wq.push_pop [of H q s rc q'] assms
  by (auto simp: queue_pop_into_def outcome split: option.splits)

theorem queue_push_pop_witness:
  "\<exists>rc q' q''. CIRCLE_internal_queue_push small_host small_queue (Some ''de'') = Inr (rc, q')
    \<and> CIRCLE_internal_queue_pop (Some q') (Some 8) = Inr (0, Some ''de'', Some q'')
    \<and> items q'' = [''ab'', ''c'']"
proof -
  have s: "c_str ''de''" by (simp add: c_str_def NUL_def)
  have "queue_room small_host small_queue (length ''de'' + 1)"
    by (simp add: queue_room_def small_queue_def INT32_MAX_def)
  then obtain rc q' where p: "CIRCLE_internal_queue_push small_host small_queue (Some ''de'') = Inr (rc, q')"
    using push_total [OF small_queue_wf _ s] by auto
  then show ?thesis
    using queue_push_pop [OF small_queue_wf _ s _ p] small_queue_items by auto
qed

end
