(* ===== verification/Checkpoint.thy ===== *)
theory Checkpoint
  imports Queue
begin

text \<open>
  The checkpoint routines of \<^verbatim>\<open>libcircle/queue.c\<close>: \<open>CIRCLE_internal_queue_write\<close> drains the queue
  into the text file \<open>circle<rank>.txt\<close>, one item per line, and \<open>CIRCLE_internal_queue_read\<close> pushes
  the lines of that file back. The C library is modelled as far as the two routines use it:
  \<open>sprintf("circle%d.txt")\<close>, \<open>fopen\<close> for reading and for writing, \<open>fgets\<close>, \<open>fprintf("%s\n")\<close> and
  \<open>fclose\<close>. The lemmas give the file names, the file contents, and when a checkpoint survives a
  restart.
\<close>

section \<open>The C library\<close>

type_synonym files = "string \<Rightarrow> string option"

text \<open>
  What the file system decides: whether a file can be opened, whether the \<open>k\<close>-th \<open>fprintf\<close> of a
  stream succeeds, and what \<open>fclose\<close> returns.
\<close>

record stdio =
  fopen_read_ok :: "string \<Rightarrow> bool"
  fopen_write_ok :: "string \<Rightarrow> bool"
  fprintf_ok :: "nat \<Rightarrow> bool"
  fclose_rc :: int

definition digit :: "nat \<Rightarrow> char" where
  "digit d = char_of (48 + d)"

fun decimal :: "nat \<Rightarrow> string" where
  "decimal n = (if n < 10 then [digit n] else decimal (n div 10) @ [digit (n mod 10)])"

declare decimal.simps [simp del]

definition format_d :: "int \<Rightarrow> string" where
  "format_d i = (if i < 0 then ''-'' @ decimal (nat (- i)) else decimal (nat i))"

definition NEWLINE :: char where
  "NEWLINE = CHR 0x0A"

text \<open>
  \<open>fgets(buf, n, f)\<close> at a position of a stream: at most \<open>n - 1\<close> characters, through the first
  newline; \<open>None\<close> at the end of the file.
\<close>

fun fgets_chars :: "nat \<Rightarrow> string \<Rightarrow> string \<times> string" where
  "fgets_chars 0 inp = ([], inp)"
| "fgets_chars (Suc n) [] = ([], [])"
| "fgets_chars (Suc n) (c # inp) =
     (if c = NEWLINE then ([c], inp)
      else case fgets_chars n inp of (line, rest) \<Rightarrow> (c # line, rest))"

definition fgets :: "nat \<Rightarrow> string \<Rightarrow> (string \<times> string) option" where
  "fgets n inp = (if inp = [] then None else Some (fgets_chars (n - 1) inp))"

section \<open>Writing and reading\<close>

definition checkpoint_filename :: "int \<Rightarrow> string" where
  "checkpoint_filename rank = ''circle'' @ format_d rank @ ''.txt''"

text \<open>
  \<open>while(qp->count > 0)\<close>: pop into a local buffer of \<open>CIRCLE_MAX_STRING_LEN\<close> bytes and print the
  item. \<open>k\<close> counts the calls to \<open>fprintf\<close> and \<open>out\<close> is the file written so far. Both error returns
  leave the stream open.
\<close>

function write_loop ::
  "('z) host_scheme \<Rightarrow> stdio \<Rightarrow> nat \<Rightarrow> CIRCLE_internal_queue_t \<Rightarrow> string \<Rightarrow>
     (int \<times> CIRCLE_internal_queue_t \<times> string) result" where
  "write_loop H io k qp out =
     (if count qp > 0 then
        (case CIRCLE_internal_queue_pop (Some qp) (Some (CIRCLE_MAX_STRING_LEN H)) of
           Inl e \<Rightarrow> Inl e
         | Inr (rc, str, qo) \<Rightarrow>
             (case (str, qo) of
                (Some s, Some qp') \<Rightarrow>
                  if rc < 0 then Inr (-1, qp', out)
                  else if \<not> fprintf_ok io k then Inr (-1, qp', out)
                  else write_loop H io (Suc k) qp' (out @ s @ [NEWLINE])
              | _ \<Rightarrow> Inr (-1, qp, out)))
      else Inr (fclose_rc io, qp, out))"
  by pat_completeness auto
termination
proof (relation "measure (\<lambda>(H, io, k, qp, out). nat (count qp))", simp, goal_cases)
  case (1 H io k qp out r p rc p' str qo p'' s qp')
  then have "count qp' = count qp - 1"
    by (auto simp: CIRCLE_internal_queue_pop_def outcome split: if_splits)
  with 1 show ?case by simp
qed

declare write_loop.simps [simp del]

definition CIRCLE_internal_queue_write ::
  "('z) host_scheme \<Rightarrow> stdio \<Rightarrow> files \<Rightarrow> CIRCLE_internal_queue_t \<Rightarrow> int \<Rightarrow>
     (int \<times> CIRCLE_internal_queue_t \<times> files) result" where
  "CIRCLE_internal_queue_write H io fs qp rank =
     (if count qp = 0 then Inr (0, qp, fs) else
      let filename = checkpoint_filename rank
      in if \<not> fopen_write_ok io filename then Inr (-1, qp, fs) else
         andThen (write_loop H io 0 qp []) (\<lambda>(rc, qp, out).
         Inr (rc, qp, fs(filename \<mapsto> out))))"

text \<open>
  \<open>while(fgets(...) != NULL)\<close>: the last character of each line is cut off, empty reads are
  skipped, a failed push is only logged. A buffer of one byte makes \<open>fgets\<close> return without
  consuming anything, and the loop does not end.
\<close>

function read_loop ::
  "('z) host_scheme \<Rightarrow> CIRCLE_internal_queue_t \<Rightarrow> string \<Rightarrow> CIRCLE_internal_queue_t result" where
  "read_loop H qp inp =
     (case fgets (CIRCLE_MAX_STRING_LEN H) inp of
        None \<Rightarrow> Inr qp
      | Some (line, rest) \<Rightarrow>
          if \<not> length rest < length inp then Inl Diverges else
          let str = takeWhile (\<lambda>c. c \<noteq> NUL) line;
              len = (of_nat (length str) :: 32 word)
          in if len > 0
             then (case CIRCLE_internal_queue_push H qp (Some (take (unat len - 1) str)) of
                     Inl e \<Rightarrow> Inl e
                   | Inr (rc, qp) \<Rightarrow> read_loop H qp rest)
             else read_loop H qp rest)"
  by pat_completeness auto
termination
  by (relation "measure (\<lambda>(H, qp, inp). length inp)") auto

declare read_loop.simps [simp del]

definition CIRCLE_internal_queue_read ::
  "('z) host_scheme \<Rightarrow> stdio \<Rightarrow> files \<Rightarrow> CIRCLE_internal_queue_t option \<Rightarrow> int \<Rightarrow>
     (int \<times> CIRCLE_internal_queue_t option) result" where
  "CIRCLE_internal_queue_read H io fs qp rank = (case qp of None \<Rightarrow> Inr (-1, None) | Some q \<Rightarrow>
     let filename = checkpoint_filename rank
     in (case fs filename of
           None \<Rightarrow> Inr (-1, qp)
         | Some content \<Rightarrow>
             if \<not> fopen_read_ok io filename then Inr (-1, qp) else
             andThen (read_loop H q content) (\<lambda>q. Inr (fclose_rc io, Some q))))"

section \<open>File names\<close>

lemma digit_inj: "a < 10 \<Longrightarrow> b < 10 \<Longrightarrow> digit a = digit b \<Longrightarrow> a = b"
proof -
  have code: "of_char (digit d) = 48 + d" if "d < 10" for d
    using that by (simp add: digit_def)
  assume "a < 10" and "b < 10" and "digit a = digit b"
  then have "48 + a = 48 + b" by (metis code)
  then show "a = b" by (rule add_left_imp_eq)
qed

lemma decimal_ne: "decimal n \<noteq> []"
  by (subst decimal.simps) simp

lemma decimal_inj: "decimal m = decimal n \<Longrightarrow> m = n"
proof (induction m arbitrary: n rule: decimal.induct)
  case (1 m)
  show ?case
  proof (cases "m < 10")
    case True
    with "1.prems" have "n < 10"
      using decimal_ne [of "n div 10"]
      by (auto simp: decimal.simps [of m] decimal.simps [of n] split: if_splits)
    with True "1.prems" show ?thesis
      by (auto simp: decimal.simps [of m] decimal.simps [of n] intro: digit_inj)
  next
    case False
    with "1.prems" have n: "\<not> n < 10"
      using decimal_ne [of "m div 10"]
      by (auto simp: decimal.simps [of m] decimal.simps [of n] split: if_splits)
    with False "1.prems" have "decimal (m div 10) = decimal (n div 10)"
      and "digit (m mod 10) = digit (n mod 10)"
      by (auto simp: decimal.simps [of m] decimal.simps [of n])
    with "1.IH" [OF False] have "m div 10 = n div 10" and "m mod 10 = n mod 10"
      by (auto intro: digit_inj)
    then show ?thesis by (metis div_mult_mod_eq)
  qed
qed

lemma decimal_hd: "hd (decimal n) \<noteq> CHR ''-''"
proof (induction n rule: decimal.induct)
  case (1 n)
  have "digit d \<noteq> CHR ''-''" if "d < 10" for d
  proof
    assume "digit d = CHR ''-''"
    then have "of_char (digit d) = (45 :: nat)" by simp
    with that show False by (simp add: digit_def)
  qed
  with 1 decimal_ne show ?case by (subst decimal.simps) (auto simp: hd_append)
qed

lemma format_d_inj: "format_d i = format_d j \<Longrightarrow> i = j"
  using decimal_hd [of "nat i"] decimal_hd [of "nat j"]
  by (auto simp: format_d_def dest!: decimal_inj split: if_splits) (metis list.sel(1))+

lemma checkpoint_filename_inj: "checkpoint_filename i = checkpoint_filename j \<Longrightarrow> i = j"
  by (auto simp: checkpoint_filename_def dest: format_d_inj)

section \<open>File contents\<close>

definition checkpoint_text :: "string list \<Rightarrow> string" where
  "checkpoint_text xs = concat (map (\<lambda>s. s @ [NEWLINE]) xs)"

lemma checkpoint_text_simps [simp]:
  "checkpoint_text [] = []"
  "checkpoint_text (s # xs) = s @ NEWLINE # checkpoint_text xs"
  by (simp_all add: checkpoint_text_def)

text \<open>A stream that never fails, as the routines' success paths need it.\<close>

definition io_ok :: "stdio \<Rightarrow> bool" where
  "io_ok io \<longleftrightarrow> (\<forall>f. fopen_read_ok io f) \<and> (\<forall>f. fopen_write_ok io f) \<and> (\<forall>k. fprintf_ok io k)
     \<and> fclose_rc io = 0"

lemma write_loop_drains:
  assumes wf: "queue_wf H q" and ok: "\<forall>k. fprintf_ok io k"
  shows "\<exists>q'. write_loop H io k q out = Inr (fclose_rc io, q', out @ checkpoint_text (rev (items q)))
    \<and> queue_wf H q' \<and> count q' = 0"
  using wf
proof (induction "nat (count q)" arbitrary: q k out)
  case 0
  then have "count q = 0" using queue_wf_count [of H q] by simp
  moreover have "items q = []" using 0 items_empty_iff [of H q] \<open>count q = 0\<close> by simp
  ultimately show ?case using 0 by (subst write_loop.simps) simp
next
  case (Suc n)
  then have pos: "0 < count q" by simp
  from pop_nonempty [OF Suc.prems pos order_refl] obtain q1 where
    pop: "CIRCLE_internal_queue_pop (Some q) (Some (CIRCLE_MAX_STRING_LEN H))
            = Inr (0, Some (last (items q)), Some q1)"
    and q1: "queue_wf H q1" "items q1 = butlast (items q)" "count q1 = count q - 1"
    by blast
  from Suc.hyps(2) q1 have "n = nat (count q1)" by simp
  from Suc.hyps(1) [OF this q1(1), of "Suc k" "out @ last (items q) @ [NEWLINE]"] obtain q' where
    IH: "write_loop H io (Suc k) q1 (out @ last (items q) @ [NEWLINE])
         = Inr (fclose_rc io, q', (out @ last (items q) @ [NEWLINE]) @ checkpoint_text (rev (items q1)))"
      "queue_wf H q'" "count q' = 0" by blast
  have "items q \<noteq> []" using pos items_empty_iff [OF Suc.prems] by simp
  then have "rev (items q) = last (items q) # rev (items q1)"
    by (metis append_butlast_last_id q1(2) rev_eq_Cons_iff rev_rev_ident rev.simps(2))
  then have "checkpoint_text (rev (items q))
      = last (items q) @ NEWLINE # checkpoint_text (rev (items q1))" by (simp only: checkpoint_text_simps)
  with IH pop pos ok show ?case by (subst write_loop.simps) simp
qed

lemma write_file:
  assumes "queue_wf H q" and "count q \<noteq> 0" and "io_ok io"
  shows "\<exists>q'. CIRCLE_internal_queue_write H io fs q rank
           = Inr (0, q', fs(checkpoint_filename rank \<mapsto> checkpoint_text (rev (items q))))
         \<and> queue_wf H q' \<and> items q' = []"
  using write_loop_drains [OF assms(1), of io 0 "[]"] assms items_empty_iff
  by (fastforce simp: CIRCLE_internal_queue_write_def io_ok_def)

lemma fgets_line:
  assumes "NEWLINE \<notin> set s" and "length s + 2 \<le> n"
  shows "fgets n (s @ NEWLINE # rest) = Some (s @ [NEWLINE], rest)"
proof -
  have "fgets_chars m (s @ NEWLINE # rest) = (s @ [NEWLINE], rest)"
    if "NEWLINE \<notin> set s" "length s < m" for s m
    using that
  proof (induction s arbitrary: m)
    case Nil
    then show ?case by (cases m) auto
  next
    case (Cons c s)
    then show ?case by (cases m) auto
  qed
  with assms show ?thesis by (simp add: fgets_def)
qed

lemma newline_not_NUL [simp]: "NEWLINE \<noteq> NUL" "NUL \<noteq> NEWLINE"
  by (simp_all add: NEWLINE_def NUL_def)

lemma read_line:
  assumes s: "NUL \<notin> set s" "NEWLINE \<notin> set s" "length s + 2 \<le> CIRCLE_MAX_STRING_LEN H"
    and fit: "length s + 1 < 2 ^ 32"
  shows "read_loop H q (s @ NEWLINE # rest) =
     (case CIRCLE_internal_queue_push H q (Some s) of Inl e \<Rightarrow> Inl e
      | Inr (rc, q) \<Rightarrow> read_loop H q rest)"
proof -
  let ?w = "of_nat (length (s @ [NEWLINE])) :: 32 word"
  have str: "takeWhile (\<lambda>c. c \<noteq> NUL) (s @ [NEWLINE]) = s @ [NEWLINE]"
    using s(1) by (simp add: takeWhile_eq_all_conv) (metis newline_not_NUL(1))
  have len: "unat ?w = length s + 1" using fit by (subst unat_of_nat_fits) auto
  then have pos: "?w > 0" by (simp add: word_less_nat_alt)
  have cut: "take (unat ?w - 1) (s @ [NEWLINE]) = s" using len by simp
  have less: "length rest < length (s @ NEWLINE # rest)" by simp
  show ?thesis
    by (subst read_loop.simps)
      (simp only: fgets_line [OF s(2,3)] option.case prod.case Let_def str pos cut less not_True_eq_False
        if_True if_False)
qed

text \<open>Reading back lines that are short enough for the buffer pushes exactly those lines.\<close>

lemma read_loop_lines:
  assumes "queue_wf H q" and "mem_ample H"
    and "\<forall>s \<in> set xs. c_str s \<and> NEWLINE \<notin> set s \<and> length s + 2 \<le> CIRCLE_MAX_STRING_LEN H"
    and "read_loop H q (checkpoint_text xs) = Inr q'"
  shows "queue_wf H q' \<and> items q' = items q @ xs"
  using assms
proof (induction xs arbitrary: q)
  case Nil
  then show ?case by (simp add: read_loop.simps [of H q] fgets_def)
next
  case (Cons s xs)
  then have s: "c_str s" "NUL \<notin> set s" "NEWLINE \<notin> set s"
      "length s + 2 \<le> CIRCLE_MAX_STRING_LEN H" "length s + 1 < 2 ^ 32"
    by (auto simp: c_str_def)
  from Cons.prems(4) obtain rc q1 where
    p: "CIRCLE_internal_queue_push H q (Some s) = Inr (rc, q1)" and
    rest: "read_loop H q1 (checkpoint_text xs) = Inr q'"
    by (auto simp: read_line [OF s(2-5)] split: sum.splits prod.splits)
  have "queue_wf H q1" "items q1 = items q @ [s]"
    using push_run [OF Cons.prems(1,2) s(1) p] s(4) by auto
  with Cons.IH [of q1] Cons.prems rest show ?case by auto
qed

text \<open>With room for all the lines, the reader returns.\<close>

lemma read_loop_total:
  assumes "queue_wf H q" and "mem_ample H"
    and "\<forall>s \<in> set xs. c_str s \<and> NEWLINE \<notin> set s \<and> length s + 2 \<le> CIRCLE_MAX_STRING_LEN H"
    and "count q + int (length xs) + 4096 \<le> INT32_MAX" and "0 < sc_pagesize H * 4096"
    and "unat (head q) + length (checkpoint_text xs) + unat (sc_pagesize H * 4096) \<le> 2 ^ 64"
  shows "\<exists>q'. read_loop H q (checkpoint_text xs) = Inr q'"
  using assms
proof (induction xs arbitrary: q)
  case Nil
  then show ?case by (simp add: read_loop.simps [of H q] fgets_def)
next
  case (Cons s xs)
  then have s: "c_str s" "NUL \<notin> set s" "NEWLINE \<notin> set s"
      "length s + 2 \<le> CIRCLE_MAX_STRING_LEN H" "length s + 1 < 2 ^ 32"
    by (auto simp: c_str_def)
  have "queue_room H q (length s + 1)" using Cons.prems by (simp add: queue_room_def)
  then obtain rc q1 where p: "CIRCLE_internal_queue_push H q (Some s) = Inr (rc, q1)"
    using push_total [OF Cons.prems(1,2) s(1)] by blast
  then have "queue_wf H q1" "count q1 = count q + 1"
      "unat (head q1) = unat (head q) + length s + 1"
    using push_run [OF Cons.prems(1,2) s(1) p] s(4) by auto
  with Cons.IH [of q1] Cons.prems p show ?case
    by (simp add: read_line [OF s(2-5)])
qed

section \<open>Checkpoint and restart\<close>

text \<open>
  What a checkpoint can hold: items without a newline, short enough that the line with its newline
  and terminator fits the reader's buffer.
\<close>

definition checkpointable :: "('z) host_scheme \<Rightarrow> string \<Rightarrow> bool" where
  "checkpointable H s \<longleftrightarrow> NEWLINE \<notin> set s \<and> length s + 2 \<le> CIRCLE_MAX_STRING_LEN H"

lemma write_then_read:
  assumes "queue_wf H q" and "count q \<noteq> 0" and "\<forall>s \<in> set (items q). checkpointable H s"
    and "CIRCLE_MAX_STRING_LEN H < 2 ^ 32" and "io_ok io" and "mem_ample H"
    and "queue_wf H q0" and "count q0 = 0" and "count q + 4096 \<le> INT32_MAX"
    and "0 < sc_pagesize H * 4096"
    and "unat (head q0) + length (checkpoint_text (items q)) + unat (sc_pagesize H * 4096) \<le> 2 ^ 64"
  shows "\<exists>q' q1. CIRCLE_internal_queue_write H io fs q rank = Inr (0, q', fs(checkpoint_filename rank \<mapsto> checkpoint_text (rev (items q)))) \<and> items q' = []
    \<and> CIRCLE_internal_queue_read H io (fs(checkpoint_filename rank \<mapsto> checkpoint_text (rev (items q)))) (Some q0) rank = Inr (0, Some q1)
    \<and> queue_wf H q1 \<and> items q1 = rev (items q)"
proof -
  from write_file [OF assms(1,2,5)] obtain q' where
    w: "CIRCLE_internal_queue_write H io fs q rank
        = Inr (0, q', fs(checkpoint_filename rank \<mapsto> checkpoint_text (rev (items q))))"
      "items q' = []" by blast
  have lines: "\<forall>s \<in> set (rev (items q)). c_str s \<and> NEWLINE \<notin> set s
      \<and> length s + 2 \<le> CIRCLE_MAX_STRING_LEN H"
    using assms(3,4) items_c_str [OF assms(1)] by (fastforce simp: checkpointable_def c_str_def)
  have len: "length (checkpoint_text (rev xs)) = length (checkpoint_text xs)" for xs
    by (simp add: checkpoint_text_def length_concat rev_map [symmetric] comp_def sum_list_rev
        flip: rev_map)
  have n: "count q0 + int (length (rev (items q))) + 4096 \<le> INT32_MAX"
    using assms(1,8,9) queue_wf_count [of H q] by simp
  from read_loop_total [OF assms(7,6) lines n assms(10)] assms(11) len obtain q1 where
    r: "read_loop H q0 (checkpoint_text (rev (items q))) = Inr q1" by auto
  have "queue_wf H q1 \<and> items q1 = items q0 @ rev (items q)"
    by (rule read_loop_lines [OF assms(7,6) lines r])
  moreover have "items q0 = []" using assms(7,8) items_empty_iff by blast
  ultimately show ?thesis
    using w r assms(5) by (simp add: CIRCLE_internal_queue_read_def io_ok_def)
qed

text \<open>
  C19. Checkpoint and restart. Writing a non-empty queue and reading the file back into an empty
  queue returns success on both sides, empties the first queue, and leaves in the second exactly
  the same items, in reverse order (the writer pops, the reader pushes), whenever every item is
  free of newlines and two bytes shorter than the buffer.
\<close>

theorem checkpoint_round_trip:
  assumes "queue_wf H q" and "count q \<noteq> 0" and "\<forall>s \<in> set (items q). checkpointable H s"
    and "CIRCLE_MAX_STRING_LEN H < 2 ^ 32" and "io_ok io" and "mem_ample H"
    and "queue_wf H q0" and "count q0 = 0" and "count q + 4096 \<le> INT32_MAX"
    and "0 < sc_pagesize H * 4096"
    and "unat (head q0) + length (checkpoint_text (items q)) + unat (sc_pagesize H * 4096) \<le> 2 ^ 64"
  shows "\<exists>q' fs' q1. CIRCLE_internal_queue_write H io fs q rank = Inr (0, q', fs') \<and> items q' = []
    \<and> CIRCLE_internal_queue_read H io fs' (Some q0) rank = Inr (0, Some q1)
    \<and> queue_wf H q1 \<and> items q1 = rev (items q)"
  using write_then_read [OF assms] by blast

definition good_stdio :: stdio where
  "good_stdio = \<lparr>fopen_read_ok = (\<lambda>_. True), fopen_write_ok = (\<lambda>_. True),
     fprintf_ok = (\<lambda>_. True), fclose_rc = 0\<rparr>"

lemma good_stdio_ok [simp]: "io_ok good_stdio"
  by (simp add: io_ok_def good_stdio_def)

definition empty_queue :: CIRCLE_internal_queue_t where
  "empty_queue = \<lparr>base = Some ''zzzzzzzzzzzz'', bytes = 12, head = 0, strings = Some [3, 4],
     str_count = 2, count = 0\<rparr>"

lemma empty_queue_wf: "queue_wf small_host empty_queue"
  by code_simp

theorem checkpoint_round_trip_witness:
  "\<exists>q' fs' q1. CIRCLE_internal_queue_write small_host good_stdio Map.empty small_queue 12 = Inr (0, q', fs')
    \<and> CIRCLE_internal_queue_read small_host good_stdio fs' (Some empty_queue) 12 = Inr (0, Some q1)
    \<and> items q1 = [''c'', ''ab'']"
proof -
  have "\<forall>s \<in> set (items small_queue). checkpointable small_host s"
    by (simp add: small_queue_items checkpointable_def NEWLINE_def)
  moreover have "count small_queue = 2" "count empty_queue = 0" "head empty_queue = 0"
    by (simp_all add: small_queue_def empty_queue_def)
  ultimately show ?thesis
    using checkpoint_round_trip [OF small_queue_wf, of good_stdio empty_queue Map.empty 12]
      empty_queue_wf small_queue_items
    by (auto simp: INT32_MAX_def)
qed

text \<open>
  C25. Checkpoint files do not collide. Two ranks that both write a checkpoint write different files:
  after the second write the file of the first still holds what the first wrote.
\<close>

theorem checkpoint_ranks_independent:
  assumes "CIRCLE_internal_queue_write H io fs q r = Inr (rc, q', fs')"
    and "CIRCLE_internal_queue_write H io fs' p r2 = Inr (rc2, p', fs'')" and "r2 \<noteq> r"
  shows "fs'' (checkpoint_filename r) = fs' (checkpoint_filename r)"
  using assms(2,3) checkpoint_filename_inj [of r r2]
  by (auto simp: CIRCLE_internal_queue_write_def Let_def outcome split: if_splits)

theorem checkpoint_ranks_independent_witness:
  "\<exists>q' fs' p' fs''. CIRCLE_internal_queue_write small_host good_stdio Map.empty small_queue 1 = Inr (0, q', fs')
    \<and> CIRCLE_internal_queue_write small_host good_stdio fs' small_queue 11 = Inr (0, p', fs'')
    \<and> fs'' (checkpoint_filename 1) = Some (checkpoint_text [''c'', ''ab''])"
proof -
  have ne: "count small_queue \<noteq> 0" by (simp add: small_queue_def)
  from write_file [OF small_queue_wf ne good_stdio_ok, of Map.empty 1] obtain q' fs' where
    a: "CIRCLE_internal_queue_write small_host good_stdio Map.empty small_queue 1 = Inr (0, q', fs')"
      "fs' (checkpoint_filename 1) = Some (checkpoint_text [''c'', ''ab''])"
    by (auto simp: small_queue_items)
  from write_file [OF small_queue_wf ne good_stdio_ok, of fs' 11] obtain p' fs'' where
    b: "CIRCLE_internal_queue_write small_host good_stdio fs' small_queue 11 = Inr (0, p', fs'')"
    by blast
  from checkpoint_ranks_independent [OF a(1) b] a b show ?thesis by auto
qed

text \<open>
  C26. The longest items do not survive a restart. An item of \<open>CIRCLE_MAX_STRING_LEN - 1\<close> characters,
  which the queue accepts, is written in full, but its line is one byte too long for the reader's
  buffer: the reader pushes the item without its last character and then an empty string.
\<close>

theorem checkpoint_longest_item_damaged:
  assumes "queue_wf H q0" and "mem_ample H" and "c_str s" and "NEWLINE \<notin> set s"
    and "length s + 1 = CIRCLE_MAX_STRING_LEN H" and "s \<noteq> []"
    and "read_loop H q0 (checkpoint_text [s]) = Inr q1"
  shows "items q1 = items q0 @ [butlast s, []]"
proof -
  have "fgets_chars (length t) (t @ r) = (t, r)" if "NEWLINE \<notin> set t" for t r
    using that by (induction t) auto
  then have f: "fgets (CIRCLE_MAX_STRING_LEN H) (checkpoint_text [s]) = Some (s, [NEWLINE])"
    using assms(4,5) by (simp add: fgets_def flip: assms(5))
  have nn: "takeWhile (\<lambda>c. c \<noteq> NUL) s = s"
    using assms(3) by (auto simp: c_str_def takeWhile_eq_all_conv)
  have len: "unat (of_nat (length s) :: 32 word) = length s"
    using assms(3) by (intro unat_of_nat_fits) (simp add: c_str_def)
  then have pos: "(of_nat (length s) :: 32 word) > 0" using assms(6) by (simp add: word_less_nat_alt)
  have sh: "length [NEWLINE] < length (checkpoint_text [s])" using assms(6) by simp
  have "(case CIRCLE_internal_queue_push H q0 (Some (butlast s)) of Inl e \<Rightarrow> Inl e
      | Inr (rc, q) \<Rightarrow> read_loop H q [NEWLINE]) = Inr q1"
    using assms(7) sh
    by (simp only: read_loop.simps [of H q0 "checkpoint_text [s]"] f option.case prod.case Let_def nn
        pos len butlast_conv_take if_True if_False not_True_eq_False)
  then obtain rc q where
    p: "CIRCLE_internal_queue_push H q0 (Some (butlast s)) = Inr (rc, q)" and
    r: "read_loop H q (checkpoint_text [[]]) = Inr q1"
    by (auto split: sum.splits)
  have "c_str (butlast s)" using assms(3) by (auto simp: c_str_def dest: in_set_butlastD)
  then have q: "queue_wf H q" "items q = items q0 @ [butlast s]"
    using push_run [OF assms(1,2) _ p] assms(5) by auto
  have "length s + 1 \<ge> 2" using assms(6) by (cases s) auto
  then have "\<forall>t \<in> set [[]]. c_str t \<and> NEWLINE \<notin> set t \<and> length t + 2 \<le> CIRCLE_MAX_STRING_LEN H"
    using assms(5) by (simp add: c_str_def)
  from read_loop_lines [OF q(1) assms(2) this r] q show ?thesis by simp
qed

theorem checkpoint_longest_item_damaged_witness:
  "\<exists>q1. read_loop small_host empty_queue (checkpoint_text [''abcdefg'']) = Inr q1
    \<and> items q1 = [''abcdef'', []]"
proof -
  have "\<exists>q1. read_loop small_host empty_queue (checkpoint_text [''abcdefg'']) = Inr q1"
  proof -
    have "isl (read_loop small_host empty_queue (checkpoint_text [''abcdefg''])) = False"
      by code_simp
    then show ?thesis by (metis isl_def sum.exhaust_sel)
  qed
  then obtain q1 where r: "read_loop small_host empty_queue (checkpoint_text [''abcdefg'']) = Inr q1"
    by blast
  have "items empty_queue = []" by code_simp
  moreover have "c_str ''abcdefg''" by (simp add: c_str_def NUL_def)
  ultimately show ?thesis
    using checkpoint_longest_item_damaged [OF empty_queue_wf _ _ _ _ _ r] r
    by (auto simp: NEWLINE_def)
qed

end
