(* ===== verification/MPI.thy ===== *)
theory MPI
  imports Prelude Complex_Main
begin

text \<open>
  The interface to MPI, the message passing library the program is built on and does not contain.
  The library is a parameter: a record of the operations the program calls, over an abstract
  network state \<open>'n\<close>, extending the record of the host. Every definition of the program that
  communicates takes this record. The locale \<open>mpi_comm\<close> states what the program relies on, in
  terms of the messages sent and not yet received between each pair of ranks under each tag;
  \<open>fifo_mpi\<close> is a concrete network that satisfies it.
\<close>

section \<open>Types and constants\<close>

datatype MPI_Request = MPI_REQUEST_NULL | MPI_Req nat

text \<open>The contents of a message by the type it was sent with (\<open>MPI_BYTE\<close> and \<open>MPI_CHAR\<close>,
  \<open>MPI_INT\<close>, \<open>MPI_LONG_LONG\<close>).\<close>

datatype payload = Bytes string | Ints "int list" | LongLongs "int list"

fun msg_count :: "payload \<Rightarrow> int" where
  "msg_count (Bytes bs) = int (length bs)"
| "msg_count (Ints xs) = int (length xs)"
| "msg_count (LongLongs xs) = int (length xs)"

record MPI_Status =
  MPI_SOURCE :: int
  MPI_COUNT :: int

text \<open>
  The operations, each with the network state and the rank of the caller first, then the peer and
  the tag. \<open>None\<close> is a call that blocks: a receive that finds nothing to match, a wait for a request that does not
  complete, a send that the library neither buffers nor can hand over, which the standard allows of \<open>MPI_Send\<close> at any time.
  A probe that finds nothing returns at once.
\<close>

record 'n mpi = host +
  MPI_PROC_NULL :: int
  MPI_ANY_SOURCE :: int
  mpi_iprobe :: "'n \<Rightarrow> int \<Rightarrow> int \<Rightarrow> int \<Rightarrow> MPI_Status option \<times> 'n"
  mpi_recv :: "'n \<Rightarrow> int \<Rightarrow> int \<Rightarrow> int \<Rightarrow> (payload \<times> 'n) option"
  mpi_send :: "'n \<Rightarrow> int \<Rightarrow> int \<Rightarrow> int \<Rightarrow> payload \<Rightarrow> 'n option"
  mpi_isend :: "'n \<Rightarrow> int \<Rightarrow> int \<Rightarrow> int \<Rightarrow> payload \<Rightarrow> nat \<times> 'n"
  mpi_issend :: "'n \<Rightarrow> int \<Rightarrow> int \<Rightarrow> int \<Rightarrow> payload \<Rightarrow> nat \<times> 'n"
  mpi_irecv :: "'n \<Rightarrow> int \<Rightarrow> int \<Rightarrow> int \<Rightarrow> nat \<times> 'n"
  mpi_test :: "'n \<Rightarrow> nat \<Rightarrow> bool \<times> 'n"
  mpi_testall :: "'n \<Rightarrow> nat list \<Rightarrow> bool \<times> 'n"
  mpi_wait :: "'n \<Rightarrow> nat \<Rightarrow> 'n option"
  mpi_abort :: "'n \<Rightarrow> int \<Rightarrow> 'n"
  mpi_wtime :: "'n \<Rightarrow> real \<times> 'n"

text \<open>The tags and values of \<open>enum tags\<close> in \<^verbatim>\<open>token.h\<close>.\<close>

abbreviation (input) WHITE :: int where "WHITE \<equiv> 0"
abbreviation (input) BLACK :: int where "BLACK \<equiv> 1"
abbreviation (input) TERMINATE :: int where "TERMINATE \<equiv> -1"
abbreviation (input) CIRCLE_TAG_WORK_REQUEST :: int where "CIRCLE_TAG_WORK_REQUEST \<equiv> 0"
abbreviation (input) CIRCLE_TAG_WORK_REPLY :: int where "CIRCLE_TAG_WORK_REPLY \<equiv> 1"
abbreviation (input) CIRCLE_TAG_WORK_RECEIPT :: int where "CIRCLE_TAG_WORK_RECEIPT \<equiv> 2"
abbreviation (input) CIRCLE_TAG_TOKEN :: int where "CIRCLE_TAG_TOKEN \<equiv> 3"
abbreviation (input) CIRCLE_TAG_REDUCE :: int where "CIRCLE_TAG_REDUCE \<equiv> 4"
abbreviation (input) CIRCLE_TAG_BARRIER :: int where "CIRCLE_TAG_BARRIER \<equiv> 5"
abbreviation (input) CIRCLE_TAG_TERM :: int where "CIRCLE_TAG_TERM \<equiv> 6"
abbreviation (input) CIRCLE_TAG_ABORT_REQUEST :: int where "CIRCLE_TAG_ABORT_REQUEST \<equiv> 7"
abbreviation (input) CIRCLE_TAG_ABORT_REPLY :: int where "CIRCLE_TAG_ABORT_REPLY \<equiv> 8"
abbreviation (input) CIRCLE_TAG_ABORT_REDUCE :: int where "CIRCLE_TAG_ABORT_REDUCE \<equiv> 9"
abbreviation (input) MSG_VALID :: int where "MSG_VALID \<equiv> 10"
abbreviation (input) MSG_INVALID :: int where "MSG_INVALID \<equiv> 11"
abbreviation (input) PAYLOAD_ABORT :: int where "PAYLOAD_ABORT \<equiv> -32"
abbreviation (input) LIBCIRCLE_MPI_ERROR :: int where "LIBCIRCLE_MPI_ERROR \<equiv> 32"

section \<open>The calls as the program makes them\<close>

definition MPI_Send ::
  "('n, 'z) mpi_scheme \<Rightarrow> 'n \<Rightarrow> int \<Rightarrow> int \<Rightarrow> int \<Rightarrow> payload \<Rightarrow> 'n result" where
  "MPI_Send E n me dst tag m = (case mpi_send E n me dst tag m of
     None \<Rightarrow> Inl Would_Block | Some n' \<Rightarrow> Inr n')"

definition MPI_Recv ::
  "('n, 'z) mpi_scheme \<Rightarrow> 'n \<Rightarrow> int \<Rightarrow> int \<Rightarrow> int \<Rightarrow> (payload \<times> 'n) result" where
  "MPI_Recv E n me src tag = (case mpi_recv E n me src tag of
     None \<Rightarrow> Inl Would_Block | Some (m, n') \<Rightarrow> Inr (m, n'))"

text \<open>Receives of a fixed shape; a message of another shape is an error of the program.\<close>

definition recv_int :: "('n, 'z) mpi_scheme \<Rightarrow> 'n \<Rightarrow> int \<Rightarrow> int \<Rightarrow> int \<Rightarrow> (int \<times> 'n) result" where
  "recv_int E n me src tag = andThen (MPI_Recv E n me src tag) (\<lambda>(m, n).
     case m of Ints [v] \<Rightarrow> Inr (v, n) | _ \<Rightarrow> Inl Bad_Message)"

definition recv_empty :: "('n, 'z) mpi_scheme \<Rightarrow> 'n \<Rightarrow> int \<Rightarrow> int \<Rightarrow> int \<Rightarrow> 'n result" where
  "recv_empty E n me src tag = andThen (MPI_Recv E n me src tag) (\<lambda>(m, n).
     case m of Bytes [] \<Rightarrow> Inr n | _ \<Rightarrow> Inl Bad_Message)"

definition recv_bytes ::
  "('n, 'z) mpi_scheme \<Rightarrow> 'n \<Rightarrow> int \<Rightarrow> int \<Rightarrow> int \<Rightarrow> int \<Rightarrow> (string \<times> 'n) result" where
  "recv_bytes E n me src tag len = andThen (MPI_Recv E n me src tag) (\<lambda>(m, n).
     case m of Bytes bs \<Rightarrow> if int (length bs) \<le> len then Inr (bs, n) else Inl Bad_Message
     | _ \<Rightarrow> Inl Bad_Message)"

definition recv_ints ::
  "('n, 'z) mpi_scheme \<Rightarrow> 'n \<Rightarrow> int \<Rightarrow> int \<Rightarrow> int \<Rightarrow> int \<Rightarrow> (int list \<times> 'n) result" where
  "recv_ints E n me src tag len = andThen (MPI_Recv E n me src tag) (\<lambda>(m, n).
     case m of Ints xs \<Rightarrow> if int (length xs) \<le> len then Inr (xs, n) else Inl Bad_Message
     | _ \<Rightarrow> Inl Bad_Message)"

definition recv_long_longs3 ::
  "('n, 'z) mpi_scheme \<Rightarrow> 'n \<Rightarrow> int \<Rightarrow> int \<Rightarrow> int \<Rightarrow> ((int \<times> int \<times> int) \<times> 'n) result" where
  "recv_long_longs3 E n me src tag = andThen (MPI_Recv E n me src tag) (\<lambda>(m, n).
     case m of LongLongs [a, b, c] \<Rightarrow> Inr ((a, b, c), n) | _ \<Rightarrow> Inl Bad_Message)"

lemma recv_int_eq:
  "recv_int E n me src tag = Inr (v, n') \<longleftrightarrow> MPI_Recv E n me src tag = Inr (Ints [v], n')"
  by (cases "MPI_Recv E n me src tag") (auto simp: recv_int_def split: payload.splits list.splits)

lemma recv_empty_eq:
  "recv_empty E n me src tag = Inr n' \<longleftrightarrow> MPI_Recv E n me src tag = Inr (Bytes [], n')"
  by (cases "MPI_Recv E n me src tag") (auto simp: recv_empty_def split: payload.splits list.splits)

lemma recv_bytes_eq:
  "recv_bytes E n me src tag len = Inr (bs, n') \<longleftrightarrow>
     MPI_Recv E n me src tag = Inr (Bytes bs, n') \<and> int (length bs) \<le> len"
  by (cases "MPI_Recv E n me src tag") (auto simp: recv_bytes_def split: payload.splits if_splits)

lemma recv_ints_eq:
  "recv_ints E n me src tag len = Inr (xs, n') \<longleftrightarrow>
     MPI_Recv E n me src tag = Inr (Ints xs, n') \<and> int (length xs) \<le> len"
  by (cases "MPI_Recv E n me src tag") (auto simp: recv_ints_def split: payload.splits if_splits)

lemma recv_long_longs3_eq:
  "recv_long_longs3 E n me src tag = Inr ((a, b, c), n') \<longleftrightarrow>
     MPI_Recv E n me src tag = Inr (LongLongs [a, b, c], n')"
  by (cases "MPI_Recv E n me src tag") (auto simp: recv_long_longs3_def split: payload.splits list.splits)

lemmas recv_eqs = recv_int_eq recv_empty_eq recv_bytes_eq recv_ints_eq recv_long_longs3_eq

text \<open>\<open>MPI_Test\<close>: a null request is complete; a completed request becomes null.\<close>

definition MPI_Test :: "('n, 'z) mpi_scheme \<Rightarrow> 'n \<Rightarrow> MPI_Request \<Rightarrow> bool \<times> MPI_Request \<times> 'n" where
  "MPI_Test E n req = (case req of MPI_REQUEST_NULL \<Rightarrow> (True, MPI_REQUEST_NULL, n)
     | MPI_Req r \<Rightarrow> (case mpi_test E n r of (flag, n') \<Rightarrow>
         (flag, if flag then MPI_REQUEST_NULL else req, n')))"

definition MPI_Wait :: "('n, 'z) mpi_scheme \<Rightarrow> 'n \<Rightarrow> MPI_Request \<Rightarrow> (MPI_Request \<times> 'n) result" where
  "MPI_Wait E n req = (case req of MPI_REQUEST_NULL \<Rightarrow> Inr (MPI_REQUEST_NULL, n)
     | MPI_Req r \<Rightarrow> (case mpi_wait E n r of None \<Rightarrow> Inl Would_Block
         | Some n' \<Rightarrow> Inr (MPI_REQUEST_NULL, n')))"

fun req_ids :: "MPI_Request list \<Rightarrow> nat list" where
  "req_ids [] = []"
| "req_ids (MPI_REQUEST_NULL # rs) = req_ids rs"
| "req_ids (MPI_Req r # rs) = r # req_ids rs"

text \<open>\<open>MPI_Testall\<close>: all requests become null when all are complete, otherwise none changes.\<close>

definition MPI_Testall ::
  "('n, 'z) mpi_scheme \<Rightarrow> 'n \<Rightarrow> MPI_Request list \<Rightarrow> bool \<times> MPI_Request list \<times> 'n" where
  "MPI_Testall E n reqs = (case mpi_testall E n (req_ids reqs) of (flag, n') \<Rightarrow>
     (flag, if flag then map (\<lambda>_. MPI_REQUEST_NULL) reqs else reqs, n'))"

text \<open>\<open>MPI_Waitall\<close> waits for each request in turn.\<close>

definition MPI_Waitall :: "('n, 'z) mpi_scheme \<Rightarrow> 'n \<Rightarrow> MPI_Request list \<Rightarrow> 'n result" where
  "MPI_Waitall E n reqs =
     for_list (\<lambda>req n. andThen (MPI_Wait E n req) (\<lambda>(_, n). Inr n)) reqs n"

text \<open>
  A library that buffers what the program sends. The standard does not promise it, so it is no part of what the program
  relies on below, but a hypothesis of the properties that need it.
\<close>

definition sends_buffered :: "('n, 'z) mpi_scheme \<Rightarrow> bool" where
  "sends_buffered E \<longleftrightarrow> (\<forall>n me dst tag m. mpi_send E n me dst tag m \<noteq> None)"

lemma buffered_send: "sends_buffered E \<Longrightarrow> \<exists>n'. MPI_Send E n me dst tag m = Inr n'"
  by (auto simp: sends_buffered_def MPI_Send_def split: option.splits)

lemma buffered_sends: "sends_buffered E \<Longrightarrow> \<exists>n'. for_list (\<lambda>c n. MPI_Send E n me c tag m) cs n = Inr n'"
proof (induction cs arbitrary: n)
  case (Cons c cs)
  obtain n1 where "MPI_Send E n me c tag m = Inr n1" using buffered_send [OF Cons.prems] by blast
  with Cons show ?case by simp
qed simp

section \<open>What the program relies on\<close>

text \<open>
  \<open>chan n (s, d, t)\<close> are the messages from \<open>s\<close> to \<open>d\<close> under tag \<open>t\<close> sent and not yet received,
  oldest first (messages between a pair of ranks under one tag are received in the order sent);
  \<open>posted n\<close> are the channels for which a nonblocking receive is pending. A probe may miss a message
  that is still in transit, and a test may report an operation incomplete at any time.
\<close>

type_synonym channel = "int \<times> int \<times> int"

locale mpi_comm =
  fixes E :: "('n, 'z) mpi_scheme"
    and chan :: "'n \<Rightarrow> channel \<Rightarrow> payload list"
    and posted :: "'n \<Rightarrow> channel set"
  assumes proc_null: "MPI_PROC_NULL E < 0"
    and any_source: "MPI_ANY_SOURCE E < 0"
    and probe_keeps: "mpi_iprobe E n me src tag = (po, n') \<Longrightarrow> chan n' = chan n \<and> posted n' = posted n"
    and probe_hit: "mpi_iprobe E n me src tag = (Some s, n') \<Longrightarrow>
      (src \<noteq> MPI_ANY_SOURCE E \<longrightarrow> MPI_SOURCE s = src)
      \<and> (\<exists>m ms. chan n (MPI_SOURCE s, me, tag) = m # ms \<and> MPI_COUNT s = msg_count m)"
    and recv_takes: "mpi_recv E n me src tag = Some (m, n') \<Longrightarrow>
      \<exists>ms. chan n (src, me, tag) = m # ms \<and> chan n' = (chan n)((src, me, tag) := ms)
        \<and> posted n' = posted n"
    and recv_blocks: "mpi_recv E n me src tag = None \<Longrightarrow> chan n (src, me, tag) = []"
    and send_adds: "mpi_send E n me dst tag m = Some n' \<Longrightarrow>
      chan n' = (chan n)((me, dst, tag) := chan n (me, dst, tag) @ [m]) \<and> posted n' = posted n"
    and isend_adds: "mpi_isend E n me dst tag m = (r, n') \<Longrightarrow>
      chan n' = (chan n)((me, dst, tag) := chan n (me, dst, tag) @ [m]) \<and> posted n' = posted n"
    and issend_adds: "mpi_issend E n me dst tag m = (r, n') \<Longrightarrow>
      chan n' = (chan n)((me, dst, tag) := chan n (me, dst, tag) @ [m]) \<and> posted n' = posted n"
    and irecv_posts: "mpi_irecv E n me src tag = (r, n') \<Longrightarrow>
      chan n' = chan n \<and> posted n' = insert (src, me, tag) (posted n)"
    and test_keeps: "mpi_test E n r = (f, n') \<Longrightarrow>
      (\<forall>k. k \<notin> posted n \<longrightarrow> chan n' k = chan n k) \<and> posted n' \<subseteq> posted n"
    and testall_keeps: "mpi_testall E n rs = (f, n') \<Longrightarrow>
      (\<forall>k. k \<notin> posted n \<longrightarrow> chan n' k = chan n k) \<and> posted n' \<subseteq> posted n"
    and wait_keeps: "mpi_wait E n r = Some n' \<Longrightarrow>
      (\<forall>k. k \<notin> posted n \<longrightarrow> chan n' k = chan n k) \<and> posted n' \<subseteq> posted n"
    and abort_keeps: "chan (mpi_abort E n code) = chan n \<and> posted (mpi_abort E n code) = posted n"
    and wtime_keeps: "mpi_wtime E n = (time, n') \<Longrightarrow> chan n' = chan n \<and> posted n' = posted n"
begin

lemma recv_after_probe:
  assumes "mpi_iprobe E n me src tag = (Some s, n')"
  shows "\<exists>m ms n''. chan n (MPI_SOURCE s, me, tag) = m # ms
    \<and> MPI_Recv E n' me (MPI_SOURCE s) tag = Inr (m, n'')
    \<and> chan n'' = (chan n)((MPI_SOURCE s, me, tag) := ms) \<and> posted n'' = posted n"
proof -
  from probe_hit [OF assms] obtain m ms where m: "chan n (MPI_SOURCE s, me, tag) = m # ms"
    by blast
  with probe_keeps [OF assms] have ne: "chan n' (MPI_SOURCE s, me, tag) = m # ms" by simp
  then obtain m' n'' where r: "mpi_recv E n' me (MPI_SOURCE s) tag = Some (m', n'')"
    using recv_blocks by (metis list.distinct(1) not_None_eq surj_pair)
  from recv_takes [OF r] ne probe_keeps [OF assms] m r show ?thesis
    by (auto simp: MPI_Recv_def)
qed

lemma MPI_Send_adds:
  assumes "MPI_Send E n me dst tag m = Inr n'"
  shows "chan n' = (chan n)((me, dst, tag) := chan n (me, dst, tag) @ [m]) \<and> posted n' = posted n"
  using assms send_adds [of n me dst tag m] by (auto simp: MPI_Send_def split: option.splits)

lemma MPI_Recv_takes:
  assumes "MPI_Recv E n me src tag = Inr (m, n')"
  shows "\<exists>ms. chan n (src, me, tag) = m # ms \<and> chan n' = (chan n)((src, me, tag) := ms)
    \<and> posted n' = posted n"
  using assms recv_takes [of n me src tag] by (auto simp: MPI_Recv_def split: option.splits)

lemma MPI_Recv_gets:
  assumes "chan n (src, me, tag) = m # ms"
  shows "\<exists>n'. MPI_Recv E n me src tag = Inr (m, n') \<and> chan n' = (chan n)((src, me, tag) := ms)
    \<and> posted n' = posted n"
proof -
  obtain m' n' where r: "mpi_recv E n me src tag = Some (m', n')"
    using assms recv_blocks [of n me src tag] by (cases "mpi_recv E n me src tag") auto
  from recv_takes [OF r] assms r show ?thesis by (auto simp: MPI_Recv_def)
qed

lemma MPI_Test_keeps:
  assumes "MPI_Test E n req = (flag, req', n')"
  shows "(\<forall>k. k \<notin> posted n \<longrightarrow> chan n' k = chan n k) \<and> posted n' \<subseteq> posted n"
  using assms test_keeps
  by (auto simp: MPI_Test_def split: MPI_Request.splits prod.splits)

lemma MPI_Testall_keeps:
  assumes "MPI_Testall E n reqs = (flag, reqs', n')"
  shows "(\<forall>k. k \<notin> posted n \<longrightarrow> chan n' k = chan n k) \<and> posted n' \<subseteq> posted n"
  using assms testall_keeps by (auto simp: MPI_Testall_def split: prod.splits)

lemma MPI_Wait_keeps:
  assumes "MPI_Wait E n req = Inr (req', n')"
  shows "(\<forall>k. k \<notin> posted n \<longrightarrow> chan n' k = chan n k) \<and> posted n' \<subseteq> posted n"
  using assms wait_keeps
  by (auto simp: MPI_Wait_def split: MPI_Request.splits option.splits)

end

section \<open>A concrete network\<close>

text \<open>
  The messages under way are one list, in the order sent; the request of a synchronous send is complete when its message has been
  received, that of a receive when its message is there (completing it takes the message), that
  of a plain send at once. \<open>deaf\<close> channels hide their messages from probes for now, as messages in
  transit do.
\<close>

datatype fifo_req = Fifo_send | Fifo_ssend channel nat | Fifo_recv channel

record fifo_net =
  f_size :: nat
  f_msgs :: "(channel \<times> payload) list"
  f_taken :: "channel list"
  f_reqs :: "fifo_req list"
  f_done :: "nat list"
  f_deaf :: "channel list"
  f_time :: real

definition f_chan :: "fifo_net \<Rightarrow> channel \<Rightarrow> payload list" where
  "f_chan n k = map snd (filter (\<lambda>x. fst x = k) (f_msgs n))"

definition fifo_put :: "fifo_net \<Rightarrow> channel \<Rightarrow> payload \<Rightarrow> fifo_net" where
  "fifo_put n k m = n\<lparr>f_msgs := f_msgs n @ [(k, m)]\<rparr>"

primrec drop_first :: "channel \<Rightarrow> (channel \<times> payload) list \<Rightarrow> (channel \<times> payload) list" where
  "drop_first k [] = []"
| "drop_first k (x # xs) = (if fst x = k then xs else x # drop_first k xs)"

definition fifo_take :: "fifo_net \<Rightarrow> channel \<Rightarrow> (payload \<times> fifo_net) option" where
  "fifo_take n k = (case f_chan n k of [] \<Rightarrow> None
     | m # ms \<Rightarrow> Some (m, n\<lparr>f_msgs := drop_first k (f_msgs n), f_taken := k # f_taken n\<rparr>))"

definition fifo_new :: "fifo_net \<Rightarrow> fifo_req \<Rightarrow> nat \<times> fifo_net" where
  "fifo_new n rq = (length (f_reqs n), n\<lparr>f_reqs := f_reqs n @ [rq]\<rparr>)"

definition fifo_posted :: "fifo_net \<Rightarrow> channel set" where
  "fifo_posted n = {k. Fifo_recv k \<in> set (f_reqs n)}"

definition fifo_iprobe :: "fifo_net \<Rightarrow> int \<Rightarrow> int \<Rightarrow> int \<Rightarrow> MPI_Status option \<times> fifo_net" where
  "fifo_iprobe n me src tag =
     (let visible = (\<lambda>s. f_chan n (s, me, tag) \<noteq> [] \<and> (s, me, tag) \<notin> set (f_deaf n));
          srcs = filter visible (if src = -1 then map int [0..<f_size n] else [src])
      in (case srcs of [] \<Rightarrow> None
          | s # _ \<Rightarrow> Some \<lparr>MPI_SOURCE = s, MPI_COUNT = msg_count (hd (f_chan n (s, me, tag)))\<rparr>, n))"

definition fifo_test :: "fifo_net \<Rightarrow> nat \<Rightarrow> bool \<times> fifo_net" where
  "fifo_test n r =
     (if r \<in> set (f_done n) then (True, n) else
      if length (f_reqs n) \<le> r then (True, n) else
      (case f_reqs n ! r of
         Fifo_send \<Rightarrow> (True, n\<lparr>f_done := r # f_done n\<rparr>)
       | Fifo_ssend k i \<Rightarrow> (if i < count_list (f_taken n) k then (True, n\<lparr>f_done := r # f_done n\<rparr>) else (False, n))
       | Fifo_recv k \<Rightarrow> (case fifo_take n k of None \<Rightarrow> (False, n)
           | Some (m, n') \<Rightarrow> (True, n'\<lparr>f_done := r # f_done n'\<rparr>))))"

definition fifo_mpi :: "fifo_net mpi" where
  "fifo_mpi = host.extend small_host
    \<lparr>MPI_PROC_NULL = -2, MPI_ANY_SOURCE = -1,
     mpi_iprobe = fifo_iprobe,
     mpi_recv = (\<lambda>n me src tag. fifo_take n (src, me, tag)),
     mpi_send = (\<lambda>n me dst tag m. Some (fifo_put n (me, dst, tag) m)),
     mpi_isend = (\<lambda>n me dst tag m. fifo_new (fifo_put n (me, dst, tag) m) Fifo_send),
     mpi_issend = (\<lambda>n me dst tag m. fifo_new (fifo_put n (me, dst, tag) m)
        (Fifo_ssend (me, dst, tag) (count_list (f_taken n) (me, dst, tag) + length (f_chan n (me, dst, tag))))),
     mpi_irecv = (\<lambda>n me src tag. fifo_new n (Fifo_recv (src, me, tag))),
     mpi_test = fifo_test,
     mpi_testall = (\<lambda>n rs. fold (\<lambda>r (b, n). case fifo_test n r of (b', n') \<Rightarrow> (b \<and> b', n')) rs (True, n)),
     mpi_wait = (\<lambda>n r. case fifo_test n r of (b, n') \<Rightarrow> if b then Some n' else None),
     mpi_abort = (\<lambda>n code. n),
     mpi_wtime = (\<lambda>n. (f_time n, n\<lparr>f_time := f_time n + 1\<rparr>))\<rparr>"

definition quiet_net :: "nat \<Rightarrow> fifo_net" where
  "quiet_net np = \<lparr>f_size = np, f_msgs = [], f_taken = [], f_reqs = [], f_done = [],
     f_deaf = [], f_time = 0\<rparr>"

lemma fifo_mpi_simps [simp]:
  "MPI_PROC_NULL fifo_mpi = -2" "MPI_ANY_SOURCE fifo_mpi = -1"
  "mpi_iprobe fifo_mpi = fifo_iprobe"
  "mpi_recv fifo_mpi n me src tag = fifo_take n (src, me, tag)"
  "mpi_send fifo_mpi n me dst tag m = Some (fifo_put n (me, dst, tag) m)"
  "mpi_isend fifo_mpi n me dst tag m = fifo_new (fifo_put n (me, dst, tag) m) Fifo_send"
  "mpi_issend fifo_mpi n me dst tag m = fifo_new (fifo_put n (me, dst, tag) m)
     (Fifo_ssend (me, dst, tag) (count_list (f_taken n) (me, dst, tag) + length (f_chan n (me, dst, tag))))"
  "mpi_irecv fifo_mpi n me src tag = fifo_new n (Fifo_recv (src, me, tag))"
  "mpi_test fifo_mpi = fifo_test"
  "mpi_testall fifo_mpi n rs =
     fold (\<lambda>r (b, n). case fifo_test n r of (b', n') \<Rightarrow> (b \<and> b', n')) rs (True, n)"
  "mpi_wait fifo_mpi n r = (case fifo_test n r of (b, n') \<Rightarrow> if b then Some n' else None)"
  "mpi_abort fifo_mpi n code = n"
  "mpi_wtime fifo_mpi n = (f_time n, n\<lparr>f_time := f_time n + 1\<rparr>)"
  by (simp_all add: fifo_mpi_def host.defs)

lemma fifo_mpi_host [simp]:
  "malloc_ok fifo_mpi = malloc_ok small_host" "mem_ample fifo_mpi"
  "CIRCLE_MAX_STRING_LEN fifo_mpi = 8" "CIRCLE_INITIAL_INTERNAL_QUEUE_SIZE fifo_mpi = 2"
  "sc_pagesize fifo_mpi = 1" "rand_r fifo_mpi seed = (uint seed, seed + 1)"
  "indet_byte fifo_mpi = indet_byte small_host" "indet_word fifo_mpi = indet_word small_host"
  by (simp_all add: fifo_mpi_def host.defs small_host_def mem_ample_def)

lemma f_chan_simps [simp]:
  "f_chan (fifo_put n k m) = (f_chan n)(k := f_chan n k @ [m])"
  "f_chan (n\<lparr>f_msgs := drop_first k (f_msgs n), f_taken := ts\<rparr>) = (f_chan n)(k := tl (f_chan n k))"
  "f_chan (n\<lparr>f_reqs := rs\<rparr>) = f_chan n" "f_chan (n\<lparr>f_done := ds\<rparr>) = f_chan n" "f_chan (n\<lparr>f_time := t\<rparr>) = f_chan n"
proof -
  have "filter (\<lambda>x. fst x = k') (drop_first k xs)
    = (if k' = k then tl (filter (\<lambda>x. fst x = k) xs) else filter (\<lambda>x. fst x = k') xs)" for k' xs
    by (induction xs) auto
  then show "f_chan (n\<lparr>f_msgs := drop_first k (f_msgs n), f_taken := ts\<rparr>) = (f_chan n)(k := tl (f_chan n k))"
    by (auto simp: f_chan_def fun_eq_iff map_tl)
qed (auto simp: f_chan_def fifo_put_def fun_eq_iff)

lemma f_reqs_put [simp]: "f_reqs (fifo_put n k m) = f_reqs n"
  by (simp add: fifo_put_def)

lemma f_chan_quiet [simp]: "f_chan (quiet_net np) k = []"
  by (simp add: f_chan_def quiet_net_def)

lemma fifo_test_keeps:
  assumes "fifo_test n r = (f, n')"
  shows "(\<forall>k. k \<notin> fifo_posted n \<longrightarrow> f_chan n' k = f_chan n k) \<and> fifo_posted n' \<subseteq> fifo_posted n"
proof (cases "r < length (f_reqs n)")
  case True
  then have mem: "f_reqs n ! r \<in> set (f_reqs n)" by simp
  show ?thesis
  proof (cases "f_reqs n ! r")
    case (Fifo_recv k)
    with mem have "k \<in> fifo_posted n" by (simp add: fifo_posted_def)
    then show ?thesis
      using assms Fifo_recv True
      by (auto simp: fifo_test_def fifo_take_def fifo_posted_def split: if_splits list.splits)
  qed (use assms True in \<open>auto simp: fifo_test_def fifo_posted_def split: if_splits\<close>)
next
  case False
  with assms show ?thesis by (auto simp: fifo_test_def split: if_splits)
qed

lemma fifo_testall_keeps:
  assumes "fold (\<lambda>r (b, n). case fifo_test n r of (b', n') \<Rightarrow> (b \<and> b', n')) rs (b, n) = (f, n')"
  shows "(\<forall>k. k \<notin> fifo_posted n \<longrightarrow> f_chan n' k = f_chan n k) \<and> fifo_posted n' \<subseteq> fifo_posted n"
  using assms
proof (induction rs arbitrary: b n)
  case Nil
  then show ?case by simp
next
  case (Cons r rs)
  obtain b1 n1 where t: "fifo_test n r = (b1, n1)" by fastforce
  with Cons.prems have "fold (\<lambda>r (b, n). case fifo_test n r of (b', n') \<Rightarrow> (b \<and> b', n')) rs (b \<and> b1, n1) = (f, n')"
    by simp
  from Cons.IH [OF this] fifo_test_keeps [OF t] show ?case by (metis subsetD subset_trans)
qed

interpretation fifo: mpi_comm fifo_mpi f_chan fifo_posted
proof (unfold_locales, goal_cases)
  case (4 n me src tag s n')
  then show ?case
    by (auto simp: fifo_iprobe_def Let_def split: list.splits if_splits)
      (auto simp: filter_eq_Cons_iff neq_Nil_conv)
qed (auto simp: fifo_iprobe_def Let_def fifo_take_def fifo_new_def fifo_posted_def
      split: list.splits prod.splits if_splits dest: fifo_test_keeps [unfolded fifo_posted_def]
        fifo_testall_keeps [unfolded fifo_posted_def])

lemma fifo_buffered: "sends_buffered fifo_mpi"
  by (simp add: sends_buffered_def)

lemma quiet_posted: "fifo_posted (quiet_net np) = {}"
  by (simp add: fifo_posted_def quiet_net_def)

end
