(* ===== verification/Tree.thy ===== *)
theory Tree
  imports MPI "HOL-Library.Signed_Division"
begin

text \<open>
  The k-ary tree of ranks used by the collective operations: \<open>CIRCLE_tree_init\<close> and
  \<open>CIRCLE_tree_free\<close> of \<^verbatim>\<open>libcircle/token.c\<close> and their structure of \<^verbatim>\<open>token.h\<close>. Each process
  computes its own parent and children; the lemmas show that these local views fit together to one
  tree that spans all ranks and is rooted at rank 0. The locale \<open>rank_tree\<close> is what the collective
  operations rely on.
\<close>

section \<open>Data and operations\<close>

record CIRCLE_tree_state_st =
  tree_rank :: int
  tree_ranks :: int
  parent_rank :: int
  children :: int
  child_ranks :: "int list option"

text \<open>An \<open>int\<close> result of a C expression.\<close>

definition c_int :: "int \<Rightarrow> int result" where
  "c_int v = (if - INT32_MAX - 1 \<le> v \<and> v \<le> INT32_MAX then Inr v else Inl Signed_Overflow)"

text \<open>
  \<open>for(i = 0; i < n; i++) a[i] = f(i)\<close>.
\<close>

definition fill_loop :: "(int \<Rightarrow> int) \<Rightarrow> int \<Rightarrow> int list option \<Rightarrow> int list option result" where
  "fill_loop f n a = for_list (\<lambda>i a. arr_set a (int i) (f (int i))) [0..<nat n] a"

definition CIRCLE_tree_init ::
  "('n, 'z) mpi_scheme \<Rightarrow> 'n \<Rightarrow> int \<Rightarrow> int \<Rightarrow> int \<Rightarrow> (CIRCLE_tree_state_st \<times> 'n) result" where
  "CIRCLE_tree_init E n rnk ranks k =
     (let t = \<lparr>tree_rank = rnk, tree_ranks = ranks, parent_rank = MPI_PROC_NULL E, children = 0,
               child_ranks = None\<rparr>;
          max_children = k;
          mem = (if max_children > 0 then malloc_arr E (\<lambda>_. 0) 4 (nat max_children) else None);
          n = (if max_children > 0 \<and> mem = None then mpi_abort E n LIBCIRCLE_MPI_ERROR else n)
      in andThen (fill_loop (\<lambda>_. MPI_PROC_NULL E) max_children mem) (\<lambda>mem.
         andThen (if rnk > 0 then (if k = 0 then Inl Div_By_Zero else Inr ((rnk - 1) sdiv k))
                  else Inr (MPI_PROC_NULL E)) (\<lambda>parent.
         andThen (c_int (rnk * k + 1)) (\<lambda>left.
         andThen (c_int (rnk * k + k)) (\<lambda>right.
         let t = t\<lparr>parent_rank := parent, child_ranks := mem\<rparr>
         in if left < ranks
            then let right = (if right \<ge> ranks then ranks - 1 else right);
                     nchildren = right - left + 1
                 in andThen (fill_loop (\<lambda>i. left + i) nchildren mem) (\<lambda>mem.
                    Inr (t\<lparr>children := nchildren, child_ranks := mem\<rparr>, n))
            else Inr (t, n))))))"

definition CIRCLE_tree_free :: "CIRCLE_tree_state_st \<Rightarrow> CIRCLE_tree_state_st" where
  "CIRCLE_tree_free t = t\<lparr>child_ranks := None\<rparr>"

text \<open>The ranks a loop \<open>for(i = 0; i < children; i++)\<close> over \<open>child_ranks[i]\<close> visits.\<close>

definition child_list :: "CIRCLE_tree_state_st \<Rightarrow> int list result" where
  "child_list t = arr_prefix (child_ranks t) (children t)"

section \<open>The tree as all ranks see it\<close>

definition tree_parent :: "int \<Rightarrow> int \<Rightarrow> int" where
  "tree_parent k r = (r - 1) div k"

definition tree_kids :: "int \<Rightarrow> int \<Rightarrow> int \<Rightarrow> int list" where
  "tree_kids k ranks r = [r * k + 1 .. min (r * k + k) (ranks - 1)]"

lemma fill_loop_result:
  assumes "n \<le> int (length xs)"
  shows "fill_loop f n (Some xs) = Inr (Some (map (\<lambda>i. f (int i)) [0..<nat n] @ drop (nat n) xs))"
proof -
  have "for_list (\<lambda>i a. arr_set a (int i) (f (int i))) [0..<m] (Some xs)
      = Inr (Some (map (\<lambda>i. f (int i)) [0..<m] @ drop m xs))" if "m \<le> length xs" for m
    using that
  proof (induction m)
    case 0
    then show ?case by simp
  next
    case (Suc m)
    then have "drop m xs = xs ! m # drop (Suc m) xs" by (simp add: Cons_nth_drop_Suc)
    with Suc show ?case by (simp add: for_list_append list_update_append)
  qed
  moreover have "nat n \<le> length xs" using assms by linarith
  ultimately show ?thesis unfolding fill_loop_def by blast
qed

lemma tree_kids_map:
  "map (\<lambda>i. a + int i) [0..<nat (b - a + 1)] = [a .. b]"
proof (rule nth_equalityI)
  show "length (map (\<lambda>i. a + int i) [0..<nat (b - a + 1)]) = length [a..b]" by simp
qed (simp add: nth_upto)

lemma sdiv_nonneg: "0 \<le> a \<Longrightarrow> 0 < b \<Longrightarrow> (a :: int) sdiv b = a div b"
  by (simp add: signed_divide_int_def sgn_if)

text \<open>
  On its domain the routine succeeds without arithmetic overflow and without writing past
  \<open>child_ranks\<close>.
\<close>

lemma tree_init_result:
  assumes k: "0 < k" and r: "0 \<le> r" "r < ranks" and small: "(r + 1) * k \<le> INT32_MAX"
    and mem: "malloc_ok E (4 * nat k)"
  shows "\<exists>t. CIRCLE_tree_init E n r ranks k = Inr (t, n)
    \<and> tree_rank t = r \<and> tree_ranks t = ranks
    \<and> parent_rank t = (if r = 0 then MPI_PROC_NULL E else tree_parent k r)
    \<and> children t = int (length (tree_kids k ranks r))
    \<and> child_list t = Inr (tree_kids k ranks r) \<and> children t \<le> k
    \<and> (\<exists>cs. child_ranks t = Some cs \<and> length cs = nat k)"
proof -
  have rk: "0 \<le> r * k" using k r by simp
  have ov: "r * k + k \<le> INT32_MAX" using small by (simp add: algebra_simps)
  then have ints: "c_int (r * k + 1) = Inr (r * k + 1)" "c_int (r * k + k) = Inr (r * k + k)"
    using rk k by (auto simp: c_int_def INT32_MAX_def)
  define nulls where "nulls = map (\<lambda>_. MPI_PROC_NULL E) [0..<nat k]"
  have f1: "fill_loop (\<lambda>_. MPI_PROC_NULL E) k (Some (map (\<lambda>_. 0) [0..<nat k])) = Inr (Some nulls)"
    using k by (subst fill_loop_result) (auto simp: nulls_def)
  have par: "(if r > 0 then (if k = 0 then Inl Div_By_Zero else Inr ((r - 1) sdiv k))
      else Inr (MPI_PROC_NULL E)) = Inr (if r = 0 then MPI_PROC_NULL E else tree_parent k r)"
    using k r by (simp add: tree_parent_def sdiv_nonneg)
  let ?right = "if r * k + k \<ge> ranks then ranks - 1 else r * k + k"
  let ?m = "?right - (r * k + 1) + 1"
  have kids: "tree_kids k ranks r = [r * k + 1 .. ?right]"
    by (simp add: tree_kids_def min_def)
  have m: "?m \<le> k" using k r by auto
  have f2: "fill_loop (\<lambda>i. r * k + 1 + i) ?m (Some nulls)
      = Inr (Some (tree_kids k ranks r @ drop (nat ?m) nulls))"
    using m k tree_kids_map [of "r * k + 1" ?right]
    by (subst fill_loop_result) (auto simp: nulls_def kids)
  define m' where "m' = ?m"
  show ?thesis
  proof (cases "r * k + 1 < ranks")
    case True
    then have len: "int (length (tree_kids k ranks r)) = m'"
      using k by (simp add: kids m'_def)
    define t where "t = \<lparr>tree_rank = r, tree_ranks = ranks,
      parent_rank = (if r = 0 then MPI_PROC_NULL E else tree_parent k r), children = m',
      child_ranks = Some (tree_kids k ranks r @ drop (nat m') nulls)\<rparr>"
    have "CIRCLE_tree_init E n r ranks k = Inr (t, n)"
      unfolding CIRCLE_tree_init_def Let_def malloc_arr_def
      by (simp only: k mem True f1 par ints f2 if_True if_False andThen_Inr simp_thms option.distinct)
        (simp add: t_def m'_def)
    moreover have "child_list t = Inr (tree_kids k ranks r)"
      using len by (simp add: child_list_def t_def arr_prefix_Some)
    moreover have "length nulls = nat k" by (simp add: nulls_def)
    ultimately show ?thesis
      using len m by (intro exI [of _ t]) (simp add: t_def m'_def [symmetric])
  next
    case False
    then have "tree_kids k ranks r = []" by (simp add: tree_kids_def)
    then show ?thesis
      using False k mem f1 par ints
      by (auto simp: CIRCLE_tree_init_def Let_def malloc_arr_def nulls_def child_list_def
          arr_prefix_def)
  qed
qed

section \<open>What the collective operations rely on\<close>

locale rank_tree =
  fixes ranks :: int
    and parent :: "int \<Rightarrow> int"
    and kids :: "int \<Rightarrow> int list"
  assumes parent_below: "0 < c \<Longrightarrow> c < ranks \<Longrightarrow> 0 \<le> parent c \<and> parent c < c"
    and kids_iff: "0 \<le> p \<Longrightarrow> p < ranks \<Longrightarrow> c \<in> set (kids p) \<longleftrightarrow> 0 < c \<and> c < ranks \<and> parent c = p"
    and kids_distinct: "distinct (kids p)"
begin

lemma kids_range: "0 \<le> p \<Longrightarrow> p < ranks \<Longrightarrow> c \<in> set (kids p) \<Longrightarrow> p < c \<and> c < ranks"
  using kids_iff [of p c] parent_below [of c] by auto

text \<open>Induction from the root down and from the leaves up.\<close>

lemma from_root [consumes 2, case_names root kid]:
  assumes "0 \<le> r" and "r < ranks" and "P 0"
    and "\<And>c. 0 < c \<Longrightarrow> c < ranks \<Longrightarrow> P (parent c) \<Longrightarrow> P c"
  shows "P r"
  using assms(1,2)
proof (induction "nat r" arbitrary: r rule: less_induct)
  case less
  show ?case
  proof (cases "r = 0")
    case True
    then show ?thesis using assms(3) by simp
  next
    case False
    with less.prems have "0 < r" by simp
    with less.prems parent_below [of r] have "nat (parent r) < nat r" "0 \<le> parent r" "parent r < ranks"
      by auto
    from less.hyps [OF this] show ?thesis by (rule assms(4) [OF \<open>0 < r\<close> less.prems(2)])
  qed
qed

lemma from_leaves [consumes 2, case_names node]:
  assumes "0 \<le> r" and "r < ranks"
    and "\<And>p. 0 \<le> p \<Longrightarrow> p < ranks \<Longrightarrow> (\<And>c. c \<in> set (kids p) \<Longrightarrow> P c) \<Longrightarrow> P p"
  shows "P r"
  using assms(1,2)
proof (induction "nat (ranks - r)" arbitrary: r rule: less_induct)
  case less
  show ?case
  proof (rule assms(3) [OF less.prems])
    fix c assume "c \<in> set (kids r)"
    with kids_range [OF less.prems] have "r < c" "c < ranks" by auto
    with less.prems have "nat (ranks - c) < nat (ranks - r)" "0 \<le> c" by auto
    from less.hyps [OF this \<open>c < ranks\<close>] show "P c" .
  qed
qed

end

text \<open>The trees that \<open>CIRCLE_tree_init\<close> builds, for every width and number of ranks.\<close>

lemma tree_parent_iff:
  assumes "0 < k" and "0 < c" and "0 \<le> p"
  shows "tree_parent k c = p \<longleftrightarrow> p * k + 1 \<le> c \<and> c \<le> p * k + k"
proof
  assume "tree_parent k c = p"
  then have "c - 1 = p * k + (c - 1) mod k" by (auto simp: tree_parent_def)
  then show "p * k + 1 \<le> c \<and> c \<le> p * k + k"
    using pos_mod_sign [OF assms(1), of "c - 1"] pos_mod_bound [OF assms(1), of "c - 1"] by linarith
next
  assume "p * k + 1 \<le> c \<and> c \<le> p * k + k"
  then show "tree_parent k c = p"
    unfolding tree_parent_def
    by (intro int_div_pos_eq [where r = "c - 1 - k * p"]) (auto simp: algebra_simps)
qed

interpretation kary: rank_tree ranks "tree_parent (int (Suc k))" "tree_kids (int (Suc k)) ranks"
  for ranks :: int and k :: nat
proof (unfold_locales, goal_cases)
  case (1 c)
  have "(c - 1) div int (Suc k) \<le> (c - 1) div 1" using 1 by (intro zdiv_mono2) auto
  moreover have "0 \<le> (c - 1) div int (Suc k)" using 1 by (simp add: pos_imp_zdiv_nonneg_iff)
  ultimately show ?case by (simp add: tree_parent_def)
next
  case (2 p c)
  show ?case
  proof (cases "0 < c")
    case True
    then show ?thesis
      using tree_parent_iff [of "int (Suc k)" c p] 2 by (auto simp: tree_kids_def)
  next
    case False
    moreover have "0 \<le> p * int (Suc k)" using 2 by simp
    ultimately show ?thesis by (auto simp: tree_kids_def)
  qed
next
  case (3 p)
  show ?case by (simp add: tree_kids_def)
qed

section \<open>Properties of the tree\<close>

lemma rank_product_bound:
  fixes x k ranks m :: int
  shows "x < ranks \<Longrightarrow> 0 < k \<Longrightarrow> ranks * k \<le> m \<Longrightarrow> (x + 1) * k \<le> m"
  by (rule order_trans [OF mult_right_mono]) auto

text \<open>
  C21. The local views of the tree agree. When two ranks each run \<open>CIRCLE_tree_init\<close> with the same
  width and size, both succeed, the first lists the second among its children exactly when the
  second has the first as its parent, and no child is listed twice or beyond the allocated list.
\<close>

theorem tree_views_agree:
  assumes "0 < k" and "0 \<le> r" and "r < ranks" and "0 \<le> c" and "c < ranks"
    and "ranks * k \<le> INT32_MAX" and "malloc_ok E (4 * nat k)" and "MPI_PROC_NULL E < 0"
  shows "\<exists>tr tc cs. CIRCLE_tree_init E n r ranks k = Inr (tr, n)
    \<and> CIRCLE_tree_init E n c ranks k = Inr (tc, n)
    \<and> child_list tr = Inr cs \<and> distinct cs \<and> int (length cs) \<le> k
    \<and> (c \<in> set cs \<longleftrightarrow> parent_rank tc = r)"
proof -
  note le = rank_product_bound [OF _ assms(1,6)]
  obtain j where k: "k = int (Suc j)" using assms(1) by (metis gr0_implies_Suc pos_int_cases)
  from tree_init_result [OF assms(1-3) le [OF assms(3)] assms(7)] obtain tr where
    tr: "CIRCLE_tree_init E n r ranks k = Inr (tr, n)" "child_list tr = Inr (tree_kids k ranks r)"
      "children tr = int (length (tree_kids k ranks r))" "children tr \<le> k" by blast
  from tree_init_result [OF assms(1,4,5) le [OF assms(5)] assms(7)] obtain tc where
    tc: "CIRCLE_tree_init E n c ranks k = Inr (tc, n)"
      "parent_rank tc = (if c = 0 then MPI_PROC_NULL E else tree_parent k c)" by blast
  have "c \<in> set (tree_kids k ranks r) \<longleftrightarrow> parent_rank tc = r"
    using kary.kids_iff [of r ranks c j] assms tc(2) k by auto
  moreover have "distinct (tree_kids k ranks r)" by (simp add: tree_kids_def)
  ultimately show ?thesis using tr tc(1) by (metis (no_types, lifting))
qed

theorem tree_views_agree_witness:
  "\<exists>tr tc cs. CIRCLE_tree_init fifo_mpi (quiet_net 10) 1 10 3 = Inr (tr, quiet_net 10)
    \<and> CIRCLE_tree_init fifo_mpi (quiet_net 10) 5 10 3 = Inr (tc, quiet_net 10)
    \<and> child_list tr = Inr cs \<and> (5 \<in> set cs \<longleftrightarrow> parent_rank tc = 1)"
  using tree_views_agree [of 3 1 10 5 fifo_mpi "quiet_net 10"] by (auto simp: INT32_MAX_def)

text \<open>
  C22. The tree spans all ranks: following parents from any rank reaches rank 0, since the parent of
  every other rank is a smaller rank.
\<close>

theorem tree_rooted:
  assumes "0 < k" and "0 \<le> r" and "r < ranks" and "ranks * k \<le> INT32_MAX"
    and "malloc_ok E (4 * nat k)"
  shows "\<exists>t. CIRCLE_tree_init E n r ranks k = Inr (t, n)
    \<and> (if r = 0 then parent_rank t = MPI_PROC_NULL E else 0 \<le> parent_rank t \<and> parent_rank t < r)
    \<and> (\<exists>d. (tree_parent k ^^ d) r = 0)"
proof -
  from tree_init_result [OF assms(1-3) rank_product_bound [OF assms(3,1,4)] assms(5)] obtain t where
    t: "CIRCLE_tree_init E n r ranks k = Inr (t, n)"
      "parent_rank t = (if r = 0 then MPI_PROC_NULL E else tree_parent k r)" by blast
  obtain j where k: "k = int (Suc j)" using assms(1) by (metis gr0_implies_Suc pos_int_cases)
  have "\<exists>d. (tree_parent k ^^ d) r = 0"
    using assms(2,3)
  proof (induction r rule: kary.from_root [where k = j and ranks = ranks])
    case root
    show ?case by (rule exI [of _ 0]) simp
  next
    case (kid c)
    then obtain d where "(tree_parent k ^^ d) (tree_parent k c) = 0" using k by auto
    then have "(tree_parent k ^^ Suc d) c = 0" by (simp only: funpow_Suc_right comp_apply)
    then show ?case by blast
  qed
  with t kary.parent_below [of r ranks j] assms k show ?thesis by auto
qed

theorem tree_rooted_witness:
  "\<exists>t. CIRCLE_tree_init fifo_mpi (quiet_net 10) 9 10 2 = Inr (t, quiet_net 10)
    \<and> 0 \<le> parent_rank t \<and> parent_rank t < 9 \<and> (\<exists>d. (tree_parent 2 ^^ d) 9 = 0)"
  using tree_rooted [of 2 9 10 fifo_mpi "quiet_net 10"] by (auto simp: INT32_MAX_def)



text \<open>The facts of the interpretation for any positive width.\<close>

lemma tree_facts:
  assumes "0 < k"
  shows "0 < c \<Longrightarrow> c < ranks \<Longrightarrow> 0 \<le> tree_parent k c \<and> tree_parent k c < c"
    and "0 \<le> p \<Longrightarrow> p < ranks \<Longrightarrow> c \<in> set (tree_kids k ranks p) \<longleftrightarrow> 0 < c \<and> c < ranks \<and> tree_parent k c = p"
    and "rank_tree ranks (tree_parent k) (tree_kids k ranks)"
proof -
  obtain j where k: "k = int (Suc j)" using assms by (metis gr0_implies_Suc pos_int_cases)
  show "0 < c \<Longrightarrow> c < ranks \<Longrightarrow> 0 \<le> tree_parent k c \<and> tree_parent k c < c"
    unfolding k by (rule kary.parent_below)
  show "0 \<le> p \<Longrightarrow> p < ranks \<Longrightarrow> c \<in> set (tree_kids k ranks p) \<longleftrightarrow> 0 < c \<and> c < ranks \<and> tree_parent k c = p"
    unfolding k by (rule kary.kids_iff)
  show "rank_tree ranks (tree_parent k) (tree_kids k ranks)" unfolding k by (rule kary.rank_tree_axioms)
qed

text \<open>No rank is the parent of its parent, the root included.\<close>

lemma no_two_cycle:
  assumes "0 < k" and "0 < i" and "i < ranks"
  shows "\<not> (tree_parent k (tree_parent k i) = i)"
proof (cases "tree_parent k i = 0")
  case True
  have "tree_parent k 0 < 0" using assms(1) by (simp add: tree_parent_def neg_imp_zdiv_neg_iff pos_imp_zdiv_neg_iff)
  then show ?thesis using True assms(2) by simp
next
  case False
  then have "0 < tree_parent k i" "tree_parent k i < ranks" using tree_facts(1) [OF assms] assms(3) by auto
  from tree_facts(1) [OF assms(1) this] tree_facts(1) [OF assms] show ?thesis by auto
qed

text \<open>A rank below the root, its parent and its children are different, as are the channels between them.\<close>

lemma tree_apart:
  assumes "0 < k" and "i \<in> {0..<ranks}"
  shows "c \<in> set (tree_kids k ranks i) \<Longrightarrow> tree_parent k c = i \<and> c \<noteq> i \<and> c \<noteq> 0" and "tree_parent k i \<noteq> i"
    and "tree_parent k i \<notin> set (tree_kids k ranks i)" and "i \<noteq> 0 \<Longrightarrow> tree_parent k (tree_parent k i) \<noteq> i"
proof -
  show c: "tree_parent k c = i \<and> c \<noteq> i \<and> c \<noteq> 0" if "c \<in> set (tree_kids k ranks i)" for c
    using that tree_facts(1,2) [OF assms(1)] assms(2) by fastforce
  show two: "i \<noteq> 0 \<Longrightarrow> tree_parent k (tree_parent k i) \<noteq> i" using no_two_cycle [OF assms(1)] assms(2) by auto
  have top: "tree_parent k 0 < 0" using assms(1) by (simp add: tree_parent_def neg_imp_zdiv_neg_iff pos_imp_zdiv_neg_iff)
  show "tree_parent k i \<noteq> i"
    using tree_facts(1) [OF assms(1), of i ranks] assms top by (cases "i = 0") auto
  show "tree_parent k i \<notin> set (tree_kids k ranks i)"
    using c [of "tree_parent k i"] two top by (cases "i = 0") (auto simp: tree_kids_def)
qed

end
