(* ===== verification/State.thy ===== *)
theory State
  imports Queue Tree
begin

unbundle bit_operations_syntax

text \<open>
  The state of one process: \<open>CIRCLE_state_st\<close> of \<^verbatim>\<open>token.h\<close>, \<open>CIRCLE_input_st\<close> of \<^verbatim>\<open>lib.h\<close> and the
  globals of the library, with the routines of \<^verbatim>\<open>worker.c\<close> that set the state up and tear it down
  and the choice of the next process to ask for work. User callbacks are arbitrary programs
  over the interface the library gives them.
\<close>

section \<open>Records\<close>

text \<open>
  The fields of \<open>CIRCLE_state_st\<close> in the order of the structure, without the communicator (there is
  one, and the MPI parameter stands for it). \<open>reduce_buf[3]\<close> is a triple. An entry of \<open>send_bufs\<close> is
  the buffer the MPI library reads for that send, or null.
\<close>

record CIRCLE_state_st =
  rank :: int
  comm_size :: int
  token_is_local :: int
  token_proc :: int
  token_buf :: int
  token_src :: int
  token_dest :: int
  token_send_req :: MPI_Request
  offsets_count :: int
  offsets_recv_buf :: "int list option"
  requestors :: "int list option"
  seed :: "32 word"
  next_processor :: int
  work_requested :: int
  work_requested_rank :: int
  work_request_req :: MPI_Request
  send_count :: int
  send_capacity :: int
  send_reqs :: "MPI_Request list option"
  send_bufs :: "payload option list option"
  tree :: CIRCLE_tree_state_st
  reduce_enabled :: int
  reduce_time_last :: real
  reduce_time_interval :: real
  reduce_outstanding :: int
  reduce_replies :: int
  reduce_buf :: "int \<times> int \<times> int"
  barrier_started :: int
  barrier_up :: int
  barrier_replies :: int
  term_tree_enabled :: int
  work_outstanding :: int
  term_flag :: int
  term_up :: int
  term_replies :: int
  abort_state :: int
  abort_outstanding :: int
  abort_num_req :: int
  abort_req :: "MPI_Request list option"
  local_objects_processed :: int
  local_work_requested :: "32 word"
  local_no_work_received :: "32 word"

text \<open>
  A user callback, as the sequence of calls it makes into the library: through its
  \<open>CIRCLE_handle\<close> (\<open>enqueue\<close>, \<open>dequeue\<close> into a buffer of a given size, \<open>local_queue_size\<close>), to
  \<open>CIRCLE_abort\<close> and to \<open>CIRCLE_reduce\<close>, each continued with what the call returned. It ends
  with the user program's own new state.
\<close>

datatype 'u callback =
    CB_return 'u
  | CB_enqueue "string option" "int \<Rightarrow> 'u callback"
  | CB_dequeue "nat option" "int \<Rightarrow> string option \<Rightarrow> 'u callback"
  | CB_local_queue_size "32 word \<Rightarrow> 'u callback"
  | CB_abort "'u callback"
  | CB_reduce string "'u callback"

record 'u CIRCLE_input_st =
  create_cb :: "('u \<Rightarrow> 'u callback) option"
  process_cb :: "('u \<Rightarrow> 'u callback) option"
  reduce_init_cb :: "('u \<Rightarrow> 'u callback) option"
  reduce_op_cb :: "(string option \<Rightarrow> 64 word \<Rightarrow> string option \<Rightarrow> 64 word \<Rightarrow> 'u \<Rightarrow> 'u callback) option"
  reduce_fini_cb :: "(string option \<Rightarrow> 64 word \<Rightarrow> 'u \<Rightarrow> 'u callback) option"
  user_reduce_buf :: "string option"
  reduce_buf_size :: "64 word"
  reduce_period :: int
  options :: int
  tree_width :: int

text \<open>
  A process: its \<open>CIRCLE_state_st\<close>, the globals \<open>CIRCLE_ABORT_FLAG\<close> and \<open>CIRCLE_INPUT_ST\<close>, the queue
  that \<open>CIRCLE_INPUT_ST.queue\<close> points to, and the state of the user's program.
\<close>

record 'u proc = CIRCLE_state_st +
  CIRCLE_ABORT_FLAG :: int
  input :: "'u CIRCLE_input_st"
  queue :: CIRCLE_internal_queue_t
  user :: 'u

abbreviation (input) CIRCLE_SPLIT_RANDOM :: int where "CIRCLE_SPLIT_RANDOM \<equiv> 1"
abbreviation (input) CIRCLE_SPLIT_EQUAL :: int where "CIRCLE_SPLIT_EQUAL \<equiv> 2"
abbreviation (input) CIRCLE_CREATE_GLOBAL :: int where "CIRCLE_CREATE_GLOBAL \<equiv> 4"
abbreviation (input) CIRCLE_TERM_TREE :: int where "CIRCLE_TERM_TREE \<equiv> 8"

section \<open>Choosing the next process to ask\<close>

text \<open>\<open>do next = rand_r(&seed) % size; while(next == rank)\<close>, which need not end.\<close>

partial_function (option) next_proc_loop ::
  "(32 word \<Rightarrow> int \<times> 32 word) \<Rightarrow> int \<Rightarrow> int \<Rightarrow> 32 word \<Rightarrow> (int \<times> 32 word) option" where
  "next_proc_loop rnd np me s =
     (let (v, s') = rnd s; nxt = v smod np
      in if nxt = me then next_proc_loop rnd np me s' else Some (nxt, s'))"

declare next_proc_loop.simps [code]

definition CIRCLE_get_next_proc ::
  "('n, 'z) mpi_scheme \<Rightarrow> ('a) CIRCLE_state_st_scheme \<Rightarrow> ('a) CIRCLE_state_st_scheme result" where
  "CIRCLE_get_next_proc E st =
     (if comm_size st > 1
      then (case next_proc_loop (rand_r E) (comm_size st) (rank st) (seed st) of
              None \<Rightarrow> Inl Diverges
            | Some (nxt, s) \<Rightarrow> Inr (st\<lparr>next_processor := nxt, seed := s\<rparr>))
      else Inr (st\<lparr>next_processor := MPI_PROC_NULL E\<rparr>))"

lemma next_proc_loop_result:
  assumes "next_proc_loop rnd np me s = Some r"
  shows "fst r \<noteq> me \<and> (\<exists>t. fst r = fst (rnd t) smod np)"
proof (rule next_proc_loop.raw_induct [where P = "\<lambda>rnd np me s r. fst r \<noteq> me \<and> (\<exists>t. fst r = fst (rnd t) smod np)",
      OF _ assms], goal_cases)
  case (1 loop rnd np me s r)
  obtain v s' where v: "rnd s = (v, s')" by fastforce
  with 1 show ?case by (cases "v smod np = me") (auto intro: exI [of _ s])
qed

text \<open>The process chosen is another rank.\<close>

lemma get_next_proc_run:
  assumes run: "CIRCLE_get_next_proc E st = Inr st'" and rand: "\<And>s. 0 \<le> fst (rand_r E s)"
  shows "st' = st\<lparr>next_processor := next_processor st', seed := seed st'\<rparr>"
    and "if comm_size st > 1 then 0 \<le> next_processor st' \<and> next_processor st' < comm_size st \<and> next_processor st' \<noteq> rank st
      else next_processor st' = MPI_PROC_NULL E"
proof -
  show "st' = st\<lparr>next_processor := next_processor st', seed := seed st'\<rparr>"
    using run by (auto simp: CIRCLE_get_next_proc_def split: if_splits option.splits)
  show "if comm_size st > 1 then 0 \<le> next_processor st' \<and> next_processor st' < comm_size st \<and> next_processor st' \<noteq> rank st
      else next_processor st' = MPI_PROC_NULL E"
  proof (cases "comm_size st > 1")
    case True
    with run obtain nxt s where l: "next_proc_loop (rand_r E) (comm_size st) (rank st) (seed st) = Some (nxt, s)"
      "next_processor st' = nxt"
      by (auto simp: CIRCLE_get_next_proc_def split: option.splits)
    from next_proc_loop_result [OF l(1)] obtain t where t: "nxt \<noteq> rank st" "nxt = fst (rand_r E t) smod comm_size st"
      by auto
    have "fst (rand_r E t) smod comm_size st = fst (rand_r E t) mod comm_size st"
      using True rand [of t] by (simp add: smod_nonneg)
    with True l(2) t show ?thesis by simp
  qed (use run in \<open>auto simp: CIRCLE_get_next_proc_def\<close>)
qed

section \<open>Setting the state up\<close>

text \<open>
  \<open>rnk\<close> and \<open>sz\<close> are what \<open>MPI_Comm_rank\<close> and \<open>MPI_Comm_size\<close> return; \<open>st\<close> is the structure on the
  stack before the call, whose unset fields keep their indeterminate values.
\<close>

definition CIRCLE_init_local_state ::
  "('n, 'z) mpi_scheme \<Rightarrow> int \<Rightarrow> int \<Rightarrow> 'u proc \<Rightarrow> 'n \<Rightarrow> ('u proc \<times> 'n) result" where
  "CIRCLE_init_local_state E rnk sz st n =
     (let st = st\<lparr>rank := rnk, comm_size := sz, token_is_local := (if rnk = 0 then 1 else 0)\<rparr>
      in if sz = 0 then Inl Div_By_Zero else
      let st = st\<lparr>token_src := (rnk - 1 + sz) smod sz, token_dest := (rnk + 1 + sz) smod sz,
                  token_proc := WHITE, token_buf := BLACK, token_send_req := MPI_REQUEST_NULL\<rparr>;
          offs = str_count (queue st);
          st = st\<lparr>offsets_count := offs, offsets_recv_buf := malloc_arr E (\<lambda>_. 0) 4 (nat offs),
                  requestors := malloc_arr E (\<lambda>_. 0) 4 (nat sz), seed := word_of_int rnk\<rparr>
      in andThen (CIRCLE_get_next_proc E st) (\<lambda>st.
      let st = st\<lparr>work_requested := 0, work_request_req := MPI_REQUEST_NULL,
                  send_count := 0, send_capacity := 0, send_reqs := None, send_bufs := None,
                  term_tree_enabled := (if options (input st) AND CIRCLE_TERM_TREE \<noteq> 0 then 1 else 0)\<rparr>
      in andThen (CIRCLE_tree_init E n rnk sz (tree_width (input st))) (\<lambda>(t, n).
      let secs = real_of_int (reduce_period (input st));
          (now, n) = mpi_wtime E n;
          st = st\<lparr>tree := t, reduce_enabled := (if secs > 0 then 1 else 0), reduce_time_last := now,
                  reduce_time_interval := secs, reduce_outstanding := 0,
                  barrier_started := 0, barrier_up := 0, barrier_replies := 0,
                  work_outstanding := 0, term_flag := 1, term_up := 0, term_replies := 0,
                  abort_state := 0, abort_outstanding := 0\<rparr>;
          num_req = 2 * (children t + (if parent_rank t \<noteq> MPI_PROC_NULL E then 1 else 0));
          reqs = malloc_arr E (\<lambda>_. MPI_REQUEST_NULL) 8 (nat num_req)
      in if num_req > 0 \<and> reqs = None then Inl Null_Deref else
         Inr (st\<lparr>abort_num_req := num_req, abort_req := reqs, local_objects_processed := 0,
                 local_work_requested := 0, local_no_work_received := 0\<rparr>, n))))"

definition CIRCLE_free :: "'a option \<Rightarrow> 'a option" where
  "CIRCLE_free ptr = None"

section \<open>Callbacks\<close>

text \<open>The wrappers of \<^verbatim>\<open>worker.c\<close> behind the handle.\<close>

definition CIRCLE_enqueue ::
  "('z) host_scheme \<Rightarrow> 'u proc \<Rightarrow> string option \<Rightarrow> (int \<times> 'u proc) result" where
  "CIRCLE_enqueue H p element =
     andThen (CIRCLE_internal_queue_push H (queue p) element) (\<lambda>(rc, q). Inr (rc, p\<lparr>queue := q\<rparr>))"

definition CIRCLE_dequeue :: "'u proc \<Rightarrow> nat option \<Rightarrow> (int \<times> string option \<times> 'u proc) result" where
  "CIRCLE_dequeue p element =
     andThen (CIRCLE_internal_queue_pop (Some (queue p)) element) (\<lambda>(rc, s, q).
     case q of None \<Rightarrow> Inl Null_Deref | Some q \<Rightarrow> Inr (rc, s, p\<lparr>queue := q\<rparr>))"

definition CIRCLE_local_queue_size :: "'u proc \<Rightarrow> 32 word" where
  "CIRCLE_local_queue_size p = word_of_int (count (queue p))"

definition CIRCLE_bcast_abort :: "'u proc \<Rightarrow> 'u proc" where
  "CIRCLE_bcast_abort p = p\<lparr>CIRCLE_ABORT_FLAG := 1\<rparr>"

text \<open>
  \<open>CIRCLE_reduce(buf, size)\<close> keeps a copy of the user's bytes. When the size is 0, or when memory
  runs out, the old buffer is gone but \<open>reduce_buf_size\<close> keeps its old value.
\<close>

definition CIRCLE_reduce :: "('z) host_scheme \<Rightarrow> 'u proc \<Rightarrow> string \<Rightarrow> 'u proc" where
  "CIRCLE_reduce H p buf =
     (let inp = (input p)\<lparr>user_reduce_buf := CIRCLE_free (user_reduce_buf (input p))\<rparr>
      in p\<lparr>input := (if length buf > 0
              then if \<not> malloc_ok H (length buf) then inp
                   else inp\<lparr>user_reduce_buf := Some buf, reduce_buf_size := of_nat (length buf)\<rparr>
              else inp)\<rparr>)"

primrec run_callback :: "('z) host_scheme \<Rightarrow> 'u callback \<Rightarrow> 'u proc \<Rightarrow> 'u proc result" where
  "run_callback H (CB_return u) p = Inr (p\<lparr>user := u\<rparr>)"
| "run_callback H (CB_enqueue s k) p =
     andThen (CIRCLE_enqueue H p s) (\<lambda>r. run_callback H (k (fst r)) (snd r))"
| "run_callback H (CB_dequeue cap k) p =
     andThen (CIRCLE_dequeue p cap) (\<lambda>r. run_callback H (k (fst r) (fst (snd r))) (snd (snd r)))"
| "run_callback H (CB_local_queue_size k) p = run_callback H (k (CIRCLE_local_queue_size p)) p"
| "run_callback H (CB_abort k) p = run_callback H k (CIRCLE_bcast_abort p)"
| "run_callback H (CB_reduce buf k) p = run_callback H k (CIRCLE_reduce H p buf)"

section \<open>What a callback can do\<close>

text \<open>
  The part of the interface that the library asks the user to respect: what is enqueued is a C string, the
  buffer handed to \<open>dequeue\<close> holds \<open>CIRCLE_MAX_STRING_LEN\<close> bytes. \<open>may_enqueue\<close> says whether the callback
  may add work.
\<close>

primrec cb_ok :: "nat \<Rightarrow> bool \<Rightarrow> 'u callback \<Rightarrow> bool" where
  "cb_ok mx may_enqueue (CB_return u) \<longleftrightarrow> True"
| "cb_ok mx may_enqueue (CB_enqueue s k) \<longleftrightarrow>
     may_enqueue \<and> (case s of None \<Rightarrow> True | Some str \<Rightarrow> c_str str) \<and> (\<forall>rc. cb_ok mx may_enqueue (k rc))"
| "cb_ok mx may_enqueue (CB_dequeue cap k) \<longleftrightarrow>
     (case cap of None \<Rightarrow> True | Some c \<Rightarrow> mx \<le> c) \<and> (\<forall>rc s. cb_ok mx may_enqueue (k rc s))"
| "cb_ok mx may_enqueue (CB_local_queue_size k) \<longleftrightarrow> (\<forall>n. cb_ok mx may_enqueue (k n))"
| "cb_ok mx may_enqueue (CB_abort k) \<longleftrightarrow> cb_ok mx may_enqueue k"
| "cb_ok mx may_enqueue (CB_reduce buf k) \<longleftrightarrow> cb_ok mx may_enqueue k"

text \<open>
  The callbacks of a program: those of a reduction do not add work (the process may already have
  told the others that it is idle).
\<close>

definition input_ok :: "nat \<Rightarrow> 'u CIRCLE_input_st \<Rightarrow> bool" where
  "input_ok mx inp \<longleftrightarrow>
     (\<forall>f u. create_cb inp = Some f \<longrightarrow> cb_ok mx True (f u))
     \<and> (\<forall>f u. process_cb inp = Some f \<longrightarrow> cb_ok mx True (f u))
     \<and> (\<forall>f u. reduce_init_cb inp = Some f \<longrightarrow> cb_ok mx False (f u))
     \<and> (\<forall>f a i b j u. reduce_op_cb inp = Some f \<longrightarrow> cb_ok mx False (f a i b j u))
     \<and> (\<forall>f a i u. reduce_fini_cb inp = Some f \<longrightarrow> cb_ok mx False (f a i u))"

text \<open>The settings a callback cannot change, and what it leaves alone.\<close>

definition settings :: "'u CIRCLE_input_st \<Rightarrow> 'u CIRCLE_input_st" where
  "settings inp = inp\<lparr>user_reduce_buf := None, reduce_buf_size := 0\<rparr>"

definition only_user :: "'u proc \<Rightarrow> 'u proc \<Rightarrow> bool" where
  "only_user p p' \<longleftrightarrow> CIRCLE_state_st.truncate p' = CIRCLE_state_st.truncate p
     \<and> settings (input p') = settings (input p)"

lemma only_user_refl [simp]: "only_user p p"
  by (simp add: only_user_def)

lemma only_user_trans: "only_user p p' \<Longrightarrow> only_user p' p'' \<Longrightarrow> only_user p p''"
  by (simp add: only_user_def)

lemma settings_same:
  assumes "settings inp' = settings inp"
  shows "create_cb inp' = create_cb inp" "process_cb inp' = process_cb inp"
    "reduce_init_cb inp' = reduce_init_cb inp" "reduce_op_cb inp' = reduce_op_cb inp"
    "reduce_fini_cb inp' = reduce_fini_cb inp" "options inp' = options inp" "tree_width inp' = tree_width inp"
    "reduce_period inp' = reduce_period inp"
proof -
  have same: "f (settings inp') = f (settings inp)" for f using assms by simp
  show "create_cb inp' = create_cb inp" "process_cb inp' = process_cb inp"
    "reduce_init_cb inp' = reduce_init_cb inp" "reduce_op_cb inp' = reduce_op_cb inp"
    "reduce_fini_cb inp' = reduce_fini_cb inp" "options inp' = options inp" "tree_width inp' = tree_width inp"
    "reduce_period inp' = reduce_period inp"
    using same [of create_cb] same [of process_cb] same [of reduce_init_cb] same [of reduce_op_cb]
      same [of reduce_fini_cb] same [of options] same [of tree_width] same [of reduce_period]
    by (simp_all add: settings_def)
qed

lemma only_user_same:
  assumes "only_user p p'"
  shows "rank p' = rank p" "comm_size p' = comm_size p" "tree p' = tree p"
    "term_tree_enabled p' = term_tree_enabled p" "work_outstanding p' = work_outstanding p"
    "term_flag p' = term_flag p" "term_up p' = term_up p" "term_replies p' = term_replies p"
    "work_requested p' = work_requested p" "reduce_buf p' = reduce_buf p"
    "reduce_outstanding p' = reduce_outstanding p" "reduce_replies p' = reduce_replies p"
    "work_requested_rank p' = work_requested_rank p" "next_processor p' = next_processor p"
    "send_count p' = send_count p" "send_capacity p' = send_capacity p" "send_reqs p' = send_reqs p"
    "send_bufs p' = send_bufs p" "requestors p' = requestors p"
proof -
  have same: "f (CIRCLE_state_st.truncate p') = f (CIRCLE_state_st.truncate p)" for f
    using assms by (simp add: only_user_def)
  show "rank p' = rank p" "comm_size p' = comm_size p" "tree p' = tree p"
    "term_tree_enabled p' = term_tree_enabled p" "work_outstanding p' = work_outstanding p"
    "term_flag p' = term_flag p" "term_up p' = term_up p" "term_replies p' = term_replies p"
    "work_requested p' = work_requested p" "reduce_buf p' = reduce_buf p"
    "reduce_outstanding p' = reduce_outstanding p" "reduce_replies p' = reduce_replies p"
    "work_requested_rank p' = work_requested_rank p" "next_processor p' = next_processor p"
    "send_count p' = send_count p" "send_capacity p' = send_capacity p" "send_reqs p' = send_reqs p"
    "send_bufs p' = send_bufs p" "requestors p' = requestors p"
    using same [of rank] same [of comm_size] same [of tree] same [of term_tree_enabled]
      same [of work_outstanding] same [of term_flag] same [of term_up] same [of term_replies]
      same [of work_requested] same [of reduce_buf] same [of reduce_outstanding] same [of reduce_replies]
      same [of work_requested_rank] same [of next_processor] same [of send_count] same [of send_capacity]
      same [of send_reqs] same [of send_bufs] same [of requestors]
    by (simp_all add: CIRCLE_state_st.truncate_def)
qed

lemma run_callback_only:
  "run_callback H cb p = Inr p' \<Longrightarrow> only_user p p'"
proof (induction cb arbitrary: p)
  case (CB_return u)
  then show ?case by (auto simp: only_user_def CIRCLE_state_st.truncate_def)
next
  case (CB_enqueue s k)
  then obtain rc p1 where r: "CIRCLE_enqueue H p s = Inr (rc, p1)" "run_callback H (k rc) p1 = Inr p'"
    by (auto simp: outcome)
  have "only_user p p1"
    using r(1) by (auto simp: CIRCLE_enqueue_def outcome only_user_def CIRCLE_state_st.truncate_def)
  then show ?case using CB_enqueue.IH [OF _ r(2)] only_user_trans by blast
next
  case (CB_dequeue cap k)
  then obtain rc s p1 where r: "CIRCLE_dequeue p cap = Inr (rc, s, p1)" "run_callback H (k rc s) p1 = Inr p'"
    by (auto simp: outcome)
  have "only_user p p1"
    using r(1) by (auto simp: CIRCLE_dequeue_def outcome only_user_def CIRCLE_state_st.truncate_def split: option.splits)
  then show ?case using CB_dequeue.IH r(2) only_user_trans by blast
next
  case (CB_local_queue_size k)
  then show ?case by (metis rangeI run_callback.simps(4))
next
  case (CB_abort cb)
  have "only_user p (CIRCLE_bcast_abort p)"
    by (simp add: CIRCLE_bcast_abort_def only_user_def CIRCLE_state_st.truncate_def)
  with CB_abort show ?case using only_user_trans by fastforce
next
  case (CB_reduce buf cb)
  have "only_user p (CIRCLE_reduce H p buf)"
    by (simp add: CIRCLE_reduce_def only_user_def CIRCLE_state_st.truncate_def settings_def Let_def)
  with CB_reduce show ?case using only_user_trans by fastforce
qed

text \<open>What one call of the interface keeps, and so a whole callback.\<close>

definition user_step :: "('z) host_scheme \<Rightarrow> bool \<Rightarrow> 'u proc \<Rightarrow> 'u proc \<Rightarrow> bool" where
  "user_step H may_enqueue p p' \<longleftrightarrow> queue_wf H (queue p') \<and> (\<not> may_enqueue \<longrightarrow> count (queue p') \<le> count (queue p))
     \<and> (CIRCLE_ABORT_FLAG p \<noteq> 0 \<longrightarrow> CIRCLE_ABORT_FLAG p' \<noteq> 0)"

lemma user_step_trans: "user_step H e p p1 \<Longrightarrow> user_step H e p1 p2 \<Longrightarrow> user_step H e p p2"
  by (auto simp: user_step_def)

lemma enqueue_step:
  assumes "CIRCLE_enqueue H p s = Inr (rc, p')" and "queue_wf H (queue p)" and "mem_ample H"
    and "case s of None \<Rightarrow> True | Some str \<Rightarrow> c_str str"
  shows "user_step H True p p'"
proof -
  from assms(1) obtain q where q: "CIRCLE_internal_queue_push H (queue p) s = Inr (rc, q)" "p' = p\<lparr>queue := q\<rparr>"
    by (auto simp: CIRCLE_enqueue_def outcome)
  then show ?thesis
    using wq.push_inv [of H "queue p" s rc q] assms(2-4) by (auto simp: user_step_def split: option.splits)
qed

lemma dequeue_step:
  assumes "CIRCLE_dequeue p cap = Inr (rc, s, p')" and "queue_wf H (queue p)"
    and "case cap of None \<Rightarrow> True | Some c \<Rightarrow> CIRCLE_MAX_STRING_LEN H \<le> c"
  shows "user_step H e p p'"
proof (cases "cap = None \<or> count (queue p) < 1")
  case True
  then have "p' = p" using assms(1) pop_rejects(2,3) by (auto simp: CIRCLE_dequeue_def outcome)
  then show ?thesis using assms(2) by (simp add: user_step_def)
next
  case False
  then obtain c where c: "cap = Some c" "CIRCLE_MAX_STRING_LEN H \<le> c" "0 < count (queue p)" using assms(3) by auto
  from pop_nonempty [OF assms(2) c(3,2)] obtain q where
    q: "CIRCLE_internal_queue_pop (Some (queue p)) (Some c) = Inr (0, Some (last (items (queue p))), Some q)"
      "queue_wf H q" "count q = count (queue p) - 1" by blast
  then have "p' = p\<lparr>queue := q\<rparr>" using assms(1) c(1) by (simp add: CIRCLE_dequeue_def)
  then show ?thesis using q by (simp add: user_step_def)
qed

lemma run_callback_step:
  "run_callback H cb p = Inr p' \<Longrightarrow> cb_ok (CIRCLE_MAX_STRING_LEN H) e cb \<Longrightarrow> queue_wf H (queue p) \<Longrightarrow>
     mem_ample H \<Longrightarrow> user_step H e p p'"
proof (induction cb arbitrary: p)
  case (CB_return u)
  then show ?case by (auto simp: user_step_def)
next
  case (CB_enqueue s k)
  then obtain rc p1 where r: "CIRCLE_enqueue H p s = Inr (rc, p1)" "run_callback H (k rc) p1 = Inr p'"
    by (auto simp: outcome)
  from CB_enqueue.prems have e: e "cb_ok (CIRCLE_MAX_STRING_LEN H) e (k rc)" by auto
  have st: "user_step H e p p1" using enqueue_step [OF r(1)] CB_enqueue.prems e(1) by simp
  then have "queue_wf H (queue p1)" by (simp add: user_step_def)
  from CB_enqueue.IH [OF _ r(2) e(2) this] CB_enqueue.prems(4) st show ?case
    using user_step_trans by blast
next
  case (CB_dequeue cap k)
  then obtain rc s p1 where r: "CIRCLE_dequeue p cap = Inr (rc, s, p1)" "run_callback H (k rc s) p1 = Inr p'"
    by (auto simp: outcome)
  from CB_dequeue.prems have k: "cb_ok (CIRCLE_MAX_STRING_LEN H) e (k rc s)" by auto
  have st: "user_step H e p p1" by (rule dequeue_step [OF r(1)]) (use CB_dequeue.prems in simp_all)
  then have "queue_wf H (queue p1)" by (simp add: user_step_def)
  from CB_dequeue.IH [OF _ _ r(2) k this] CB_dequeue.prems(4) st show ?case
    using user_step_trans by blast
next
  case (CB_local_queue_size k)
  then show ?case by (auto intro: CB_local_queue_size.IH [OF rangeI])
next
  case (CB_abort cb)
  then have "user_step H e (CIRCLE_bcast_abort p) p'" by (simp add: CIRCLE_bcast_abort_def)
  then show ?case by (simp add: user_step_def CIRCLE_bcast_abort_def)
next
  case (CB_reduce buf cb)
  then have "user_step H e (CIRCLE_reduce H p buf) p'" by (simp add: CIRCLE_reduce_def Let_def)
  then show ?case by (simp add: user_step_def CIRCLE_reduce_def Let_def)
qed

section \<open>A concrete process\<close>

text \<open>
  Rank \<open>r\<close> of \<open>np\<close> ranks in a binary tree, right after initialisation, holding a given queue and no
  callbacks, on which the instance theorems of the later theories are evaluated.
\<close>

definition small_tree :: "int \<Rightarrow> int \<Rightarrow> CIRCLE_tree_state_st" where
  "small_tree np r = \<lparr>tree_rank = r, tree_ranks = np,
     parent_rank = (if r = 0 then -2 else (r - 1) div 2),
     children = int (length (tree_kids 2 np r)), child_ranks = Some (tree_kids 2 np r)\<rparr>"

definition small_proc :: "int \<Rightarrow> int \<Rightarrow> CIRCLE_internal_queue_t \<Rightarrow> unit proc" where
  "small_proc np r q = \<lparr>rank = r, comm_size = np, token_is_local = (if r = 0 then 1 else 0),
     token_proc = WHITE, token_buf = BLACK, token_src = (r - 1) mod np, token_dest = (r + 1) mod np,
     token_send_req = MPI_REQUEST_NULL, offsets_count = 2, offsets_recv_buf = Some [0, 0],
     requestors = Some (replicate (nat np) 0), seed = 0, next_processor = (r + 1) mod np,
     work_requested = 0, work_requested_rank = 0, work_request_req = MPI_REQUEST_NULL,
     send_count = 0, send_capacity = 0, send_reqs = None, send_bufs = None, tree = small_tree np r,
     reduce_enabled = 0, reduce_time_last = 0, reduce_time_interval = 0, reduce_outstanding = 0,
     reduce_replies = 0, reduce_buf = (0, 0, 0), barrier_started = 0, barrier_up = 0,
     barrier_replies = 0, term_tree_enabled = 1, work_outstanding = 0, term_flag = 1, term_up = 0,
     term_replies = 0, abort_state = 0, abort_outstanding = 0, abort_num_req = 0, abort_req = None,
     local_objects_processed = 0, local_work_requested = 0, local_no_work_received = 0,
     CIRCLE_ABORT_FLAG = 0,
     input = \<lparr>create_cb = None, process_cb = None, reduce_init_cb = None, reduce_op_cb = None,
       reduce_fini_cb = None, user_reduce_buf = None, reduce_buf_size = 0, reduce_period = 0,
       options = CIRCLE_SPLIT_EQUAL, tree_width = 2\<rparr>,
     queue = q, user = ()\<rparr>"

end
