(* ===== verification/Sends.thy ===== *)
theory Sends
  imports State
begin

text \<open>
  The table of outstanding nonblocking sends of \<^verbatim>\<open>token.c\<close>: \<open>CIRCLE_worksend_track\<close> records a send
  with the buffer MPI reads, \<open>CIRCLE_worksend_check\<close> reaps the completed ones,
  \<open>CIRCLE_worksend_wait\<close> and \<open>CIRCLE_worksend_free\<close> end the table's life, with
  \<open>CIRCLE_finalize_local_state\<close> of \<^verbatim>\<open>worker.c\<close>. The lemmas show that the table is a bag of pairs of
  a request and its buffer, that tracking adds one, and that the in-place sweep, which fills a
  freed slot with the last entry, releases exactly the buffers whose request tested complete and
  looks at every entry once.
\<close>

section \<open>Operations\<close>

text \<open>
  The two reallocations ask for the same size (a request and a pointer are 8 bytes each on an LP64
  target with a pointer-sized \<open>MPI_Request\<close>).
\<close>

definition CIRCLE_worksend_track ::
  "('n, 'z) mpi_scheme \<Rightarrow> ('a) CIRCLE_state_st_scheme \<Rightarrow> 'n \<Rightarrow> MPI_Request \<Rightarrow> payload option \<Rightarrow>
     (('a) CIRCLE_state_st_scheme \<times> 'n) result" where
  "CIRCLE_worksend_track E st n req buf =
     andThen (if send_count st = send_capacity st
       then andThen (if send_capacity st > 0 then c_int (send_capacity st * 2) else Inr 32) (\<lambda>capacity.
         let reqs = realloc_arr E (\<lambda>_. MPI_REQUEST_NULL) 8 (send_reqs st) (nat capacity);
             bufs = realloc_arr E (\<lambda>_. None) 8 (send_bufs st) (nat capacity)
         in if reqs = None \<or> bufs = None
            then Inr (False, st, mpi_abort E n LIBCIRCLE_MPI_ERROR)
            else Inr (True, st\<lparr>send_reqs := reqs, send_bufs := bufs, send_capacity := capacity\<rparr>, n))
       else Inr (True, st, n)) (\<lambda>(ok, st, n).
     if \<not> ok then Inr (st, n) else
     andThen (arr_set (send_reqs st) (send_count st) req) (\<lambda>reqs.
     andThen (arr_set (send_bufs st) (send_count st) buf) (\<lambda>bufs.
     Inr (st\<lparr>send_reqs := reqs, send_bufs := bufs, send_count := send_count st + 1\<rparr>, n))))"

text \<open>
  The body of \<open>for(i = send_count - 1; i >= 0; i--)\<close>. The list returned beside the state is the
  buffers handed to \<open>CIRCLE_free\<close>, each with the request that completed.
\<close>

primrec worksend_loop ::
  "('n, 'z) mpi_scheme \<Rightarrow> nat \<Rightarrow> ('a) CIRCLE_state_st_scheme \<Rightarrow> 'n \<Rightarrow> (MPI_Request \<times> payload option) list \<Rightarrow>
     (('a) CIRCLE_state_st_scheme \<times> 'n \<times> (MPI_Request \<times> payload option) list) result" where
  "worksend_loop E 0 st n released = Inr (st, n, released)"
| "worksend_loop E (Suc i) st n released =
     andThen (arr_get (send_reqs st) (int i)) (\<lambda>req.
     case MPI_Test E n req of (flag, req', n) \<Rightarrow>
     andThen (arr_set (send_reqs st) (int i) req') (\<lambda>reqs.
     let st = st\<lparr>send_reqs := reqs\<rparr>
     in if \<not> flag then worksend_loop E i st n released else
        andThen (arr_get (send_bufs st) (int i)) (\<lambda>buf.
        andThen (arr_set (send_bufs st) (int i) (CIRCLE_free buf)) (\<lambda>bufs.
        let st = st\<lparr>send_bufs := bufs, send_count := send_count st - 1\<rparr>
        in andThen (arr_get (send_reqs st) (send_count st)) (\<lambda>lastr.
           andThen (arr_set (send_reqs st) (int i) lastr) (\<lambda>reqs.
           andThen (arr_get (send_bufs st) (send_count st)) (\<lambda>lastb.
           andThen (arr_set (send_bufs st) (int i) lastb) (\<lambda>bufs.
           worksend_loop E i (st\<lparr>send_reqs := reqs, send_bufs := bufs\<rparr>) n
             (released @ [(req, buf)])))))))))"

definition CIRCLE_worksend_check ::
  "('n, 'z) mpi_scheme \<Rightarrow> ('a) CIRCLE_state_st_scheme \<Rightarrow> 'n \<Rightarrow>
     (('a) CIRCLE_state_st_scheme \<times> 'n \<times> (MPI_Request \<times> payload option) list) result" where
  "CIRCLE_worksend_check E st n = worksend_loop E (nat (send_count st)) st n []"

definition CIRCLE_worksend_wait ::
  "('n, 'z) mpi_scheme \<Rightarrow> ('a) CIRCLE_state_st_scheme \<Rightarrow> 'n \<Rightarrow> (('a) CIRCLE_state_st_scheme \<times> 'n) result" where
  "CIRCLE_worksend_wait E st n =
     andThen (if work_request_req st \<noteq> MPI_REQUEST_NULL
              then andThen (MPI_Wait E n (work_request_req st))
                     (\<lambda>(req, n). Inr (st\<lparr>work_request_req := req\<rparr>, n))
              else Inr (st, n)) (\<lambda>(st, n).
     if send_count st > 0
     then andThen (arr_prefix (send_reqs st) (send_count st)) (\<lambda>reqs.
          andThen (MPI_Waitall E n reqs) (\<lambda>n.
          andThen (arr_prefix (send_bufs st) (send_count st)) (\<lambda>bufs.
          Inr (st\<lparr>send_reqs := map_option (\<lambda>rs. map (\<lambda>_. MPI_REQUEST_NULL) reqs @ drop (length reqs) rs) (send_reqs st),
                  send_bufs := map_option (\<lambda>bs. map CIRCLE_free bufs @ drop (length bufs) bs) (send_bufs st),
                  send_count := 0\<rparr>, n))))
     else Inr (st, n))"

definition CIRCLE_worksend_free :: "('a) CIRCLE_state_st_scheme \<Rightarrow> ('a) CIRCLE_state_st_scheme" where
  "CIRCLE_worksend_free st =
     st\<lparr>send_reqs := CIRCLE_free (send_reqs st), send_bufs := CIRCLE_free (send_bufs st),
        send_count := 0, send_capacity := 0\<rparr>"

definition CIRCLE_finalize_local_state ::
  "('a) CIRCLE_state_st_scheme \<Rightarrow> ('a) CIRCLE_state_st_scheme" where
  "CIRCLE_finalize_local_state st =
     (let st = CIRCLE_worksend_free (st\<lparr>tree := CIRCLE_tree_free (tree st)\<rparr>)
      in st\<lparr>abort_req := CIRCLE_free (abort_req st), offsets_recv_buf := CIRCLE_free (offsets_recv_buf st),
            requestors := CIRCLE_free (requestors st)\<rparr>)"

section \<open>The table as a bag of sends\<close>

definition sends_wf :: "('a) CIRCLE_state_st_scheme \<Rightarrow> bool" where
  "sends_wf st \<longleftrightarrow> 0 \<le> send_count st \<and> send_count st \<le> send_capacity st
     \<and> (if send_capacity st = 0 then send_reqs st = None \<and> send_bufs st = None
        else (\<exists>rs bs. send_reqs st = Some rs \<and> send_bufs st = Some bs
               \<and> int (length rs) = send_capacity st \<and> int (length bs) = send_capacity st))"

definition pending_sends :: "('a) CIRCLE_state_st_scheme \<Rightarrow> (MPI_Request \<times> payload option) list" where
  "pending_sends st = (case (send_reqs st, send_bufs st) of
     (Some rs, Some bs) \<Rightarrow> take (nat (send_count st)) (zip rs bs) | _ \<Rightarrow> [])"

text \<open>Nothing of the state but the table has changed.\<close>

definition sans_sends :: "('a) CIRCLE_state_st_scheme \<Rightarrow> ('a) CIRCLE_state_st_scheme" where
  "sans_sends st = st\<lparr>send_reqs := None, send_bufs := None, send_count := 0, send_capacity := 0\<rparr>"

definition only_sends :: "('a) CIRCLE_state_st_scheme \<Rightarrow> ('a) CIRCLE_state_st_scheme \<Rightarrow> bool" where
  "only_sends st st' \<longleftrightarrow> sans_sends st' = sans_sends st"

lemma only_sends_refl [simp]: "only_sends st st"
  by (simp add: only_sends_def)

lemma only_sends_update [simp]:
  "only_sends st (st\<lparr>send_count := c, send_reqs := rs, send_bufs := bs\<rparr>)"
  "only_sends st (st\<lparr>send_reqs := rs, send_bufs := bs, send_count := c, send_capacity := d\<rparr>)"
  by (simp_all add: only_sends_def sans_sends_def)

lemma only_sends_trans: "only_sends st st' \<Longrightarrow> only_sends st' st'' \<Longrightarrow> only_sends st st''"
  by (simp add: only_sends_def)

lemma only_sends_same:
  assumes "only_sends st st'"
  shows
    "rank st' = rank st" "comm_size st' = comm_size st" "token_is_local st' = token_is_local st"
    "token_proc st' = token_proc st" "token_buf st' = token_buf st" "token_src st' = token_src st"
    "token_dest st' = token_dest st" "token_send_req st' = token_send_req st"
    "offsets_count st' = offsets_count st" "offsets_recv_buf st' = offsets_recv_buf st"
    "requestors st' = requestors st" "seed st' = seed st" "next_processor st' = next_processor st"
    "work_requested st' = work_requested st" "work_requested_rank st' = work_requested_rank st"
    "work_request_req st' = work_request_req st" "tree st' = tree st"
    "reduce_enabled st' = reduce_enabled st" "reduce_outstanding st' = reduce_outstanding st"
    "barrier_started st' = barrier_started st" "barrier_up st' = barrier_up st"
    "barrier_replies st' = barrier_replies st" "term_tree_enabled st' = term_tree_enabled st"
    "work_outstanding st' = work_outstanding st" "term_flag st' = term_flag st"
    "term_up st' = term_up st" "term_replies st' = term_replies st"
    "abort_state st' = abort_state st" "abort_outstanding st' = abort_outstanding st"
    "abort_num_req st' = abort_num_req st" "abort_req st' = abort_req st"
proof -
  have same: "f (sans_sends st') = f (sans_sends st)" for f
    using assms by (simp add: only_sends_def)
  show
    "rank st' = rank st" "comm_size st' = comm_size st" "token_is_local st' = token_is_local st"
    "token_proc st' = token_proc st" "token_buf st' = token_buf st" "token_src st' = token_src st"
    "token_dest st' = token_dest st" "token_send_req st' = token_send_req st"
    "offsets_count st' = offsets_count st" "offsets_recv_buf st' = offsets_recv_buf st"
    "requestors st' = requestors st" "seed st' = seed st" "next_processor st' = next_processor st"
    "work_requested st' = work_requested st" "work_requested_rank st' = work_requested_rank st"
    "work_request_req st' = work_request_req st" "tree st' = tree st"
    "reduce_enabled st' = reduce_enabled st" "reduce_outstanding st' = reduce_outstanding st"
    "barrier_started st' = barrier_started st" "barrier_up st' = barrier_up st"
    "barrier_replies st' = barrier_replies st" "term_tree_enabled st' = term_tree_enabled st"
    "work_outstanding st' = work_outstanding st" "term_flag st' = term_flag st"
    "term_up st' = term_up st" "term_replies st' = term_replies st"
    "abort_state st' = abort_state st" "abort_outstanding st' = abort_outstanding st"
    "abort_num_req st' = abort_num_req st" "abort_req st' = abort_req st"
    using same [of rank] same [of comm_size] same [of token_is_local] same [of token_proc]
    same [of token_buf] same [of token_src] same [of token_dest] same [of token_send_req]
    same [of offsets_count] same [of offsets_recv_buf] same [of requestors] same [of seed]
    same [of next_processor] same [of work_requested] same [of work_requested_rank]
    same [of work_request_req] same [of tree] same [of reduce_enabled] same [of reduce_outstanding]
    same [of barrier_started] same [of barrier_up] same [of barrier_replies]
    same [of term_tree_enabled] same [of work_outstanding] same [of term_flag] same [of term_up]
    same [of term_replies] same [of abort_state] same [of abort_outstanding]
    same [of abort_num_req] same [of abort_req]
    by (simp_all add: sans_sends_def)
qed

lemma only_sends_proc:
  fixes p :: "'u proc"
  assumes "only_sends p p'"
  shows "CIRCLE_ABORT_FLAG p' = CIRCLE_ABORT_FLAG p" "input p' = input p" "queue p' = queue p"
    "user p' = user p"
proof -
  have same: "f (sans_sends p') = f (sans_sends p)" for f
    using assms by (simp add: only_sends_def)
  show "CIRCLE_ABORT_FLAG p' = CIRCLE_ABORT_FLAG p" "input p' = input p" "queue p' = queue p"
    "user p' = user p"
    using same [of CIRCLE_ABORT_FLAG] same [of input] same [of queue] same [of user]
    by (simp_all add: sans_sends_def)
qed

text \<open>The reference sweep: test each entry once, keep those that are not complete.\<close>

fun sweep ::
  "('n, 'z) mpi_scheme \<Rightarrow> 'n \<Rightarrow> (MPI_Request \<times> payload option) list \<Rightarrow>
     (MPI_Request \<times> payload option) list \<times> (MPI_Request \<times> payload option) list \<times> 'n" where
  "sweep E n [] = ([], [], n)"
| "sweep E n ((req, buf) # xs) =
     (case MPI_Test E n req of (flag, _, n) \<Rightarrow>
      (case sweep E n xs of (kept, released, n) \<Rightarrow>
         if flag then (kept, (req, buf) # released, n) else ((req, buf) # kept, released, n)))"

lemma sweep_keeps_all:
  "sweep E n xs = (kept, released, n') \<Longrightarrow> mset kept + mset released = mset xs"
  by (induction E n xs arbitrary: kept released n' rule: sweep.induct)
    (auto split: prod.splits if_splits)

lemma MPI_Test_request:
  "MPI_Test E n req = (flag, req', n') \<Longrightarrow> req' = (if flag then MPI_REQUEST_NULL else req)"
  by (auto simp: MPI_Test_def split: MPI_Request.splits prod.splits)

text \<open>
  What tracking does to the table, in one equation, so that everything else about the state is
  seen to be unchanged.
\<close>

lemma track_result:
  assumes wf: "sends_wf st" and run: "CIRCLE_worksend_track E st n req buf = Inr (st', n')"
    and ample: "mem_ample E"
  shows "n' = n" and "sends_wf st'" and "pending_sends st' = pending_sends st @ [(req, buf)]"
    and "only_sends st st'"
proof -
  define cap where "cap = (if send_count st = send_capacity st
      then if send_capacity st > 0 then send_capacity st * 2 else 32 else send_capacity st)"
  define rs0 where "rs0 = (case send_reqs st of None \<Rightarrow> [] | Some rs \<Rightarrow> rs)"
  define bs0 where "bs0 = (case send_bufs st of None \<Rightarrow> [] | Some bs \<Rightarrow> bs)"
  have len: "int (length rs0) = send_capacity st" "int (length bs0) = send_capacity st"
      "0 \<le> send_count st" "send_count st \<le> send_capacity st"
    using wf by (auto simp: sends_wf_def rs0_def bs0_def split: if_splits)
  then have cap: "send_count st < cap" "send_capacity st \<le> cap" by (auto simp: cap_def)
  define rs bs where "rs = rs0 @ map (\<lambda>_. MPI_REQUEST_NULL) [length rs0..<nat cap]"
    and "bs = bs0 @ map (\<lambda>_. None) [length bs0..<nat cap]"
  have lens: "int (length rs) = cap" "int (length bs) = cap"
    using len cap by (auto simp: rs_def bs_def)
  let ?k = "nat (send_count st)"
  have grow: "realloc_arr E (\<lambda>_. MPI_REQUEST_NULL) 8 (send_reqs st) (nat cap) = Some rs"
      "realloc_arr E (\<lambda>_. None) 8 (send_bufs st) (nat cap) = Some bs"
    using ample len cap by (auto simp: realloc_arr_def rs_def bs_def rs0_def bs0_def split: option.splits)
  have same: "send_reqs st = Some rs \<and> send_bufs st = Some bs" if "send_count st \<noteq> send_capacity st"
    using wf that len
    by (auto simp: sends_wf_def rs_def bs_def rs0_def bs0_def cap_def split: if_splits)
  have st': "st' = st\<lparr>send_reqs := Some (rs[?k := req]), send_bufs := Some (bs[?k := buf]),
      send_count := send_count st + 1, send_capacity := cap\<rparr>" and n': "n' = n"
    using run grow same len cap lens
    by (auto simp: CIRCLE_worksend_track_def c_int_def cap_def outcome Let_def split: if_splits)
  show "n' = n" by (rule n')
  show "only_sends st st'" using st' by simp
  show "sends_wf st'" using st' len cap lens by (auto simp: sends_wf_def)
  have k: "nat (send_count st + 1) = Suc ?k" "?k < length rs" "?k < length bs"
    using len cap lens by auto
  have old: "take ?k (zip rs bs) = pending_sends st"
    using len wf by (auto simp: pending_sends_def rs_def bs_def rs0_def bs0_def sends_wf_def
        take_zip split: if_splits option.splits)
  have "pending_sends st' = take (Suc ?k) ((zip rs bs)[?k := (req, buf)])"
    using st' k by (simp add: pending_sends_def zip_update)
  also have "\<dots> = take ?k (zip rs bs) @ [(req, buf)]" using k by simp
  finally show "pending_sends st' = pending_sends st @ [(req, buf)]" by (simp add: old)
qed

lemma swap_last:
  assumes "i < length xs"
  shows "take i (butlast (xs[i := last xs])) = take i xs"
    and "mset (drop i (butlast (xs[i := last xs]))) = mset (drop (Suc i) xs)"
proof -
  obtain ys z where xs: "xs = ys @ [z]" using assms by (cases xs rule: rev_cases) auto
  show "take i (butlast (xs[i := last xs])) = take i xs"
    using assms by (auto simp: xs butlast_append list_update_append take_butlast)
  show "mset (drop i (butlast (xs[i := last xs]))) = mset (drop (Suc i) xs)"
  proof (cases "i < length ys")
    case True
    then show ?thesis
      by (simp add: xs list_update_append drop_update_swap Cons_nth_drop_Suc [symmetric])
  next
    case False
    then show ?thesis using assms by (simp add: xs list_update_append)
  qed
qed

lemma pending_sends_nth:
  assumes "sends_wf st" and "i < nat (send_count st)"
  obtains rs bs where "send_reqs st = Some rs" and "send_bufs st = Some bs"
    and "length rs = length bs" and "int (length rs) = send_capacity st"
    and "i < length rs" and "nat (send_count st) \<le> length rs"
    and "pending_sends st ! i = (rs ! i, bs ! i)" and "length (pending_sends st) = nat (send_count st)"
  using assms by (fastforce simp: sends_wf_def pending_sends_def split: if_splits)

text \<open>One completed send: its slot takes the last entry and the table is one shorter.\<close>

lemma pending_sends_swap:
  fixes r :: MPI_Request and b :: "payload option"
  assumes wf: "sends_wf st" and i: "i < nat (send_count st)"
    and rs: "send_reqs st = Some rs" and bs: "send_bufs st = Some bs"
  defines "c \<equiv> nat (send_count st - 1)"
  defines "rs1 \<equiv> rs[i := r]" and "bs1 \<equiv> bs[i := b]"
  defines "st1 \<equiv> st\<lparr>send_count := send_count st - 1, send_reqs := Some (rs1[i := rs1 ! c]),
             send_bufs := Some (bs1[i := bs1 ! c])\<rparr>"
  shows "sends_wf st1" and "pending_sends st1 = butlast ((pending_sends st)[i := last (pending_sends st)])"
proof -
  have len: "length rs = length bs" "nat (send_count st) \<le> length rs" "0 < send_count st"
    using wf i rs bs by (auto simp: sends_wf_def split: if_splits)
  then have c: "nat (send_count st) = Suc c" "c < length rs" "i \<le> c"
    using i by (auto simp: c_def)
  show "sends_wf st1" using wf rs bs len by (auto simp: sends_wf_def st1_def rs1_def bs1_def split: if_splits)
  have P: "pending_sends st = take (Suc c) (zip rs bs)" by (simp add: pending_sends_def rs bs c)
  then have last: "last (pending_sends st) = (rs ! c, bs ! c)"
    using c len by (simp add: take_Suc_conv_app_nth)
  have "pending_sends st1 = take c ((zip rs bs)[i := (rs1 ! c, bs1 ! c)])"
    using c by (simp add: pending_sends_def st1_def c_def [symmetric] rs1_def bs1_def zip_update)
  also have "\<dots> = take c ((zip rs bs)[i := (rs ! c, bs ! c)])"
    using c by (cases "i = c") (auto simp: rs1_def bs1_def take_update_cancel)
  also have "\<dots> = butlast ((pending_sends st)[i := last (pending_sends st)])"
    using c len last by (auto simp: P butlast_take take_update_swap butlast_list_update list_update_beyond)
  finally show "pending_sends st1 = butlast ((pending_sends st)[i := last (pending_sends st)])" .
qed

lemma track_total:
  assumes wf: "sends_wf st" and ample: "mem_ample E" and small: "2 * send_count st \<le> INT32_MAX"
  shows "\<exists>st'. CIRCLE_worksend_track E st n req buf = Inr (st', n) \<and> sends_wf st'
    \<and> pending_sends st' = pending_sends st @ [(req, buf)] \<and> only_sends st st'
    \<and> send_count st' = send_count st + 1"
proof -
  have cap: "int (length rs) = send_capacity st" "int (length bs) = send_capacity st"
    if "send_reqs st = Some rs" "send_bufs st = Some bs" for rs bs
    using that wf by (auto simp: sends_wf_def split: if_splits)
  have run: "\<exists>st' n'. CIRCLE_worksend_track E st n req buf = Inr (st', n') \<and> send_count st' = send_count st + 1"
  proof (cases "send_count st = send_capacity st")
    case True
    have "- INT32_MAX - 1 \<le> send_capacity st * 2" "send_capacity st * 2 \<le> INT32_MAX"
      using small wf True by (simp_all add: sends_wf_def INT32_MAX_def)
    then show ?thesis
      using True ample wf cap
      by (auto simp: CIRCLE_worksend_track_def c_int_def realloc_arr_def sends_wf_def Let_def
          split: if_splits option.splits)
  next
    case False
    then show ?thesis using wf by (auto simp: CIRCLE_worksend_track_def sends_wf_def split: if_splits)
  qed
  then obtain st' n' where r: "CIRCLE_worksend_track E st n req buf = Inr (st', n')"
    "send_count st' = send_count st + 1" by blast
  with track_result [OF wf r(1) ample] show ?thesis by blast
qed

section \<open>The sweep\<close>

lemma worksend_loop_sweep:
  assumes "sends_wf st" and "i \<le> nat (send_count st)"
    and "sweep E n (rev (take i (pending_sends st))) = (kept, out, n')"
  shows "\<exists>st'. worksend_loop E i st n rel = Inr (st', n', rel @ out) \<and> sends_wf st'
    \<and> mset (pending_sends st') = mset (drop i (pending_sends st)) + mset kept
    \<and> only_sends st st'"
  using assms
proof (induction i arbitrary: st n rel kept out n')
  case 0
  then show ?case by simp
next
  case (Suc i)
  let ?P = "pending_sends st"
  from Suc.prems(2) have i: "i < nat (send_count st)" by simp
  obtain rs bs where tab: "send_reqs st = Some rs" "send_bufs st = Some bs" "length rs = length bs"
      "i < length rs" "nat (send_count st) \<le> length rs" "?P ! i = (rs ! i, bs ! i)"
      "length ?P = nat (send_count st)"
    by (rule pending_sends_nth [OF Suc.prems(1) i]) blast
  obtain flag req' n1 where t: "MPI_Test E n (rs ! i) = (flag, req', n1)" by (metis prod_cases3)
  obtain k0 o0 n0 where s: "sweep E n1 (rev (take i ?P)) = (k0, o0, n0)" by (metis prod_cases3)
  have "rev (take (Suc i) ?P) = (rs ! i, bs ! i) # rev (take i ?P)"
    using i tab by (simp add: take_Suc_conv_app_nth)
  with Suc.prems(3) t s have res: "n' = n0"
      "kept = (if flag then k0 else (rs ! i, bs ! i) # k0)"
      "out = (if flag then (rs ! i, bs ! i) # o0 else o0)"
    by (auto split: if_splits)
  show ?case
  proof (cases flag)
    case False
    with t have "rs[i := req'] = rs" by (metis MPI_Test_request list_update_id)
    then have "worksend_loop E (Suc i) st n rel = worksend_loop E i st n1 rel"
      using tab(1,4) t False by (simp add: Let_def) (simp flip: tab(1))
    moreover have "mset (drop i ?P) = mset (drop (Suc i) ?P) + {#(rs ! i, bs ! i)#}"
      using i tab by (simp flip: Cons_nth_drop_Suc)
    ultimately show ?thesis using Suc.IH [OF Suc.prems(1) _ s, of rel] i res False by fastforce
  next
    case True
    define c where "c = nat (send_count st - 1)"
    have cpos: "0 \<le> send_count st - 1" "send_count st - 1 < int (length rs)" using i tab by auto
    define rs1 bs1 where "rs1 = rs[i := req']" and "bs1 = bs[i := CIRCLE_free (bs ! i)]"
    define st1 where "st1 = st\<lparr>send_count := send_count st - 1, send_reqs := Some (rs1[i := rs1 ! c]),
             send_bufs := Some (bs1[i := bs1 ! c])\<rparr>"
    have "worksend_loop E (Suc i) st n rel = worksend_loop E i st1 n1 (rel @ [(rs ! i, bs ! i)])"
      using tab t True cpos
      by (simp add: Let_def st1_def rs1_def bs1_def c_def)
    moreover note sw = pending_sends_swap [OF Suc.prems(1) i tab(1,2), where r = req' and b = "CIRCLE_free (bs ! i)",
        folded c_def rs1_def bs1_def, folded st1_def]
    moreover have "take i (pending_sends st1) = take i ?P"
      and "mset (drop i (pending_sends st1)) = mset (drop (Suc i) ?P)"
      using swap_last [of i ?P] sw(2) i tab by simp_all
    moreover have "i \<le> nat (send_count st1)" using i by (simp add: st1_def)
    ultimately show ?thesis
      using Suc.IH [OF sw(1), of n1 k0 o0 n0 "rel @ [(rs ! i, bs ! i)]"] s res True
      by (fastforce intro: only_sends_trans [of st st1] simp: st1_def)
  qed
qed

lemma worksend_check_run:
  assumes "sends_wf st" and "CIRCLE_worksend_check E st n = Inr (st', n', rel)"
  shows "only_sends st st'" and "sends_wf st'"
    and "\<exists>kept. sweep E n (rev (take (nat (send_count st)) (pending_sends st))) = (kept, rel, n')"
proof -
  obtain kept out n1 where s: "sweep E n (rev (take (nat (send_count st)) (pending_sends st))) = (kept, out, n1)"
    by (metis prod_cases3)
  from worksend_loop_sweep [OF assms(1) order_refl s, of "[]"] assms(2) s show
    "only_sends st st'" "sends_wf st'"
    "\<exists>kept. sweep E n (rev (take (nat (send_count st)) (pending_sends st))) = (kept, rel, n')"
    by (auto simp: CIRCLE_worksend_check_def)
qed

text \<open>
  C18. Reaping completed sends. On a well-formed table \<open>CIRCLE_worksend_check\<close> returns, keeps the
  table well formed, tests every outstanding send exactly once (the reference \<open>sweep\<close> over the
  entries from last to first), hands exactly the buffers of the completed sends to
  \<open>CIRCLE_free\<close>, keeps the others, and changes nothing else of the state. In particular no entry is
  lost, duplicated or freed while its send is pending, although a freed slot is refilled in place.
\<close>

theorem worksend_check_sweeps:
  assumes "sends_wf st" and "sweep E n (rev (pending_sends st)) = (kept, done, n')"
  shows "\<exists>st'. CIRCLE_worksend_check E st n = Inr (st', n', done) \<and> sends_wf st'
    \<and> mset (pending_sends st') = mset kept
    \<and> mset (pending_sends st') + mset done = mset (pending_sends st)
    \<and> only_sends st st'"
proof -
  have "length (pending_sends st) = nat (send_count st)"
    using assms(1) by (auto simp: sends_wf_def pending_sends_def split: if_splits option.splits)
  then show ?thesis
    using worksend_loop_sweep [OF assms(1) order_refl, of E n kept "done" n' "[]"] assms(2)
      sweep_keeps_all [OF assms(2)]
    by (auto simp: CIRCLE_worksend_check_def)
qed

text \<open>A table with a send that has completed between two that have not.\<close>

definition busy_net :: fifo_net where
  "busy_net = (quiet_net 2)\<lparr>f_reqs := [Fifo_ssend (0, 1, 1) 0, Fifo_send, Fifo_ssend (0, 1, 1) 1]\<rparr>"

definition busy_sender :: "unit proc" where
  "busy_sender = (small_proc 2 0 small_queue)\<lparr>send_count := 3, send_capacity := 4,
     send_reqs := Some [MPI_Req 0, MPI_Req 1, MPI_Req 2, MPI_REQUEST_NULL],
     send_bufs := Some [Some (Ints [1]), None, Some (Bytes ''ab''), None]\<rparr>"

lemma busy_sender_table:
  "sends_wf busy_sender" "pending_sends busy_sender = [(MPI_Req 0, Some (Ints [1])), (MPI_Req 1, None),
     (MPI_Req 2, Some (Bytes ''ab''))]"
  by (simp_all add: busy_sender_def sends_wf_def pending_sends_def)

theorem worksend_check_sweeps_witness:
  "\<exists>st' n'. CIRCLE_worksend_check fifo_mpi busy_sender busy_net = Inr (st', n', [(MPI_Req 1, None)])
    \<and> sends_wf st' \<and> mset (pending_sends st')
        = {#(MPI_Req 0, Some (Ints [1])), (MPI_Req 2, Some (Bytes ''ab''))#}"
proof -
  have "sweep fifo_mpi busy_net (rev (pending_sends busy_sender))
      = ([(MPI_Req 2, Some (Bytes ''ab'')), (MPI_Req 0, Some (Ints [1]))], [(MPI_Req 1, None)],
         busy_net\<lparr>f_done := [1]\<rparr>)"
    by (simp add: busy_sender_table MPI_Test_def fifo_test_def busy_net_def quiet_net_def)
  from worksend_check_sweeps [OF busy_sender_table(1) this] show ?thesis by force
qed

text \<open>
  What a wait says about its request, in terms of any notion of a request being complete that \<open>MPI_Wait\<close>
  establishes for its request and does not take back from others.
\<close>

definition completion :: "('n, 'z) mpi_scheme \<Rightarrow> ('n \<Rightarrow> nat \<Rightarrow> bool) \<Rightarrow> bool" where
  "completion E completed \<longleftrightarrow> (\<forall>n r n'. mpi_wait E n r = Some n' \<longrightarrow>
     completed n' r \<and> (\<forall>x. completed n x \<longrightarrow> completed n' x))"

lemma Wait_completes:
  assumes "completion E completed" and "MPI_Wait E n req = Inr (req', n')"
  shows "req' = MPI_REQUEST_NULL" and "r \<in> set (req_ids [req]) \<Longrightarrow> completed n' r" and "completed n x \<Longrightarrow> completed n' x"
  using assms by (auto simp: MPI_Wait_def completion_def split: MPI_Request.splits option.splits)

lemma req_ids_Cons: "set (req_ids (req # reqs)) = set (req_ids [req]) \<union> set (req_ids reqs)"
  by (cases req) auto

lemma Waitall_completes:
  assumes wt: "completion E completed"
  shows "MPI_Waitall E n reqs = Inr n' \<Longrightarrow>
    (\<forall>r \<in> set (req_ids reqs). completed n' r) \<and> (\<forall>x. completed n x \<longrightarrow> completed n' x)"
proof (induction reqs arbitrary: n)
  case (Cons req reqs)
  then obtain req' n1 where w: "MPI_Wait E n req = Inr (req', n1)" and rest: "MPI_Waitall E n1 reqs = Inr n'"
    by (auto simp: MPI_Waitall_def outcome)
  note c = Wait_completes [OF wt w]
  from Cons.IH [OF rest] c(2,3) show ?case using req_ids_Cons [of req reqs] by blast
qed (simp add: MPI_Waitall_def)

text \<open>
  C24. Buffers are released only when MPI is done with them. When \<open>CIRCLE_worksend_wait\<close> returns, every request
  it had outstanding, the one of the last work request included, is complete; the table is well formed and empty, all its
  buffers are released, and the request of the last work request is null, so that \<open>CIRCLE_finalize_local_state\<close> frees
  the table with no send outstanding.
\<close>

theorem worksend_wait_drains:
  assumes "sends_wf st" and "CIRCLE_worksend_wait E st n = Inr (st', n')"
    and "completion E completed"
  shows "(\<forall>r \<in> set (req_ids (work_request_req st # map fst (pending_sends st))). completed n' r)
    \<and> sends_wf st' \<and> send_count st' = 0 \<and> pending_sends st' = [] \<and> work_request_req st' = MPI_REQUEST_NULL
    \<and> (\<forall>bs i. send_bufs st' = Some bs \<longrightarrow> i < nat (send_count st) \<longrightarrow> bs ! i = None)"
proof -
  obtain st1 n1 where
    first: "(if work_request_req st \<noteq> MPI_REQUEST_NULL then andThen (MPI_Wait E n (work_request_req st))
        (\<lambda>(req, n). (Inr :: _ \<Rightarrow> _ result) (st\<lparr>work_request_req := req\<rparr>, n)) else Inr (st, n)) = Inr (st1, n1)"
    and rest: "(if send_count st1 > 0
      then andThen (arr_prefix (send_reqs st1) (send_count st1)) (\<lambda>reqs.
        andThen (MPI_Waitall E n1 reqs) (\<lambda>n.
        andThen (arr_prefix (send_bufs st1) (send_count st1)) (\<lambda>bufs.
        (Inr :: _ \<Rightarrow> _ result) (st1\<lparr>
          send_reqs := map_option (\<lambda>rs. map (\<lambda>_. MPI_REQUEST_NULL) reqs @ drop (length reqs) rs) (send_reqs st1),
          send_bufs := map_option (\<lambda>bs. map CIRCLE_free bufs @ drop (length bufs) bs) (send_bufs st1),
          send_count := 0\<rparr>, n))))
      else Inr (st1, n1)) = Inr (st', n')"
    using assms(2) unfolding CIRCLE_worksend_wait_def by (elim andThen_InrE) (auto split: prod.splits)
  have st1: "work_request_req st1 = MPI_REQUEST_NULL" "\<forall>r \<in> set (req_ids [work_request_req st]). completed n1 r"
    "send_count st1 = send_count st" "send_reqs st1 = send_reqs st" "send_bufs st1 = send_bufs st"
    "send_capacity st1 = send_capacity st"
    using first Wait_completes [OF assms(3), of n "work_request_req st" _ n1]
    by (auto simp: outcome split: if_splits)
  have wf1: "sends_wf st1" using assms(1) by (auto simp: sends_wf_def st1)
  have "(\<forall>r \<in> set (req_ids (map fst (pending_sends st))). completed n' r) \<and> (\<forall>x. completed n1 x \<longrightarrow> completed n' x)
    \<and> sends_wf st' \<and> send_count st' = 0 \<and> pending_sends st' = [] \<and> work_request_req st' = MPI_REQUEST_NULL
    \<and> (\<forall>bs i. send_bufs st' = Some bs \<longrightarrow> i < nat (send_count st) \<longrightarrow> bs ! i = None)"
  proof (cases "send_count st > 0")
    case False
    then have "send_count st1 = 0" "st' = st1" "n' = n1" using rest wf1 st1(3) by (auto simp: sends_wf_def)
    then show ?thesis using st1 wf1 by (simp add: pending_sends_def split: option.splits)
  next
    case True
    then obtain rs bs where t: "send_reqs st = Some rs" "send_bufs st = Some bs"
        "int (length rs) = send_capacity st" "int (length bs) = send_capacity st" "send_count st \<le> send_capacity st"
      using assms(1) by (auto simp: sends_wf_def split: if_splits)
    from rest True t have w: "MPI_Waitall E n1 (take (nat (send_count st)) rs) = Inr n'"
      and st': "st' = st1\<lparr>send_reqs := Some (map (\<lambda>_. MPI_REQUEST_NULL) (take (nat (send_count st)) rs) @ drop (nat (send_count st)) rs),
          send_bufs := Some (map CIRCLE_free (take (nat (send_count st)) bs) @ drop (nat (send_count st)) bs), send_count := 0\<rparr>"
      by (auto simp: st1 arr_prefix_Some outcome)
    have "map fst (pending_sends st) = take (nat (send_count st)) rs"
      using t by (simp add: pending_sends_def take_map [symmetric])
    with Waitall_completes [OF assms(3) w] st1 t True show ?thesis
      by (auto simp: st' sends_wf_def pending_sends_def CIRCLE_free_def nth_append)
  qed
  then show ?thesis using st1(2) req_ids_Cons [of "work_request_req st" "map fst (pending_sends st)"] by auto
qed

text \<open>The three sends of the sender above, when the receiver has taken both synchronous ones.\<close>

lemma fifo_completion: "completion fifo_mpi (\<lambda>n r. r \<in> set (f_done n) \<or> length (f_reqs n) \<le> r)"
  unfolding completion_def
  by (auto simp: fifo_test_def fifo_take_def split: if_splits fifo_req.splits option.splits list.splits)

theorem worksend_wait_drains_witness:
  "\<exists>st' n'. CIRCLE_worksend_wait fifo_mpi busy_sender (busy_net\<lparr>f_taken := [(0, 1, 1), (0, 1, 1)]\<rparr>) = Inr (st', n')
    \<and> {0, 1, 2} \<subseteq> set (f_done n') \<and> pending_sends st' = []"
proof -
  have "case CIRCLE_worksend_wait fifo_mpi busy_sender (busy_net\<lparr>f_taken := [(0, 1, 1), (0, 1, 1)]\<rparr>) of
      Inr (st', n') \<Rightarrow> length (f_reqs n') = 3 | Inl _ \<Rightarrow> False" by code_simp
  then obtain st' n' where r: "CIRCLE_worksend_wait fifo_mpi busy_sender (busy_net\<lparr>f_taken := [(0, 1, 1), (0, 1, 1)]\<rparr>) = Inr (st', n')"
      "length (f_reqs n') = 3" by (elim returnsE) auto
  from worksend_wait_drains [OF busy_sender_table(1) r(1) fifo_completion] r
  show ?thesis by (cases "work_request_req busy_sender") (auto simp: busy_sender_table)
qed

end
