(* ===== verification/WorkTransfer.thy ===== *)
theory WorkTransfer
  imports Sends
begin

text \<open>
  Work transfer of \<^verbatim>\<open>token.c\<close>: a process without work asks another one
  (\<open>CIRCLE_request_work\<close>), the other splits its queue among those who asked
  (\<open>CIRCLE_workreq_check\<close>, \<open>CIRCLE_send_work_to_many\<close>, \<open>spread_counts\<close>) and ships a suffix of its
  queue as a message of offsets and a message of bytes (\<open>CIRCLE_send_work\<close>), the first unpacks
  them into its empty queue (\<open>CIRCLE_work_receive\<close>) and acknowledges with a receipt, which
  the sender counts off (\<open>CIRCLE_workreceipt_check\<close>).
\<close>

unbundle bit_operations_syntax

section \<open>Receiving work\<close>

definition CIRCLE_extend_offsets ::
  "('n, 'z) mpi_scheme \<Rightarrow> ('a) CIRCLE_state_st_scheme \<Rightarrow> int \<Rightarrow> (int \<times> ('a) CIRCLE_state_st_scheme) result" where
  "CIRCLE_extend_offsets E st sz =
     (if sz \<le> offsets_count st then Inr (0, st) else
      andThen (str_count_loop (offsets_count st) sz) (\<lambda>cnt.
      let buf = realloc_arr E (\<lambda>_. 0) 4 (offsets_recv_buf st) (nat cnt);
          st = st\<lparr>offsets_recv_buf := buf, offsets_count := cnt\<rparr>
      in if buf = None then Inr (-1, st) else Inr (0, st)))"

text \<open>A receive into the start of an array, which keeps the entries the message does not fill.\<close>

definition recv_into :: "'a list option \<Rightarrow> 'a list \<Rightarrow> 'a list option result" where
  "recv_into buf xs = (case buf of None \<Rightarrow> Inl Null_Deref
     | Some b \<Rightarrow> if length xs \<le> length b then Inr (Some (xs @ drop (length xs) b))
                else Inl Out_Of_Bounds)"

text \<open>
  The queue is rebuilt from the offsets (\<open>offsets_recv_buf\<close> from index 2) and the bytes already in
  its pool. The result is negative when the table cannot grow or the first offset is not 0.
\<close>

definition work_unpack ::
  "('z) host_scheme \<Rightarrow> CIRCLE_internal_queue_t \<Rightarrow> int list option \<Rightarrow> int \<Rightarrow>
     (int \<times> CIRCLE_internal_queue_t) result" where
  "work_unpack H qp offs cnt =
     andThen (if cnt > str_count qp then CIRCLE_internal_queue_str_extend H qp cnt else Inr (0, qp))
       (\<lambda>(rc, qp).
     if rc < 0 then Inr (-1, qp) else
     andThen (for_list (\<lambda>i ss. andThen (arr_get offs (int i + 2)) (\<lambda>v. arr_set ss (int i) (word_of_int v)))
        [0..<nat cnt] (strings qp)) (\<lambda>ss.
     let qp = qp\<lparr>strings := ss\<rparr>
     in andThen (arr_get (strings qp) 0) (\<lambda>first.
        if first \<noteq> 0 then Inr (-1, qp) else
        let qp = qp\<lparr>count := cnt\<rparr>
        in andThen (arr_get (strings qp) (cnt - 1)) (\<lambda>elem_offset.
           andThen (c_string (base qp) (unat elem_offset)) (\<lambda>s.
           Inr (0, qp\<lparr>head := elem_offset + (of_nat (length s) + 1)\<rparr>))))))"

definition CIRCLE_work_receive ::
  "('n, 'z) mpi_scheme \<Rightarrow> 'u proc \<Rightarrow> 'n \<Rightarrow> int \<Rightarrow> int \<Rightarrow> (int \<times> 'u proc \<times> 'n) result" where
  "CIRCLE_work_receive E p n source sz =
     (if sz \<le> 0 then Inr (-1, p, mpi_abort E n LIBCIRCLE_MPI_ERROR) else
      andThen (CIRCLE_extend_offsets E p sz) (\<lambda>(rc, p).
      if rc < 0 then Inr (-1, p, mpi_abort E n LIBCIRCLE_MPI_ERROR) else
      andThen (recv_ints E n (rank p) source CIRCLE_TAG_WORK_REPLY sz) (\<lambda>(xs, n).
      andThen (recv_into (offsets_recv_buf p) xs) (\<lambda>buf.
      let p = p\<lparr>offsets_recv_buf := buf\<rparr>
      in andThen (arr_get buf 0) (\<lambda>items.
         if items = 0
         then Inr (0, p\<lparr>local_no_work_received := local_no_work_received p + 1\<rparr>, n)
         else if items = PAYLOAD_ABORT then Inr (PAYLOAD_ABORT, p\<lparr>CIRCLE_ABORT_FLAG := 1\<rparr>, n)
         else if items < 0 then Inr (-1, p, n) else
         andThen (arr_get buf 1) (\<lambda>chars.
         let new_bytes = head (queue p) + word_of_int chars
         in andThen (if new_bytes > bytes (queue p)
                     then CIRCLE_internal_queue_extend E (queue p) new_bytes
                     else Inr (0, queue p)) (\<lambda>(rc, qp).
            let p = p\<lparr>queue := qp\<rparr>
            in if rc < 0 then Inr (-1, p, mpi_abort E n LIBCIRCLE_MPI_ERROR) else
            andThen (recv_bytes E n (rank p) source CIRCLE_TAG_WORK_REPLY chars) (\<lambda>(bs, n).
            andThen (recv_into (base qp) bs) (\<lambda>b.
            andThen (work_unpack E (qp\<lparr>base := b\<rparr>) buf items) (\<lambda>(rc, qp).
            let p = p\<lparr>queue := qp\<rparr>
            in if rc < 0 then Inr (-1, p, mpi_abort E n LIBCIRCLE_MPI_ERROR) else
            case mpi_isend E n (rank p) source CIRCLE_TAG_WORK_RECEIPT (Bytes []) of (r, n) \<Rightarrow>
            andThen (CIRCLE_worksend_track E p n (MPI_Req r) None) (\<lambda>(p, n).
            Inr (0, p, n)))))))))))) "

text \<open>\<open>cleanup\<close> is the flag of the work loop: no new request is made while draining.\<close>

definition CIRCLE_request_work ::
  "('n, 'z) mpi_scheme \<Rightarrow> 'u proc \<Rightarrow> 'n \<Rightarrow> bool \<Rightarrow> (int \<times> 'u proc \<times> 'n) result" where
  "CIRCLE_request_work E p n cleanup =
     (case (if work_request_req p \<noteq> MPI_REQUEST_NULL
            then (case MPI_Test E n (work_request_req p) of (flag, req, n) \<Rightarrow>
                    (flag, p\<lparr>work_request_req := req\<rparr>, n))
            else (True, p, n)) of (request_slot_free, p, n) \<Rightarrow>
      if work_requested p \<noteq> 0 then
        let source = work_requested_rank p
        in (case mpi_iprobe E n (rank p) source CIRCLE_TAG_WORK_REPLY of
              (None, n) \<Rightarrow> Inr (0, p, n)
            | (Some status, n) \<Rightarrow>
                andThen (CIRCLE_work_receive E p n source (MPI_COUNT status)) (\<lambda>(rc, p, n).
                Inr (rc, p\<lparr>work_requested := 0\<rparr>, n)))
      else if \<not> cleanup \<and> CIRCLE_ABORT_FLAG p = 0 \<and> request_slot_free then
        let source = next_processor p
        in if source = MPI_PROC_NULL E then Inr (0, p, n) else
           let p = p\<lparr>local_work_requested := local_work_requested p + 1\<rparr>
           in (case mpi_isend E n (rank p) source CIRCLE_TAG_WORK_REQUEST (Bytes []) of (r, n) \<Rightarrow>
               andThen (CIRCLE_get_next_proc E (p\<lparr>work_request_req := MPI_Req r, work_requested := 1,
                   work_requested_rank := source\<rparr>)) (\<lambda>p. Inr (0, p, n)))
      else Inr (0, p, n))"

section \<open>Sending work\<close>

text \<open>\<open>spread_counts(&sizes[off], ranks, count)\<close>.\<close>

definition spread_counts :: "int list option \<Rightarrow> int \<Rightarrow> int \<Rightarrow> int \<Rightarrow> int list option result" where
  "spread_counts sizes off ranks cnt =
     (if ranks = 0 then Inl Div_By_Zero else
      let base = cnt sdiv ranks;
          extra = cnt - base * ranks
      in andThen (for_list (\<lambda>i a. arr_set a (off + int i) (base + 1)) [0..<nat extra] sizes)
           (for_list (\<lambda>i a. arr_set a (off + int i) base) [nat extra..<nat ranks]))"

definition CIRCLE_send_no_work ::
  "('n, 'z) mpi_scheme \<Rightarrow> 'u proc \<Rightarrow> 'n \<Rightarrow> int \<Rightarrow> ('u proc \<times> 'n) result" where
  "CIRCLE_send_no_work E p n dest =
     (if \<not> malloc_ok E 8 then Inr (p, mpi_abort E n LIBCIRCLE_MPI_ERROR) else
      let no_work = (if CIRCLE_ABORT_FLAG p \<noteq> 0 then PAYLOAD_ABORT else 0)
      in (case mpi_isend E n (rank p) dest CIRCLE_TAG_WORK_REPLY (Ints [no_work]) of (r, n) \<Rightarrow>
          CIRCLE_worksend_track E p n (MPI_Req r) (Some (Ints [no_work, 0]))))"

text \<open>
  The start offset and the length in bytes of the last \<open>cnt\<close> strings, the last of which starts at
  \<open>end_offset\<close>.
\<close>

definition work_span :: "CIRCLE_internal_queue_t \<Rightarrow> 64 word \<Rightarrow> int \<Rightarrow> (64 word \<times> 64 word) result" where
  "work_span qp end_offset cnt =
     andThen (arr_get (strings qp) (count qp - cnt)) (\<lambda>start_offset.
     andThen (c_string (base qp) (unat end_offset)) (\<lambda>s.
     Inr (start_offset, end_offset - start_offset + (of_nat (length s) + 1))))"

text \<open>\<open>while(len > INT32_MAX && count > 1)\<close>: send fewer strings until they fit one message.\<close>

function backoff_loop ::
  "CIRCLE_internal_queue_t \<Rightarrow> 64 word \<Rightarrow> int \<Rightarrow> 64 word \<Rightarrow> 64 word \<Rightarrow> (int \<times> 64 word \<times> 64 word) result" where
  "backoff_loop qp end_offset cnt start len =
     (if len > 2147483647 \<and> cnt > 1
      then let nxt = cnt - cnt sdiv 10;
               nxt = (if nxt \<ge> cnt then cnt - 1 else nxt)
           in (case work_span qp end_offset nxt of Inl e \<Rightarrow> Inl e
               | Inr (start, len) \<Rightarrow> backoff_loop qp end_offset nxt start len)
      else Inr (cnt, start, len))"
  by pat_completeness auto
termination
  by (relation "measure (\<lambda>(qp, end_offset, cnt, start, len). nat cnt)") (auto split: if_splits)

declare backoff_loop.simps [simp del]

definition work_offsets :: "CIRCLE_internal_queue_t \<Rightarrow> int \<Rightarrow> 64 word \<Rightarrow> int list result" where
  "work_offsets qp cnt start =
     for_list (\<lambda>i out. andThen (arr_get (strings qp) (count qp - cnt + int i))
        (\<lambda>off. Inr (out @ [to_int32 (off - start)]))) [0..<nat cnt] []"

definition memcpy_from :: "string option \<Rightarrow> nat \<Rightarrow> nat \<Rightarrow> string result" where
  "memcpy_from a off len = (case a of None \<Rightarrow> Inl Null_Deref
     | Some b \<Rightarrow> if off + len \<le> length b then Inr (take len (drop off b)) else Inl Out_Of_Bounds)"

text \<open>
  The branch for a single item too large to send is modelled as the call
  \<open>CIRCLE_send_no_work(st, dest)\<close>; the source omits the first argument there.
\<close>

definition CIRCLE_send_work ::
  "('n, 'z) mpi_scheme \<Rightarrow> 'u proc \<Rightarrow> 'n \<Rightarrow> int \<Rightarrow> int \<Rightarrow> (int \<times> 'u proc \<times> 'n) result" where
  "CIRCLE_send_work E p n dest cnt =
     (if cnt \<le> 0 then andThen (CIRCLE_send_no_work E p n dest) (\<lambda>(p, n). Inr (0, p, n)) else
      let p = (if dest < rank p \<or> dest = token_src p then p\<lparr>token_proc := BLACK\<rparr> else p);
          qp = queue p
      in andThen (arr_get (strings qp) (count qp - 1)) (\<lambda>end_offset.
         andThen (work_span qp end_offset cnt) (\<lambda>(start, len).
         andThen (backoff_loop qp end_offset cnt start len) (\<lambda>(cnt, start, len).
         if len > 2147483647
         then andThen (CIRCLE_send_no_work E p n dest) (\<lambda>(p, n). Inr (-1, p, n)) else
         andThen (c_int (2 + cnt)) (\<lambda>numoffsets.
         if \<not> malloc_ok E (4 * nat numoffsets) \<or> \<not> malloc_ok E (unat len)
         then Inr (-1, p, mpi_abort E n LIBCIRCLE_MPI_ERROR) else
         andThen (work_offsets qp cnt start) (\<lambda>offs.
         andThen (memcpy_from (base qp) (unat start) (unat len)) (\<lambda>buf.
         let offsets = Ints ([cnt, int (unat len)] @ offs)
         in (case mpi_isend E n (rank p) dest CIRCLE_TAG_WORK_REPLY offsets of (r, n) \<Rightarrow>
             andThen (CIRCLE_worksend_track E p n (MPI_Req r) (Some offsets)) (\<lambda>(p, n).
             case mpi_isend E n (rank p) dest CIRCLE_TAG_WORK_REPLY (Bytes buf) of (r, n) \<Rightarrow>
             andThen (CIRCLE_worksend_track E p n (MPI_Req r) (Some (Bytes buf))) (\<lambda>(p, n).
             Inr (0, p\<lparr>queue := (queue p)\<lparr>count := count (queue p) - cnt\<rparr>,
                       work_outstanding := work_outstanding p + 1\<rparr>, n)))))))))))"

text \<open>The sizes of the shares: the first is what this process keeps.\<close>

definition work_shares ::
  "('n, 'z) mpi_scheme \<Rightarrow> 'u proc \<Rightarrow> int list option \<Rightarrow> int \<Rightarrow> (int list option \<times> 'u proc) result" where
  "work_shares E p sizes rcount =
     (if options (input p) AND CIRCLE_SPLIT_EQUAL \<noteq> 0
      then andThen (spread_counts sizes 0 (rcount + 1) (count (queue p))) (\<lambda>sizes. Inr (sizes, p))
      else if count (queue p) = 0 then Inl Div_By_Zero else
      case rand_r E (seed p) of (v, s) \<Rightarrow>
      let send_cnt = v smod count (queue p) + 1;
          send_cnt = (if send_cnt = count (queue p) then send_cnt - 1 else send_cnt)
      in andThen (arr_set sizes 0 (count (queue p) - send_cnt)) (\<lambda>sizes.
         andThen (spread_counts sizes 1 rcount send_cnt) (\<lambda>sizes.
         Inr (sizes, p\<lparr>seed := s\<rparr>))))"

definition CIRCLE_send_work_to_many ::
  "('n, 'z) mpi_scheme \<Rightarrow> 'u proc \<Rightarrow> 'n \<Rightarrow> int list option \<Rightarrow> int \<Rightarrow> ('u proc \<times> 'n) result" where
  "CIRCLE_send_work_to_many E p n reqs rcount =
     (if rcount \<le> 0 then Inl Exit_Failure else
      let sizes = malloc_arr E (\<lambda>_. 0) 4 (nat (rcount + 1));
          n = (if sizes = None then mpi_abort E n LIBCIRCLE_MPI_ERROR else n)
      in andThen (work_shares E p sizes rcount) (\<lambda>(sizes, p).
         for_list (\<lambda>i (p, n).
             andThen (arr_get reqs (int i)) (\<lambda>dest.
             andThen (arr_get sizes (int i + 1)) (\<lambda>share.
             andThen (CIRCLE_send_work E p n dest share) (\<lambda>(rc, p, n). Inr (p, n)))))
           [0..<nat rcount] (p, n)))"

section \<open>Serving requests and counting receipts\<close>

function CIRCLE_workreceipt_check ::
  "('n, 'z) mpi_scheme \<Rightarrow> ('a) CIRCLE_state_st_scheme \<Rightarrow> 'n \<Rightarrow> (('a) CIRCLE_state_st_scheme \<times> 'n) result" where
  "CIRCLE_workreceipt_check E st n =
     (if work_outstanding st > 0 then
        (case mpi_iprobe E n (rank st) (MPI_ANY_SOURCE E) CIRCLE_TAG_WORK_RECEIPT of
           (None, n) \<Rightarrow> Inr (st, n)
         | (Some status, n) \<Rightarrow>
             (case recv_empty E n (rank st) (MPI_SOURCE status) CIRCLE_TAG_WORK_RECEIPT of
                Inl e \<Rightarrow> Inl e
              | Inr n \<Rightarrow> CIRCLE_workreceipt_check E
                  (st\<lparr>work_outstanding := work_outstanding st - 1, term_flag := 0\<rparr>) n))
      else Inr (st, n))"
  by pat_completeness auto
termination
  by (relation "measure (\<lambda>(E, st, n). nat (work_outstanding st))") auto

declare CIRCLE_workreceipt_check.simps [simp del]

text \<open>
  \<open>while(1)\<close> over the incoming requests. The loop is bounded by the array it fills: one request
  more than \<open>requestors\<close> has entries is a write out of bounds.
\<close>

function workreq_loop ::
  "('n, 'z) mpi_scheme \<Rightarrow> int \<Rightarrow> 'n \<Rightarrow> int list option \<Rightarrow> nat \<Rightarrow> (int list option \<times> nat \<times> 'n) result" where
  "workreq_loop E me n reqs rcount =
     (case mpi_iprobe E n me (MPI_ANY_SOURCE E) CIRCLE_TAG_WORK_REQUEST of
        (None, n) \<Rightarrow> Inr (reqs, rcount, n)
      | (Some status, n) \<Rightarrow>
          (case recv_empty E n me (MPI_SOURCE status) CIRCLE_TAG_WORK_REQUEST of
             Inl e \<Rightarrow> Inl e
           | Inr n \<Rightarrow>
               (case arr_set reqs (int rcount) (MPI_SOURCE status) of
                  Inl e \<Rightarrow> Inl e
                | Inr reqs \<Rightarrow> workreq_loop E me n reqs (Suc rcount))))"
  by pat_completeness auto
termination
proof (relation "measure (\<lambda>(E, me, n, reqs, rcount). (case reqs of None \<Rightarrow> 0 | Some xs \<Rightarrow> length xs) - rcount)",
    simp, goal_cases)
  case 1
  then show ?case by (auto simp: arr_set_def split: option.splits if_splits)
qed

declare workreq_loop.simps [simp del]

definition CIRCLE_workreq_check ::
  "('n, 'z) mpi_scheme \<Rightarrow> 'u proc \<Rightarrow> 'n \<Rightarrow> bool \<Rightarrow> ('u proc \<times> 'n) result" where
  "CIRCLE_workreq_check E p n cleanup =
     andThen (workreq_loop E (rank p) n (requestors p) 0) (\<lambda>(reqs, rcount, n).
     let p = p\<lparr>requestors := reqs\<rparr>
     in if rcount = 0 then Inr (p, n) else
        andThen (c_int (4 * comm_size p)) (\<lambda>limit.
        let send_backlog = (send_count p \<ge> limit)
        in if count (queue p) = 0 \<or> cleanup \<or> CIRCLE_ABORT_FLAG p \<noteq> 0 \<or> send_backlog
           then for_list (\<lambda>i (p, n). andThen (arr_get reqs (int i)) (CIRCLE_send_no_work E p n))
                  [0..<rcount] (p, n)
           else CIRCLE_send_work_to_many E p n reqs (int rcount)))"

text \<open>What \<open>CIRCLE_print_offsets\<close> logs at the debug level.\<close>

definition CIRCLE_print_offsets :: "int \<Rightarrow> 32 word list option \<Rightarrow> int \<Rightarrow> (int \<times> 32 word) list result" where
  "CIRCLE_print_offsets debug_level offs cnt =
     (if debug_level < 5 then Inr [] else
      for_list (\<lambda>i out. andThen (arr_get offs (int i)) (\<lambda>v. Inr (out @ [(int i, v)]))) [0..<nat cnt] [])"

section \<open>Shares\<close>

text \<open>The shares as a list: the remainder of the division goes to the first ones.\<close>

definition shares :: "int \<Rightarrow> int \<Rightarrow> int list" where
  "shares ranks cnt =
     replicate (nat (cnt mod ranks)) (cnt div ranks + 1) @ replicate (nat (ranks - cnt mod ranks)) (cnt div ranks)"

lemma length_shares: "0 < ranks \<Longrightarrow> length (shares ranks cnt) = nat ranks"
  using nat_add_distrib [of "cnt mod ranks" "ranks - cnt mod ranks"] pos_mod_bound [of ranks cnt]
    pos_mod_sign [of ranks cnt]
  by (simp add: shares_def less_imp_le)

lemma sum_list_shares: "0 < ranks \<Longrightarrow> sum_list (shares ranks cnt) = cnt"
proof -
  assume r: "0 < ranks"
  then have m: "0 \<le> cnt mod ranks" "cnt mod ranks < ranks" by simp_all
  then have "sum_list (shares ranks cnt)
      = (cnt mod ranks) * (cnt div ranks + 1) + (ranks - cnt mod ranks) * (cnt div ranks)"
    by (simp add: shares_def sum_list_replicate)
  also have "\<dots> = cnt mod ranks + ranks * (cnt div ranks)" by (simp add: algebra_simps)
  finally show ?thesis by simp
qed

lemma shares_balanced:
  "0 < ranks \<Longrightarrow> s \<in> set (shares ranks cnt) \<Longrightarrow> s = cnt div ranks \<or> s = cnt div ranks + 1"
  by (auto simp: shares_def)

text \<open>A loop that writes the same value to a run of entries.\<close>

lemma write_run:
  assumes "0 \<le> off" and "nat off + j \<le> length xs" and "i \<le> j"
  shows "for_list (\<lambda>i a. arr_set a (off + int i) v) [i..<j] (Some xs)
    = Inr (Some (take (nat off + i) xs @ replicate (j - i) v @ drop (nat off + j) xs))"
  using assms
proof (induction "j - i" arbitrary: i xs)
  case 0
  then show ?case by simp
next
  case (Suc d)
  then have lt: "i < j" by simp
  have idx: "nat (off + int i) = nat off + i" using Suc.prems by simp
  have "for_list (\<lambda>i a. arr_set a (off + int i) v) [i..<j] (Some xs)
      = for_list (\<lambda>i a. arr_set a (off + int i) v) [Suc i..<j] (Some (xs[nat off + i := v]))"
    using lt Suc.prems idx by (simp add: upt_rec [of i])
  also have "\<dots> = Inr (Some (take (nat off + Suc i) (xs[nat off + i := v]) @ replicate (j - Suc i) v
      @ drop (nat off + j) (xs[nat off + i := v])))"
    using Suc.hyps(1) [of "Suc i" "xs[nat off + i := v]"] Suc.hyps(2) Suc.prems lt by simp
  also have "\<dots> = Inr (Some (take (nat off + i) xs @ replicate (j - i) v @ drop (nat off + j) xs))"
  proof -
    have "replicate (j - i) v = v # replicate (j - Suc i) v"
      using lt by (simp add: Suc_diff_Suc flip: replicate_Suc)
    then show ?thesis using lt Suc.prems by (simp add: drop_update_cancel)
  qed
  finally show ?case .
qed

lemma spread_counts_result:
  assumes "0 < ranks" and "0 \<le> cnt" and "0 \<le> off" and "nat off + nat ranks \<le> length xs"
  shows "spread_counts (Some xs) off ranks cnt
    = Inr (Some (take (nat off) xs @ shares ranks cnt @ drop (nat off + nat ranks) xs))"
proof -
  have d: "cnt sdiv ranks = cnt div ranks" "cnt - cnt div ranks * ranks = cnt mod ranks"
    using assms by (cases "cnt = 0"; simp add: signed_divide_int_def minus_div_mult_eq_mod)+
  define e where "e = nat (cnt mod ranks)"
  have e: "e \<le> nat ranks" "nat ranks - e = nat (ranks - cnt mod ranks)"
    using nat_mono [OF less_imp_le [OF pos_mod_bound [OF assms(1), of cnt]]]
      nat_diff_distrib [OF pos_mod_sign [OF assms(1), of cnt] less_imp_le [OF pos_mod_bound [OF assms(1), of cnt]]]
    by (simp_all add: e_def)
  then have tot: "nat (ranks - cnt mod ranks) + (nat off + e) = nat off + nat ranks" by linarith
  have "for_list (\<lambda>i a. arr_set a (off + int i) (cnt div ranks + 1)) [0..<e] (Some xs)
      = Inr (Some (take (nat off) xs @ replicate e (cnt div ranks + 1) @ drop (nat off + e) xs))"
    using write_run [of off e xs 0 "cnt div ranks + 1"] assms e by simp
  moreover have "for_list (\<lambda>i a. arr_set a (off + int i) (cnt div ranks)) [e..<nat ranks]
        (Some (take (nat off) xs @ replicate e (cnt div ranks + 1) @ drop (nat off + e) xs))
      = Inr (Some (take (nat off) xs @ shares ranks cnt @ drop (nat off + nat ranks) xs))"
    using write_run [of off "nat ranks" "take (nat off) xs @ replicate e (cnt div ranks + 1) @ drop (nat off + e) xs"
        e "cnt div ranks"] assms e tot
    by (simp add: shares_def e_def [symmetric])
  ultimately show ?thesis
    using assms(1) by (simp add: spread_counts_def Let_def d e_def [symmetric])
qed

text \<open>
  C23. Splitting the queue equally. For a non-negative count and at least one rank, the shares
  written by \<open>spread_counts\<close> stay inside the array, add up to the count, and differ by at most one.
\<close>

theorem spread_counts_fair:
  assumes "0 < ranks" and "0 \<le> cnt" and "0 \<le> off" and "nat off + nat ranks \<le> length xs"
  shows "\<exists>ys. spread_counts (Some xs) off ranks cnt
      = Inr (Some (take (nat off) xs @ ys @ drop (nat off + nat ranks) xs))
    \<and> length ys = nat ranks \<and> sum_list ys = cnt
    \<and> (\<forall>a \<in> set ys. \<forall>b \<in> set ys. 0 \<le> a \<and> a \<le> b + 1)"
  using spread_counts_result [OF assms] length_shares [OF assms(1)] sum_list_shares [OF assms(1)]
  by (intro exI [of _ "shares ranks cnt"] conjI ballI)
    (auto dest!: shares_balanced [OF assms(1)] simp: assms(1,2) pos_imp_zdiv_nonneg_iff)

theorem spread_counts_fair_witness:
  "\<exists>ys. spread_counts (Some [9, 9, 9, 9, 9]) 1 3 8 = Inr (Some ([9] @ ys @ [9]))
    \<and> length ys = 3 \<and> sum_list ys = 8"
  using spread_counts_fair [of 3 8 1 "[9, 9, 9, 9, 9]"] by (auto simp: numeral_eq_Suc)

section \<open>Packing and unpacking a suffix of the queue\<close>

lemma string_window:
  assumes t: "terminated_at b off" and s: "s \<le> off" and e: "seg_end b off \<le> s + len"
  shows "cstr_at (take len (drop s b)) (off - s) = cstr_at b off"
    and "terminated_at (take len (drop s b)) (off - s)"
    and "seg_end (take len (drop s b)) (off - s) = seg_end b off - s"
proof -
  have d: "cstr_at (drop s b) (off - s) = cstr_at b off" "terminated_at (drop s b) (off - s)"
    using s t by (simp_all add: cstr_at_def terminated_at_def)
  then have se: "seg_end (drop s b) (off - s) = seg_end b off - s" using s by (simp add: seg_end_def)
  then have "seg_end (drop s b) (off - s) \<le> len" using e by simp
  note string_below [of len "take len (drop s b)" "drop s b", OF _ d(2) this]
  then show "cstr_at (take len (drop s b)) (off - s) = cstr_at b off"
    "terminated_at (take len (drop s b)) (off - s)"
    "seg_end (take len (drop s b)) (off - s) = seg_end b off - s"
    using d se by simp_all
qed

text \<open>The last strings of a layout, cut out of the pool, are a layout of their own from offset 0.\<close>

lemma layout_window:
  assumes lay: "layout mx b (os1 @ os) h" and ne: "os \<noteq> []"
  defines "s \<equiv> hd os" and "len \<equiv> seg_end b (last os) - hd os"
  defines "b' \<equiv> take len (drop s b)"
  shows "layout mx b' (map (\<lambda>off. off - s) os) len" and "length b' = len"
    and "map (cstr_at b') (map (\<lambda>off. off - s) os) = map (cstr_at b) os"
    and "\<forall>off \<in> set os. s \<le> off \<and> seg_end b off \<le> s + len" and "seg_end b (last os) \<le> length b"
    and "s + len = seg_end b (last os)"
proof -
  have srt: "sorted_wrt (\<lambda>off off'. seg_end b off \<le> off') os"
    and tm: "\<forall>off \<in> set os. terminated_at b off \<and> length (cstr_at b off) < mx"
    using lay by (auto simp: layout_def sorted_wrt_append)
  obtain os' where os': "os = s # os'" using ne by (cases os) (auto simp: s_def)
  have ge: "s \<le> off" if "off \<in> set os" for off
  proof (cases "off = s")
    case False
    then have "seg_end b s \<le> off" using that srt by (auto simp: os')
    then show ?thesis using seg_end_gt [of s b] by linarith
  qed simp
  have le: "seg_end b off \<le> seg_end b (last os)" if "off \<in> set os" for off
  proof (cases "off = last os")
    case False
    then have "off \<in> set (butlast os)" using that ne by (metis append_butlast_last_id rotate1.simps(2) set_ConsD set_rotate1)
    moreover have "sorted_wrt (\<lambda>off off'. seg_end b off \<le> off') (butlast os @ [last os])"
      using srt ne by simp
    ultimately have "seg_end b off \<le> last os" by (auto simp: sorted_wrt_append)
    then show ?thesis using seg_end_gt [of "last os" b] by linarith
  qed simp
  show s_le: "s + len = seg_end b (last os)"
    using ge [OF last_in_set [OF ne]] less_imp_le [OF seg_end_gt [of "last os" b]]
    by (simp add: len_def s_def)
  show bnd: "\<forall>off \<in> set os. s \<le> off \<and> seg_end b off \<le> s + len" using ge le s_le by simp
  show sl: "seg_end b (last os) \<le> length b" using tm seg_end_le [of b "last os"] ne by simp
  then show len': "length b' = len" using s_le by (simp add: b'_def)
  note w = string_window [of b _ s len, folded b'_def]
  show "map (cstr_at b') (map (\<lambda>off. off - s) os) = map (cstr_at b) os" using w(1) tm bnd by simp
  have "sorted_wrt (\<lambda>x y. seg_end b' (x - s) \<le> y - s) os"
    using srt by (rule sorted_wrt_mono_rel [rotated]) (use w(3) tm bnd in \<open>auto intro: diff_le_mono\<close>)
  moreover have "seg_end b' (off - s) \<le> len" if "off \<in> set os" for off
    using w(3) [of off] tm bnd that by (auto simp: le_diff_conv add.commute)
  ultimately show "layout mx b' (map (\<lambda>off. off - s) os) len"
    using w(1,2) tm bnd len' by (auto simp: layout_def sorted_wrt_append sorted_wrt_map)
qed

text \<open>
  The contents of a work message: the first message holds the number of strings, the number of
  bytes and the offset of each string, the second the bytes, in which the strings start at
  those offsets.
\<close>

definition work_msg :: "nat \<Rightarrow> string list \<Rightarrow> int list \<Rightarrow> string \<Rightarrow> bool" where
  "work_msg mx ws xs bs \<longleftrightarrow> (\<exists>os. xs = int (length os) # int (length bs) # map int os
     \<and> os \<noteq> [] \<and> hd os = 0 \<and> layout mx bs os (length bs) \<and> map (cstr_at bs) os = ws
     \<and> int (length bs) \<le> INT32_MAX \<and> int (length os) + 2 \<le> INT32_MAX)"

text \<open>
  The last \<open>k\<close> strings of a well-formed queue: their offsets \<open>os\<close>, the first and the last of them,
  and the bytes they take.
\<close>

lemma suffix_offsets:
  assumes wf: "queue_wf H q" and k: "0 < k" "k \<le> count q"
    and q: "base q = Some b" "strings q = Some ss"
  defines "k0 \<equiv> nat (count q - k)"
  defines "os \<equiv> drop k0 (offsets q)"
  shows "length os = nat k" and "os \<noteq> []" and "\<And>i. i < nat k \<Longrightarrow> os ! i = unat (ss ! (k0 + i))"
    and "\<And>i. i < nat k \<Longrightarrow> arr_get (strings q) (count q - k + int i) = Inr (ss ! (k0 + i))"
    and "hd os = unat (ss ! k0)" and "last os = unat (ss ! nat (count q - 1))"
    and "arr_get (strings q) (count q - 1) = Inr (ss ! nat (count q - 1))"
    and "layout (CIRCLE_MAX_STRING_LEN H) b (take k0 (offsets q) @ os) (unat (head q))"
    and "length b < 2 ^ 64" and "drop k0 (items q) = map (cstr_at b) os"
proof -
  from wf q have w: "offsets q = map unat (take (nat (count q)) ss)" "nat (count q) \<le> length ss"
      "length b = unat (bytes q)" "layout (CIRCLE_MAX_STRING_LEN H) b (offsets q) (unat (head q))"
      "pool q = b"
    by (auto elim!: queue_wfE)
  have lo: "length (offsets q) = nat (count q)" using w by simp
  show len: "length os = nat k" using lo k by (simp add: os_def k0_def nat_diff_distrib)
  then show ne: "os \<noteq> []" using k by auto
  show nth: "os ! i = unat (ss ! (k0 + i))" if "i < nat k" for i
    using that w lo k by (simp add: os_def k0_def)
  show "arr_get (strings q) (count q - k + int i) = Inr (ss ! (k0 + i))" if "i < nat k" for i
    using that w k q by (simp add: k0_def nat_add_distrib)
  show "hd os = unat (ss ! k0)" using nth [of 0] k ne by (simp add: hd_conv_nth)
  show "last os = unat (ss ! nat (count q - 1))"
  proof -
    have "last os = os ! (nat k - 1)" using ne len by (simp add: last_conv_nth)
    moreover have "k0 + (nat k - 1) = nat (count q - 1)" using k by (simp add: k0_def)
    ultimately show ?thesis using nth [of "nat k - 1"] k by simp
  qed
  show "arr_get (strings q) (count q - 1) = Inr (ss ! nat (count q - 1))" using w q k by simp
  show "layout (CIRCLE_MAX_STRING_LEN H) b (take k0 (offsets q) @ os) (unat (head q))"
    using w(4) by (simp add: os_def)
  show "length b < 2 ^ 64" using unsigned_less [of "bytes q", where 'a = nat] by (simp add: w(3))
  show "drop k0 (items q) = map (cstr_at b) os" by (simp add: items_def w(5) os_def drop_map)
qed

lemma suffix_span:
  assumes wf: "queue_wf H q" and k: "0 < k" "k \<le> count q"
    and q: "base q = Some b" "strings q = Some ss"
  defines "k0 \<equiv> nat (count q - k)"
  defines "os \<equiv> drop k0 (offsets q)"
  shows "\<exists>w. work_span q (ss ! nat (count q - 1)) k = Inr (ss ! k0, w)
    \<and> unat w = seg_end b (last os) - hd os"
proof -
  note so = suffix_offsets [OF wf k q, folded k0_def, folded os_def]
  note win = layout_window [OF so(8,2)]
  let ?e = "ss ! nat (count q - 1)" and ?m = "length (cstr_at b (last os))"
  have mem: "last os \<in> set os" using so(2) by (rule last_in_set)
  have t: "terminated_at b (last os)" using so(8) mem by (simp add: layout_def)
  have le: "hd os \<le> last os" using win(4) mem by blast
  have sl: "last os + ?m + 1 < 2 ^ 64" using win(5) so(9) by (simp add: seg_end_def)
  have "unat (?e - ss ! k0) = last os - hd os"
    using le so(5,6) by (simp add: unat_sub word_le_nat_alt)
  moreover have "unat (of_nat ?m + 1 :: 64 word) = ?m + 1"
  proof -
    have "(of_nat ?m + 1 :: 64 word) = of_nat (?m + 1)" by simp
    then show ?thesis using unat_of_nat_fits [where 'l = 64, of "?m + 1"] sl by (simp only:) simp
  qed
  ultimately have "unat (?e - ss ! k0 + (of_nat ?m + 1)) = last os - hd os + (?m + 1)"
    using sl by (subst unat_add_fits) auto
  also have "\<dots> = seg_end b (last os) - hd os" using le by (simp add: seg_end_def)
  finally show ?thesis
    using so(4) [of 0] t so(6) q k by (auto simp: work_span_def c_string_def)
qed

lemma suffix_packs:
  assumes wf: "queue_wf H q" and k: "0 < k" "k \<le> count q"
    and q: "base q = Some b" "strings q = Some ss"
  defines "k0 \<equiv> nat (count q - k)"
  defines "os \<equiv> drop k0 (offsets q)"
  defines "len \<equiv> seg_end b (last os) - hd os"
  assumes small: "int len \<le> INT32_MAX" "k + 2 \<le> INT32_MAX"
  shows "\<exists>offs buf. work_offsets q k (ss ! k0) = Inr offs
    \<and> memcpy_from (base q) (unat (ss ! k0)) len = Inr buf
    \<and> work_msg (CIRCLE_MAX_STRING_LEN H) (drop k0 (items q)) ([k, int len] @ offs) buf"
proof -
  note so = suffix_offsets [OF wf k q, folded k0_def, folded os_def]
  note win = layout_window [OF so(8,2), folded len_def]
  let ?s = "hd os"
  have le: "?s + len \<le> length b"
    using win(4) win(5) last_in_set [OF so(2)] seg_end_gt [of "last os" b] unfolding len_def
    by (metis le_add_diff_inverse less_imp_le order_trans)
  have one: "to_int32 (ss ! (k0 + i) - ss ! k0) = int (os ! i - ?s)" if "i < nat k" for i
  proof -
    have "os ! i \<in> set os" using that so(1) by (metis nth_mem)
    then have bd: "?s \<le> os ! i" "seg_end b (os ! i) \<le> ?s + len" using win(4) by blast+
    have "unat (ss ! (k0 + i) - ss ! k0) = os ! i - ?s"
      using bd(1) so(3) [OF that] so(5) by (simp add: unat_sub word_le_nat_alt)
    moreover have "os ! i - ?s \<le> nat INT32_MAX"
      using bd seg_end_gt [of "os ! i" b] small by linarith
    moreover have "of_nat (unat (ss ! (k0 + i) - ss ! k0)) = ss ! (k0 + i) - ss ! k0" by simp
    ultimately show ?thesis using to_int32_small [of "os ! i - ?s"] by simp
  qed
  have "for_list (\<lambda>i out. andThen (arr_get (strings q) (count q - k + int i))
        (\<lambda>off. Inr (out @ [to_int32 (off - ss ! k0)]))) [0..<j] []
      = Inr (map (\<lambda>i. int (os ! i - ?s)) [0..<j])" if "j \<le> nat k" for j
    using that by (induction j) (simp_all add: for_list_append so(4) one)
  from this [of "nat k"] have "work_offsets q k (ss ! k0) = Inr (map (\<lambda>i. int (os ! i - ?s)) [0..<length os])"
    using so(1) by (simp add: work_offsets_def)
  moreover have "map (\<lambda>i. int (os ! i - ?s)) [0..<length os] = map int (map (\<lambda>off. off - ?s) os)"
    by (rule nth_equalityI) simp_all
  moreover have "memcpy_from (base q) (unat (ss ! k0)) len = Inr (take len (drop ?s b))"
    using le q so(5) by (simp add: memcpy_from_def)
  moreover have "work_msg (CIRCLE_MAX_STRING_LEN H) (drop k0 (items q))
      ([k, int len] @ map int (map (\<lambda>off. off - ?s) os)) (take len (drop ?s b))"
    unfolding work_msg_def
    using win(1-3) so(1,2,10) small k
    by (intro exI [of _ "map (\<lambda>off. off - ?s) os"]) (simp add: hd_map)
  ultimately show ?thesis by metis
qed

lemma suffix_removed:
  assumes wf: "queue_wf H q" and k: "0 \<le> k" "k \<le> count q"
  shows "queue_wf H (q\<lparr>count := count q - k\<rparr>)"
    and "items (q\<lparr>count := count q - k\<rparr>) = take (nat (count q - k)) (items q)"
proof -
  from wf obtain b ss where q: "base q = Some b" "strings q = Some ss" "pool q = b"
      "offsets q = map unat (take (nat (count q)) ss)" 
      "layout (CIRCLE_MAX_STRING_LEN H) b (offsets q) (unat (head q))"
    by (rule queue_wfE)
  have o: "offsets (q\<lparr>count := count q - k\<rparr>) = take (nat (count q - k)) (offsets q)"
    using k q by (simp add: offsets_def take_map min_def)
  then show "items (q\<lparr>count := count q - k\<rparr>) = take (nat (count q - k)) (items q)"
    by (simp add: items_def pool_def take_map)
  show "queue_wf H (q\<lparr>count := count q - k\<rparr>)"
    using wf k q(1,2) o layout_prefix [of _ b "take (nat (count q - k)) (offsets q)" "drop (nat (count q - k)) (offsets q)"]
    by (auto simp: queue_wf_def)
qed

lemma layout_tight:
  assumes "layout mx b os h" and "os \<noteq> []"
  shows "layout mx b os (seg_end b (last os))"
proof -
  note w = layout_window [of mx b "[]" os h, simplified, OF assms]
  have "\<forall>off \<in> set os. seg_end b off \<le> seg_end b (last os)" using w(4,6) by simp
  with assms(1) w(5) show ?thesis by (simp add: layout_def sorted_wrt_append)
qed

lemma fill_strings:
  assumes "m \<le> length os" and "m \<le> length ss"
  shows "for_list (\<lambda>i ss. andThen (arr_get (Some (x # y # map int os @ rest)) (int i + 2))
      (\<lambda>v. arr_set ss (int i) (word_of_int v))) [0..<m] (Some ss)
    = Inr (Some (map of_nat (take m os) @ drop m ss))"
  using assms
proof (induction m)
  case (Suc m)
  have "nat (int m + 2) = Suc (Suc m)" by simp
  then have "arr_get (Some (x # y # map int os @ rest)) (int m + 2) = Inr (int (os ! m))"
    using Suc.prems by (simp add: nth_append)
  moreover have "arr_set (Some (map of_nat (take m os) @ drop m ss)) (int m) (word_of_int (int (os ! m)))
      = Inr (Some (map of_nat (take (Suc m) os) @ drop (Suc m) ss))"
    using Suc.prems by (simp add: take_Suc_conv_app_nth list_update_append Cons_nth_drop_Suc [symmetric])
  ultimately show ?case using Suc by (simp add: for_list_append)
qed simp

lemma unpack_result:
  assumes wf: "queue_wf H q" and cnt: "count q = 0" and ample: "mem_ample H"
    and b: "base q = Some b0" "length bs \<le> length b0"
    and msg: "work_msg (CIRCLE_MAX_STRING_LEN H) ws xs bs"
  defines "q1 \<equiv> q\<lparr>base := Some (bs @ drop (length bs) b0)\<rparr>"
  assumes ext: "hd xs > str_count q \<Longrightarrow> \<exists>r. CIRCLE_internal_queue_str_extend H q1 (hd xs) = Inr r"
  shows "\<exists>q'. work_unpack H q1 (Some (xs @ rest)) (hd xs) = Inr (0, q') \<and> queue_wf H q' \<and> items q' = ws"
proof -
  let ?mx = "CIRCLE_MAX_STRING_LEN H" and ?b = "bs @ drop (length bs) b0"
  from msg obtain os where os: "xs = int (length os) # int (length bs) # map int os" "os \<noteq> []"
      "hd os = 0" "layout ?mx bs os (length bs)" "map (cstr_at bs) os = ws"
    by (auto simp: work_msg_def)
  have lay: "layout ?mx ?b os (length bs)" "map (cstr_at ?b) os = ws"
    using layout_same_below [OF os(4), of ?b] os(5) b(2) by simp_all
  have wf1: "queue_wf H q1"
    using wf cnt b by (auto simp: queue_wf_def q1_def offsets_def layout_def split: option.splits)
  let ?ext = "if hd xs > str_count q1 then CIRCLE_internal_queue_str_extend H q1 (hd xs) else Inr (0, q1)"
  obtain q2 where q2: "?ext = Inr (0, q2)" "queue_wf H q2" "hd xs \<le> str_count q2" "base q2 = Some ?b"
  proof (cases "hd xs > str_count q1")
    case True
    obtain rc q2 where r: "CIRCLE_internal_queue_str_extend H q1 (hd xs) = Inr (rc, q2)"
      using ext True by (auto simp: q1_def)
    with str_extend_wf [OF wf1 ample r] True that show ?thesis by (auto simp: q1_def)
  qed (use wf1 that in \<open>auto simp: q1_def\<close>)
  then obtain ss where ss: "strings q2 = Some ss" "int (length ss) = str_count q2" "unat (bytes q2) = length ?b"
      "str_count q2 \<le> INT32_MAX"
    by (auto elim!: queue_wfE)
  define m where "m = length os"
  have m: "hd xs = int m" "m \<le> length ss" "0 < m" using os q2(3) ss by (auto simp: m_def)
  define q3 where "q3 = q2\<lparr>strings := Some (map of_nat os @ drop m ss)\<rparr>"
  have fill: "for_list (\<lambda>i ss. andThen (arr_get (Some (xs @ rest)) (int i + 2))
      (\<lambda>v. arr_set ss (int i) (word_of_int v))) [0..<m] (strings q2) = Inr (Some (map of_nat os @ drop m ss))"
    using fill_strings [of m os ss "int (length os)" "int (length bs)" rest] m ss os by (simp add: m_def)
  have lt: "off < 2 ^ 64" if "off \<in> set os" for off
  proof -
    have "terminated_at ?b off" using lay(1) that by (simp add: layout_def)
    then have "off < length ?b" using seg_end_le [of ?b off] seg_end_gt [of off ?b] by linarith
    also have "length ?b < 2 ^ 64" using ss(3) unsigned_less [of "bytes q2", where 'a = nat] by simp
    finally show ?thesis .
  qed
  have un: "map unat (map of_nat os :: 64 word list) = os"
    using lt by (simp add: map_idI unat_of_nat_fits)
  have lst: "(map of_nat os @ drop m ss) ! nat (int m - 1) = of_nat (last os)"
  proof -
    have "nat (int m - 1) = m - 1" "m - 1 < length os" using m by (auto simp: m_def)
    then show ?thesis using os(2) by (simp add: nth_append m_def last_conv_nth)
  qed
  have first: "(map of_nat os @ drop m ss) ! 0 = (0 :: 64 word)"
    using os(2,3) by (simp add: nth_append hd_conv_nth)
  have get: "arr_get (Some (map of_nat os @ drop m ss)) 0 = Inr (0 :: 64 word)"
      "arr_get (Some (map of_nat os @ drop m ss)) (int m - 1) = Inr (of_nat (last os))"
    using first lst m by (auto simp: m_def arr_get_def)
  let ?s = "cstr_at ?b (last os)"
  have t: "terminated_at ?b (last os)" "unat (of_nat (last os) :: 64 word) = last os"
    using lay(1) os(2) lt [of "last os"] by (simp_all add: layout_def unat_of_nat_fits)
  define q4 where "q4 = q3\<lparr>count := int m, head := of_nat (last os) + (of_nat (length ?s) + 1)\<rparr>"
  have run: "work_unpack H q1 (Some (xs @ rest)) (hd xs) = Inr (0, q4)"
    unfolding work_unpack_def q2(1) using q2(4) fill m(1) get t
    by (simp add: q3_def q4_def c_string_def Let_def)
  have "(of_nat (last os) + (of_nat (length ?s) + 1) :: 64 word) = of_nat (seg_end ?b (last os))"
    by (simp add: seg_end_def)
  moreover have "seg_end ?b (last os) < 2 ^ 64"
    using seg_end_le [OF t(1)] ss(3) unsigned_less [of "bytes q2", where 'a = nat] by simp
  ultimately have "unat (head q4) = seg_end ?b (last os)" by (simp add: q4_def unat_of_nat_fits)
  moreover have "offsets q4 = os" "pool q4 = ?b"
    using un m q2(4) by (simp_all add: offsets_def pool_def q3_def q4_def m_def)
  ultimately have "queue_wf H q4" "items q4 = ws"
    using layout_tight [OF lay(1) os(2)] lay(2) q2(3,4) ss m
    by (simp_all add: queue_wf_def items_def q3_def q4_def m_def)
  with run show ?thesis by blast
qed

section \<open>What a transfer does to the process and to the network\<close>

text \<open>Nothing but the queue, the table of sends and the bookkeeping of the transfer has changed.\<close>

definition sans_transfer :: "'u proc \<Rightarrow> 'u proc" where
  "sans_transfer p = (sans_sends p)\<lparr>token_proc := 0, seed := 0, work_outstanding := 0,
     offsets_count := 0, offsets_recv_buf := None, local_no_work_received := 0,
     queue := \<lparr>base = None, bytes = 0, head = 0, strings = None, str_count = 0, count = 0\<rparr>\<rparr>"

definition only_transfer :: "'u proc \<Rightarrow> 'u proc \<Rightarrow> bool" where
  "only_transfer p p' \<longleftrightarrow> sans_transfer p' = sans_transfer p"

lemma only_transfer_refl [simp]: "only_transfer p p"
  by (simp add: only_transfer_def)

lemma only_transfer_trans: "only_transfer p p' \<Longrightarrow> only_transfer p' p'' \<Longrightarrow> only_transfer p p''"
  by (simp add: only_transfer_def)

lemma only_transfer_update [simp]:
  "only_transfer p (p\<lparr>token_proc := a\<rparr>)" "only_transfer p (p\<lparr>seed := s\<rparr>)"
  "only_transfer p (p\<lparr>queue := q, work_outstanding := w\<rparr>)"
  "only_transfer p (p\<lparr>offsets_count := i, offsets_recv_buf := b\<rparr>)"
  "only_transfer p (p\<lparr>offsets_recv_buf := b, offsets_count := i\<rparr>)"
  "only_transfer p (p\<lparr>offsets_recv_buf := b\<rparr>)" "only_transfer p (p\<lparr>queue := q\<rparr>)"
  "only_transfer p (p\<lparr>local_no_work_received := w32\<rparr>)"
  by (simp_all add: only_transfer_def sans_transfer_def sans_sends_def)

lemma only_transfer_sends: "only_sends p p' \<Longrightarrow> only_transfer p p'"
  by (simp add: only_transfer_def sans_transfer_def only_sends_def)

lemma only_transfer_same:
  assumes "only_transfer p p'"
  shows "rank p' = rank p" "comm_size p' = comm_size p" "tree p' = tree p" "token_src p' = token_src p"
    "work_requested p' = work_requested p" "work_requested_rank p' = work_requested_rank p"
    "term_flag p' = term_flag p" "term_up p' = term_up p" "term_replies p' = term_replies p"
    "barrier_started p' = barrier_started p" "barrier_up p' = barrier_up p"
    "barrier_replies p' = barrier_replies p" "abort_state p' = abort_state p"
    "term_tree_enabled p' = term_tree_enabled p" "CIRCLE_ABORT_FLAG p' = CIRCLE_ABORT_FLAG p"
    "input p' = input p" "user p' = user p" "next_processor p' = next_processor p" "requestors p' = requestors p"
proof -
  have same: "f (sans_transfer p') = f (sans_transfer p)" for f
    using assms by (simp add: only_transfer_def)
  show "rank p' = rank p" "comm_size p' = comm_size p" "tree p' = tree p" "token_src p' = token_src p"
    "work_requested p' = work_requested p" "work_requested_rank p' = work_requested_rank p"
    "term_flag p' = term_flag p" "term_up p' = term_up p" "term_replies p' = term_replies p"
    "barrier_started p' = barrier_started p" "barrier_up p' = barrier_up p"
    "barrier_replies p' = barrier_replies p" "abort_state p' = abort_state p"
    "term_tree_enabled p' = term_tree_enabled p" "CIRCLE_ABORT_FLAG p' = CIRCLE_ABORT_FLAG p"
    "input p' = input p" "user p' = user p" "next_processor p' = next_processor p" "requestors p' = requestors p"
    using same [of rank] same [of comm_size] same [of tree] same [of token_src] same [of work_requested]
      same [of work_requested_rank] same [of term_flag] same [of term_up] same [of term_replies]
      same [of barrier_started] same [of barrier_up] same [of barrier_replies] same [of abort_state]
      same [of term_tree_enabled] same [of CIRCLE_ABORT_FLAG] same [of input] same [of user]
      same [of next_processor] same [of requestors]
    by (simp_all add: sans_transfer_def sans_sends_def)
qed

text \<open>One message appended to a channel.\<close>

definition put :: "(channel \<Rightarrow> payload list) \<Rightarrow> channel \<Rightarrow> payload \<Rightarrow> channel \<Rightarrow> payload list" where
  "put c k m = c(k := c k @ [m])"

lemma put_apply: "put c k m j = (if j = k then c k @ [m] else c j)"
  by (simp add: put_def)

lemma send_no_work_run:
  assumes comm: "mpi_comm E chan posted" and wf: "sends_wf p" and ample: "mem_ample E"
    and run: "CIRCLE_send_no_work E p n dest = Inr (p', n')"
  shows "only_sends p p' \<and> sends_wf p' \<and> posted n' = posted n
    \<and> chan n' = put (chan n) (rank p, dest, CIRCLE_TAG_WORK_REPLY)
        (Ints [if CIRCLE_ABORT_FLAG p \<noteq> 0 then PAYLOAD_ABORT else 0])"
proof -
  define v where "v = (if CIRCLE_ABORT_FLAG p \<noteq> 0 then PAYLOAD_ABORT else 0)"
  obtain r n1 where s: "mpi_isend E n (rank p) dest CIRCLE_TAG_WORK_REPLY (Ints [v]) = (r, n1)" by fastforce
  then have t: "CIRCLE_worksend_track E p n1 (MPI_Req r) (Some (Ints [v, 0])) = Inr (p', n')"
    using run ample by (simp add: CIRCLE_send_no_work_def v_def)
  from track_result [OF wf t ample] mpi_comm.isend_adds [OF comm s] show ?thesis
    by (simp add: v_def put_def)
qed

lemma send_no_work_total:
  assumes "sends_wf p" and "mem_ample E" and "2 * send_count p \<le> INT32_MAX"
  shows "\<exists>p' n'. CIRCLE_send_no_work E p n dest = Inr (p', n') \<and> send_count p' = send_count p + 1"
proof -
  define v where "v = (if CIRCLE_ABORT_FLAG p \<noteq> 0 then PAYLOAD_ABORT else 0)"
  obtain r n1 where s: "mpi_isend E n (rank p) dest CIRCLE_TAG_WORK_REPLY (Ints [v]) = (r, n1)" by fastforce
  then have "CIRCLE_send_no_work E p n dest
      = CIRCLE_worksend_track E p n1 (MPI_Req r) (Some (Ints [v, 0]))"
    using assms(2) by (simp add: CIRCLE_send_no_work_def v_def)
  with track_total [OF assms, of n1 "MPI_Req r" "Some (Ints [v, 0])"] show ?thesis by auto
qed

lemma backoff_result:
  assumes "\<And>j. 0 < j \<Longrightarrow> j \<le> cnt \<Longrightarrow> \<exists>r. work_span q e j = Inr r"
    and "0 < cnt" and "work_span q e cnt = Inr (start, len)"
  shows "\<exists>k s l. backoff_loop q e cnt start len = Inr (k, s, l) \<and> 0 < k \<and> k \<le> cnt
    \<and> work_span q e k = Inr (s, l) \<and> (l > 2147483647 \<longrightarrow> k = 1) \<and> (\<not> len > 2147483647 \<longrightarrow> k = cnt)"
  using assms
proof (induction q e cnt start len rule: backoff_loop.induct)
  case (1 q e cnt start len)
  show ?case
  proof (cases "len > 2147483647 \<and> cnt > 1")
    case False
    with 1 show ?thesis by (subst backoff_loop.simps) auto
  next
    case True
    define j where "j = (if cnt - cnt sdiv 10 \<ge> cnt then cnt - 1 else cnt - cnt sdiv 10)"
    have "0 \<le> cnt sdiv 10" "cnt sdiv 10 < cnt"
      using True by (auto simp: signed_divide_int_def)
    then have j: "0 < j" "j < cnt" using True by (auto simp: j_def)
    then obtain s l where sl: "work_span q e j = Inr (s, l)" using "1.prems"(1) [of j] by auto
    have "backoff_loop q e cnt start len = backoff_loop q e j s l"
      using True sl by (subst backoff_loop.simps) (simp add: j_def Let_def)
    moreover have IH: "\<exists>k s' l'. backoff_loop q e j s l = Inr (k, s', l') \<and> 0 < k \<and> k \<le> j
        \<and> work_span q e k = Inr (s', l') \<and> (l' > 2147483647 \<longrightarrow> k = 1) \<and> (\<not> l > 2147483647 \<longrightarrow> k = j)"
    proof (rule "1.IH" [OF True refl j_def sl refl])
      show "0 < j" by (rule j)
      show "work_span q e j = Inr (s, l)" by (rule sl)
      show "\<exists>r. work_span q e i = Inr r" if "0 < i" "i \<le> j" for i
        using "1.prems"(1) [of i] that j by simp
    qed
    from IH obtain k s' l' where "backoff_loop q e j s l = Inr (k, s', l')" "0 < k" "k \<le> j"
      "work_span q e k = Inr (s', l')" "l' > 2147483647 \<longrightarrow> k = 1" by blast
    ultimately show ?thesis using j True by auto
  qed
qed

lemma word_gt_int32: "(l :: 64 word) > 2147483647 \<longleftrightarrow> int (unat l) > INT32_MAX"
  by (simp add: word_less_def INT32_MAX_def)

text \<open>
  The computations of \<open>CIRCLE_send_work\<close> on the queue: they stay in bounds, the back-off ends with
  a message that fits, and the message encodes the last \<open>k\<close> strings.
\<close>

lemma send_work_packs:
  assumes wf: "queue_wf H q" and c: "0 < cnt" "cnt \<le> count q"
    and mx: "int (CIRCLE_MAX_STRING_LEN H) \<le> INT32_MAX"
  obtains e start len k s l where "arr_get (strings q) (count q - 1) = Inr e"
    and "work_span q e cnt = Inr (start, len)" and "backoff_loop q e cnt start len = Inr (k, s, l)"
    and "0 < k" and "k \<le> cnt" and "\<not> l > 2147483647"
    and "int (unat (head q)) \<le> INT32_MAX \<longrightarrow> k = cnt"
    and "k + 2 \<le> INT32_MAX \<longrightarrow> (\<exists>offs buf. work_offsets q k s = Inr offs
      \<and> memcpy_from (base q) (unat s) (unat l) = Inr buf
      \<and> work_msg (CIRCLE_MAX_STRING_LEN H) (drop (nat (count q - k)) (items q)) ([k, int (unat l)] @ offs) buf)"
proof -
  from wf obtain b ss where q: "base q = Some b" "strings q = Some ss" by (rule queue_wfE)
  let ?e = "ss ! nat (count q - 1)"
  let ?os = "\<lambda>k. drop (nat (count q - k)) (offsets q)"
  note so = suffix_offsets [OF wf _ _ q] and sp = suffix_span [OF wf _ _ q]
  have total: "\<exists>r. work_span q ?e j = Inr r" if "0 < j" "j \<le> cnt" for j
    using sp [of j] that c by fastforce
  then obtain start len where sl: "work_span q ?e cnt = Inr (start, len)" using c by fastforce
  from backoff_result [OF total c(1) sl] obtain k s l where
    k: "backoff_loop q ?e cnt start len = Inr (k, s, l)" "0 < k" "k \<le> cnt"
      "work_span q ?e k = Inr (s, l)" "l > 2147483647 \<longrightarrow> k = 1" "\<not> len > 2147483647 \<longrightarrow> k = cnt" by blast
  have kc: "k \<le> count q" using k(3) c by simp
  from sp [OF k(2) kc] k(4) have s: "s = ss ! nat (count q - k)"
      "unat l = seg_end b (last (?os k)) - hd (?os k)" by auto
  have small: "\<not> l > 2147483647"
  proof (cases "k = 1")
    case True
    then have one: "length (?os k) = 1" "?os k \<noteq> []" using so(1,2) [OF k(2) kc] by simp_all
    then obtain x where x: "?os k = [x]" by (metis One_nat_def length_0_conv length_Suc_conv)
    then have "length (cstr_at b x) < CIRCLE_MAX_STRING_LEN H"
      using so(8) [OF k(2) kc] by (simp add: layout_def)
    moreover have "unat l = length (cstr_at b x) + 1" using s(2) x by (simp add: seg_end_def)
    ultimately show ?thesis using mx by (simp add: word_gt_int32)
  qed (use k(5) in blast)
  have whole: "int (unat (head q)) \<le> INT32_MAX \<longrightarrow> k = cnt"
  proof
    assume h: "int (unat (head q)) \<le> INT32_MAX"
    have "unat len = seg_end b (last (?os cnt)) - hd (?os cnt)" using sp [OF c] sl by auto
    moreover have "seg_end b (last (?os cnt)) \<le> unat (head q)"
      using layout_below [OF so(8) [OF c], of "last (?os cnt)"] in_set_dropD [OF last_in_set [OF so(2) [OF c]]]
      by simp
    ultimately have "unat len \<le> unat (head q)" by linarith
    then have "\<not> len > 2147483647" using h unfolding word_gt_int32 by linarith
    with k(6) show "k = cnt" by blast
  qed
  show ?thesis
  proof (rule that [OF so(7) [OF c] sl k(1-3) small whole], rule)
    assume "k + 2 \<le> INT32_MAX"
    moreover have "int (seg_end b (last (?os k)) - hd (?os k)) \<le> INT32_MAX"
      using small unfolding word_gt_int32 s(2) by simp
    ultimately show "\<exists>offs buf. work_offsets q k s = Inr offs
      \<and> memcpy_from (base q) (unat s) (unat l) = Inr buf
      \<and> work_msg (CIRCLE_MAX_STRING_LEN H) (drop (nat (count q - k)) (items q)) ([k, int (unat l)] @ offs) buf"
      using suffix_packs [OF wf k(2) kc q] unfolding s by blast
  qed
qed

lemma send_work_run:
  assumes comm: "mpi_comm E chan posted" and wf: "queue_wf E (queue p)" and sw: "sends_wf p"
    and ample: "mem_ample E" and c: "0 < cnt" "cnt \<le> count (queue p)"
    and mx: "int (CIRCLE_MAX_STRING_LEN E) \<le> INT32_MAX"
    and run: "CIRCLE_send_work E p n dest cnt = Inr (rc, p', n')"
  shows "\<exists>k xs bs. rc = 0 \<and> 0 < k \<and> k \<le> cnt \<and> (int (unat (head (queue p))) \<le> INT32_MAX \<longrightarrow> k = cnt)
    \<and> work_msg (CIRCLE_MAX_STRING_LEN E) (drop (nat (count (queue p) - k)) (items (queue p))) xs bs
    \<and> chan n' = put (put (chan n) (rank p, dest, CIRCLE_TAG_WORK_REPLY) (Ints xs))
        (rank p, dest, CIRCLE_TAG_WORK_REPLY) (Bytes bs)
    \<and> posted n' = posted n \<and> queue p' = (queue p)\<lparr>count := count (queue p) - k\<rparr>
    \<and> work_outstanding p' = work_outstanding p + 1 \<and> sends_wf p' \<and> only_transfer p p'
    \<and> token_proc p' = (if dest < rank p \<or> dest = token_src p then BLACK else token_proc p)"
proof -
  obtain e start len k s l where pk: "arr_get (strings (queue p)) (count (queue p) - 1) = Inr e"
      "work_span (queue p) e cnt = Inr (start, len)" "backoff_loop (queue p) e cnt start len = Inr (k, s, l)"
      "0 < k" "k \<le> cnt" "\<not> l > 2147483647" "int (unat (head (queue p))) \<le> INT32_MAX \<longrightarrow> k = cnt"
      "k + 2 \<le> INT32_MAX \<longrightarrow> (\<exists>offs buf. work_offsets (queue p) k s = Inr offs
      \<and> memcpy_from (base (queue p)) (unat s) (unat l) = Inr buf
      \<and> work_msg (CIRCLE_MAX_STRING_LEN E) (drop (nat (count (queue p) - k)) (items (queue p))) ([k, int (unat l)] @ offs) buf)"
    by (rule send_work_packs [OF wf c mx])
  define p1 where "p1 = (if dest < rank p \<or> dest = token_src p then p\<lparr>token_proc := BLACK\<rparr> else p)"
  have p1: "queue p1 = queue p" "rank p1 = rank p" "sends_wf p1" "only_transfer p p1"
      "work_outstanding p1 = work_outstanding p"
      "token_proc p1 = (if dest < rank p \<or> dest = token_src p then BLACK else token_proc p)"
    using sw by (auto simp: p1_def sends_wf_def)
  have small: "k + 2 \<le> INT32_MAX"
    using run c pk(1-6) by (auto simp: CIRCLE_send_work_def Let_def p1_def [symmetric] p1 c_int_def split: if_splits)
  with pk(8) obtain offs buf where msg: "work_offsets (queue p) k s = Inr offs"
      "memcpy_from (base (queue p)) (unat s) (unat l) = Inr buf"
      "work_msg (CIRCLE_MAX_STRING_LEN E) (drop (nat (count (queue p) - k)) (items (queue p))) ([k, int (unat l)] @ offs) buf"
    by blast
  have ci: "c_int (2 + k) = Inr (2 + k)" using small pk(4) by (simp add: c_int_def INT32_MAX_def)
  let ?xs = "[k, int (unat l)] @ offs"
  obtain r1 n1 where s1: "mpi_isend E n (rank p) dest CIRCLE_TAG_WORK_REPLY (Ints ?xs) = (r1, n1)" by fastforce
  from run c pk(1-6) msg ci s1 ample obtain p2 n2 where
    t1: "CIRCLE_worksend_track E p1 n1 (MPI_Req r1) (Some (Ints ?xs)) = Inr (p2, n2)"
    by (auto simp: CIRCLE_send_work_def Let_def p1_def [symmetric] p1 outcome)
  note tr1 = track_result [OF p1(3) t1 ample]
  have q2: "queue p2 = queue p" "rank p2 = rank p" using only_sends_proc [OF tr1(4)] only_sends_same(1) [OF tr1(4)] p1 by simp_all
  obtain r2 n3 where s2: "mpi_isend E n2 (rank p) dest CIRCLE_TAG_WORK_REPLY (Bytes buf) = (r2, n3)" by fastforce
  from run c pk(1-6) msg ci s1 ample t1 s2 q2 obtain p3 n4 where
    t2: "CIRCLE_worksend_track E p2 n3 (MPI_Req r2) (Some (Bytes buf)) = Inr (p3, n4)"
    and fin: "rc = 0" "n' = n4" "p' = p3\<lparr>queue := (queue p3)\<lparr>count := count (queue p3) - k\<rparr>,
                       work_outstanding := work_outstanding p3 + 1\<rparr>"
    by (auto simp: CIRCLE_send_work_def Let_def p1_def [symmetric] p1 outcome)
  note tr2 = track_result [OF tr1(2) t2 ample]
  have o13: "only_sends p1 p3" using tr1(4) tr2(4) by (rule only_sends_trans)
  note same = only_sends_proc [OF o13] only_sends_same [OF o13]
  have "only_transfer p p'"
    using only_transfer_trans [OF p1(4)] only_transfer_sends [OF o13] fin(3)
    by (metis only_transfer_trans only_transfer_update(3))
  moreover have "sends_wf p'" using tr2(2) fin(3) by (auto simp: sends_wf_def)
  ultimately show ?thesis
    using fin same p1 msg(3) pk mpi_comm.isend_adds [OF comm s1] mpi_comm.isend_adds [OF comm s2] tr1(1) tr2(1)
    by (intro exI [of _ k] exI [of _ ?xs] exI [of _ buf]) (simp add: put_def)
qed

lemma send_work_total:
  assumes wf: "queue_wf E (queue p)" and sw: "sends_wf p" and ample: "mem_ample E"
    and c: "0 < cnt" "cnt \<le> count (queue p)" and mx: "int (CIRCLE_MAX_STRING_LEN E) \<le> INT32_MAX"
    and small: "cnt + 2 \<le> INT32_MAX" "2 * (send_count p + 1) \<le> INT32_MAX"
  shows "\<exists>r. CIRCLE_send_work E p n dest cnt = Inr r"
proof -
  obtain e start len k s l where pk: "arr_get (strings (queue p)) (count (queue p) - 1) = Inr e"
      "work_span (queue p) e cnt = Inr (start, len)" "backoff_loop (queue p) e cnt start len = Inr (k, s, l)"
      "0 < k" "k \<le> cnt" "\<not> l > 2147483647"
      "k + 2 \<le> INT32_MAX \<longrightarrow> (\<exists>offs buf. work_offsets (queue p) k s = Inr offs
      \<and> memcpy_from (base (queue p)) (unat s) (unat l) = Inr buf
      \<and> work_msg (CIRCLE_MAX_STRING_LEN E) (drop (nat (count (queue p) - k)) (items (queue p))) ([k, int (unat l)] @ offs) buf)"
    by (rule send_work_packs [OF wf c mx]) blast
  then obtain offs buf where msg: "work_offsets (queue p) k s = Inr offs"
      "memcpy_from (base (queue p)) (unat s) (unat l) = Inr buf" using small by auto
  have ci: "c_int (2 + k) = Inr (2 + k)" using small pk(4,5) by (simp add: c_int_def INT32_MAX_def)
  define p1 where "p1 = (if dest < rank p \<or> dest = token_src p then p\<lparr>token_proc := BLACK\<rparr> else p)"
  have p1: "queue p1 = queue p" "rank p1 = rank p" "sends_wf p1" "send_count p1 = send_count p"
    using sw by (auto simp: p1_def sends_wf_def)
  have sc: "2 * send_count p1 \<le> INT32_MAX" using small p1 by simp
  obtain r1 n1 where s1: "mpi_isend E n (rank p) dest CIRCLE_TAG_WORK_REPLY (Ints ([k, int (unat l)] @ offs)) = (r1, n1)"
    by fastforce
  obtain p2 where t1: "CIRCLE_worksend_track E p1 n1 (MPI_Req r1) (Some (Ints ([k, int (unat l)] @ offs))) = Inr (p2, n1)"
      "sends_wf p2" "only_sends p1 p2" "send_count p2 = send_count p1 + 1"
    using track_total [OF p1(3) ample sc, of n1 "MPI_Req r1"] by blast
  have q2: "queue p2 = queue p" "rank p2 = rank p"
    using only_sends_proc [OF t1(3)] only_sends_same(1) [OF t1(3)] p1 by simp_all
  obtain r2 n3 where s2: "mpi_isend E n1 (rank p) dest CIRCLE_TAG_WORK_REPLY (Bytes buf) = (r2, n3)" by fastforce
  obtain p3 where t2: "CIRCLE_worksend_track E p2 n3 (MPI_Req r2) (Some (Bytes buf)) = Inr (p3, n3)"
    using track_total [OF t1(2) ample, of n3 "MPI_Req r2"] small t1(4) p1 by auto
  show ?thesis
    using c pk(1-6) msg ci s1 t1(1) s2 t2 q2 ample
    by (auto simp: CIRCLE_send_work_def Let_def p1_def [symmetric] p1)
qed

lemma extend_offsets_run:
  assumes "CIRCLE_extend_offsets E st sz = Inr (rc, st')" and "mem_ample E"
  shows "rc = 0" and "st' = st\<lparr>offsets_recv_buf := offsets_recv_buf st', offsets_count := offsets_count st'\<rparr>"
  using assms
  by (auto simp: CIRCLE_extend_offsets_def outcome Let_def realloc_arr_def split: if_splits option.splits)

text \<open>What can be waiting on a reply channel: a refusal, an abort, or work in two messages.\<close>

lemma work_receive_refused:
  assumes comm: "mpi_comm E chan posted" and ch: "chan n (src, rank p, CIRCLE_TAG_WORK_REPLY) = Ints [v] # rest"
    and v: "v = 0 \<or> v = PAYLOAD_ABORT" and ample: "mem_ample E"
    and run: "CIRCLE_work_receive E p n src 1 = Inr (rc, p', n')"
  shows "chan n' = (chan n)((src, rank p, CIRCLE_TAG_WORK_REPLY) := rest) \<and> posted n' = posted n
    \<and> queue p' = queue p \<and> CIRCLE_ABORT_FLAG p' = (if v = 0 then CIRCLE_ABORT_FLAG p else 1)
    \<and> only_transfer (p\<lparr>CIRCLE_ABORT_FLAG := CIRCLE_ABORT_FLAG p'\<rparr>) p'
    \<and> work_outstanding p' = work_outstanding p \<and> token_proc p' = token_proc p
    \<and> requestors p' = requestors p \<and> (sends_wf p \<longrightarrow> sends_wf p')"
proof -
  obtain rc0 p1 where ext: "CIRCLE_extend_offsets E p 1 = Inr (rc0, p1)"
    using run by (auto simp: CIRCLE_work_receive_def outcome)
  note p1 = extend_offsets_run [OF ext ample]
  then obtain b i where b: "p1 = p\<lparr>offsets_recv_buf := b, offsets_count := i\<rparr>" by blast
  have rk: "rank p1 = rank p" using b by simp
  from run ext p1(1) obtain xs n1 buf where
    rcv: "recv_ints E n (rank p) src CIRCLE_TAG_WORK_REPLY 1 = Inr (xs, n1)"
    and into: "recv_into (offsets_recv_buf p1) xs = Inr buf"
    by (auto simp: CIRCLE_work_receive_def outcome rk)
  from rcv obtain m where m: "MPI_Recv E n (rank p) src CIRCLE_TAG_WORK_REPLY = Inr (m, n1)" "m = Ints xs"
    by (simp add: recv_eqs)
  note rt = mpi_comm.MPI_Recv_takes [OF comm m(1)]
  have xs: "xs = [v]" using rt ch m(2) by auto
  then have g: "arr_get buf 0 = Inr v"
    using into by (auto simp: recv_into_def split: option.splits if_splits)
  have fin: "n' = n1" "p' = (if v = 0 then p1\<lparr>offsets_recv_buf := buf, local_no_work_received := local_no_work_received p + 1\<rparr>
      else p1\<lparr>offsets_recv_buf := buf, CIRCLE_ABORT_FLAG := 1\<rparr>)"
    using run ext p1(1) rcv into g v b by (auto simp: CIRCLE_work_receive_def rk Let_def)
  have sw: "sends_wf p \<longrightarrow> sends_wf p'" using fin b by (auto simp: sends_wf_def)
  have "only_transfer (p\<lparr>CIRCLE_ABORT_FLAG := CIRCLE_ABORT_FLAG p'\<rparr>) p'"
    using fin b by (simp add: only_transfer_def sans_transfer_def sans_sends_def)
  with sw fin b v rt ch m(2) show ?thesis by auto
qed

text \<open>The receive of work, with everything before the unpacking done.\<close>

lemma work_receive_steps:
  assumes "xs = int (length os) # int (length bs) # map int os" and "os \<noteq> []"
    and "CIRCLE_extend_offsets E p (int (length xs)) = Inr (0, p1)" and "rank p1 = rank p" "queue p1 = queue p"
    and "recv_ints E n (rank p) src CIRCLE_TAG_WORK_REPLY (int (length xs)) = Inr (xs, n1)"
    and "recv_into (offsets_recv_buf p1) xs = Inr buf"
    and "arr_get buf 0 = Inr (int (length os))" "arr_get buf 1 = Inr (int (length bs))"
    and "(if head (queue p) + word_of_int (int (length bs)) > bytes (queue p)
      then CIRCLE_internal_queue_extend E (queue p) (head (queue p) + word_of_int (int (length bs)))
      else Inr (0, queue p)) = Inr (0, q1)"
    and "recv_bytes E n1 (rank p) src CIRCLE_TAG_WORK_REPLY (int (length bs)) = Inr (bs, n2)"
  shows "CIRCLE_work_receive E p n src (int (length xs)) =
      andThen (recv_into (base q1) bs) (\<lambda>b.
      andThen (work_unpack E (q1\<lparr>base := b\<rparr>) buf (int (length os))) (\<lambda>(rc, qp).
      let p = p1\<lparr>offsets_recv_buf := buf, queue := qp\<rparr>
      in if rc < 0 then Inr (-1, p, mpi_abort E n2 LIBCIRCLE_MPI_ERROR) else
      case mpi_isend E n2 (rank p) src CIRCLE_TAG_WORK_RECEIPT (Bytes []) of (r, n) \<Rightarrow>
      andThen (CIRCLE_worksend_track E p n (MPI_Req r) None) (\<lambda>(p, n). Inr (0, p, n))))"
  using assms by (simp add: CIRCLE_work_receive_def Let_def cong: if_cong)

text \<open>Work arriving at an empty queue.\<close>

lemma work_receive_work:
  assumes comm: "mpi_comm E chan posted"
    and ch: "chan n (src, rank p, CIRCLE_TAG_WORK_REPLY) = Ints xs # Bytes bs # rest"
    and msg: "work_msg (CIRCLE_MAX_STRING_LEN E) ws xs bs"
    and wf: "queue_wf E (queue p)" and cnt: "count (queue p) = 0" and sw: "sends_wf p"
    and ample: "mem_ample E"
    and run: "CIRCLE_work_receive E p n src (int (length xs)) = Inr (rc, p', n')"
  shows "rc = 0 \<and> queue_wf E (queue p') \<and> items (queue p') = ws \<and> sends_wf p' \<and> only_transfer p p'
    \<and> posted n' = posted n \<and> work_outstanding p' = work_outstanding p \<and> token_proc p' = token_proc p
    \<and> requestors p' = requestors p
    \<and> chan n' = put ((chan n)((src, rank p, CIRCLE_TAG_WORK_REPLY) := rest))
        (rank p, src, CIRCLE_TAG_WORK_RECEIPT) (Bytes [])"
proof -
  from msg obtain os where os: "xs = int (length os) # int (length bs) # map int os" "os \<noteq> []"
    by (auto simp: work_msg_def)
  obtain rc0 p1 where ext: "CIRCLE_extend_offsets E p (int (length xs)) = Inr (rc0, p1)"
    using run os by (auto simp: CIRCLE_work_receive_def outcome)
  note p1 = extend_offsets_run [OF ext ample]
  then obtain b i where b: "p1 = p\<lparr>offsets_recv_buf := b, offsets_count := i\<rparr>" by blast
  have rk: "rank p1 = rank p" "queue p1 = queue p" using b by simp_all
  obtain n1 where r1: "MPI_Recv E n (rank p) src CIRCLE_TAG_WORK_REPLY = Inr (Ints xs, n1)"
      "chan n1 = (chan n)((src, rank p, CIRCLE_TAG_WORK_REPLY) := Bytes bs # rest)" "posted n1 = posted n"
    using mpi_comm.MPI_Recv_gets [OF comm ch] by blast
  then have ri: "recv_ints E n (rank p) src CIRCLE_TAG_WORK_REPLY (int (length xs)) = Inr (xs, n1)"
    by (simp add: recv_eqs)
  from run ext p1(1) ri os(1) obtain buf where into: "recv_into (offsets_recv_buf p1) xs = Inr buf"
    by (auto simp: CIRCLE_work_receive_def outcome rk)
  then obtain tl where buf: "buf = Some (xs @ tl)" by (auto simp: recv_into_def split: option.splits if_splits)
  then have g: "arr_get buf 0 = Inr (int (length os))" "arr_get buf 1 = Inr (int (length bs))"
    using os(1) by simp_all
  define p2 where "p2 = p1\<lparr>offsets_recv_buf := buf\<rparr>"
  let ?nb = "head (queue p) + word_of_int (int (length bs))"
  let ?ext = "if ?nb > bytes (queue p) then CIRCLE_internal_queue_extend E (queue p) ?nb else Inr (0, queue p)"
  from run ext p1(1) ri into g os obtain rc1 q1 where q1: "?ext = Inr (rc1, q1)"
    by (auto simp: CIRCLE_work_receive_def outcome rk Let_def cong: if_cong)
  have q1': "rc1 = 0" "queue_wf E q1" "count q1 = 0"
    using q1 extend_wf [OF wf ample, of ?nb] wf cnt by (auto split: if_splits)
  obtain n2 where r2: "MPI_Recv E n1 (rank p) src CIRCLE_TAG_WORK_REPLY = Inr (Bytes bs, n2)"
      "chan n2 = (chan n)((src, rank p, CIRCLE_TAG_WORK_REPLY) := rest)" "posted n2 = posted n"
    using mpi_comm.MPI_Recv_gets [OF comm, of n1 src "rank p" CIRCLE_TAG_WORK_REPLY "Bytes bs" rest] r1 by auto
  then have rb: "recv_bytes E n1 (rank p) src CIRCLE_TAG_WORK_REPLY (int (length bs)) = Inr (bs, n2)"
    by (simp add: recv_eqs)
  note step = work_receive_steps [OF os ext [unfolded p1(1)] rk ri into g q1 [unfolded q1'(1)] rb, folded p2_def]
  from run obtain b' rc2 q2 where into2: "recv_into (base q1) bs = Inr b'"
    and un: "work_unpack E (q1\<lparr>base := b'\<rparr>) buf (int (length os)) = Inr (rc2, q2)"
    unfolding step by (auto simp: outcome)
  from into2 obtain b0 where b0: "base q1 = Some b0" "length bs \<le> length b0" "b' = Some (bs @ drop (length bs) b0)"
    by (auto simp: recv_into_def split: option.splits if_splits)
  have hd: "hd xs = int (length os)" using os by simp
  have "\<exists>q'. work_unpack E (q1\<lparr>base := b'\<rparr>) (Some (xs @ tl)) (hd xs) = Inr (0, q') \<and> queue_wf E q' \<and> items q' = ws"
    unfolding b0(3)
  proof (rule unpack_result [OF q1'(2,3) ample b0(1,2) msg])
    assume "str_count q1 < hd xs"
    then show "\<exists>r. CIRCLE_internal_queue_str_extend E (q1\<lparr>base := Some (bs @ drop (length bs) b0)\<rparr>) (hd xs) = Inr r"
      using un b0(3) hd by (auto simp: work_unpack_def outcome)
  qed
  then have q2: "rc2 = 0" "queue_wf E q2" "items q2 = ws" using un hd buf by auto
  define p3 where "p3 = p2\<lparr>queue := q2\<rparr>"
  have rk2: "rank p2 = rank p" by (simp add: p2_def rk)
  have p3: "rank p3 = rank p" "sends_wf p3" "only_transfer p p3" "work_outstanding p3 = work_outstanding p"
      "token_proc p3 = token_proc p" "requestors p3 = requestors p" "queue p3 = q2"
    using sw by (auto simp: p3_def p2_def b sends_wf_def only_transfer_def sans_transfer_def sans_sends_def)
  obtain r n3 where s: "mpi_isend E n2 (rank p) src CIRCLE_TAG_WORK_RECEIPT (Bytes []) = (r, n3)" by fastforce
  have t: "CIRCLE_worksend_track E p3 n3 (MPI_Req r) None = Inr (p', n')" "rc = 0"
    using run s p3 into2 un q2(1) rk2 unfolding step by (auto simp: Let_def p3_def [symmetric] outcome)
  note tr = track_result [OF p3(2) t(1) ample]
  show ?thesis
    using t(2) tr only_sends_proc [OF tr(4)] only_sends_same [OF tr(4)] p3 q2 r2 mpi_comm.isend_adds [OF comm s]
      only_transfer_trans [OF p3(3) only_transfer_sends [OF tr(4)]]
    by (simp add: put_def)
qed

text \<open>
  Room for a work message: the table of offsets and the queue can take it without leaving the
  range of their counters.
\<close>

definition receive_room :: "('n, 'z) mpi_scheme \<Rightarrow> 'u proc \<Rightarrow> nat \<Rightarrow> nat \<Rightarrow> bool" where
  "receive_room E p m len \<longleftrightarrow>
     (\<exists>buf. offsets_recv_buf p = Some buf \<and> int (length buf) = offsets_count p)
     \<and> 0 \<le> offsets_count p \<and> offsets_count p \<le> INT32_MAX \<and> int m + 2 + 4095 \<le> INT32_MAX
     \<and> 0 < sc_pagesize E * 4096
     \<and> unat (head (queue p)) + len + unat (sc_pagesize E * 4096) \<le> 2 ^ 64
     \<and> 2 * send_count p \<le> INT32_MAX"

lemma work_receive_total:
  assumes comm: "mpi_comm E chan posted"
    and ch: "chan n (src, rank p, CIRCLE_TAG_WORK_REPLY) = Ints xs # Bytes bs # rest"
    and msg: "work_msg (CIRCLE_MAX_STRING_LEN E) ws xs bs"
    and wf: "queue_wf E (queue p)" and cnt: "count (queue p) = 0" and sw: "sends_wf p"
    and ample: "mem_ample E" and room: "receive_room E p (length ws) (length bs)"
  shows "\<exists>r. CIRCLE_work_receive E p n src (int (length xs)) = Inr r"
proof -
  from msg obtain os where os: "xs = int (length os) # int (length bs) # map int os" "os \<noteq> []"
      "length os = length ws"
    by (auto simp: work_msg_def)
  let ?sz = "int (length xs)"
  from room obtain buf0 where b0: "offsets_recv_buf p = Some buf0" "int (length buf0) = offsets_count p"
      "offsets_count p \<le> INT32_MAX" "int (length ws) + 2 + 4095 \<le> INT32_MAX" "0 < sc_pagesize E * 4096"
      "unat (head (queue p)) + length bs + unat (sc_pagesize E * 4096) \<le> 2 ^ 64" "2 * send_count p \<le> INT32_MAX"
    by (auto simp: receive_room_def)
  have sz: "?sz = int (length ws) + 2" using os by simp
  obtain p1 b1 where ext: "CIRCLE_extend_offsets E p ?sz = Inr (0, p1)" "offsets_recv_buf p1 = Some b1"
      "length xs \<le> length b1"
  proof (cases "?sz \<le> offsets_count p")
    case True
    with b0 that [of p buf0] show ?thesis by (simp add: CIRCLE_extend_offsets_def)
  next
    case False
    obtain c where c: "str_count_loop (offsets_count p) ?sz = Inr c"
      using str_count_loop_total [of ?sz "offsets_count p"] b0(3,4) sz by auto
    from str_count_loop_result [OF c] have "?sz \<le> c" "offsets_count p \<le> c" by auto
    with False c ample b0(1,2) that show ?thesis
      by (simp add: CIRCLE_extend_offsets_def realloc_arr_grow Let_def)
  qed
  from extend_offsets_run(2) [OF ext(1) ample] obtain bb i where
    p1: "p1 = p\<lparr>offsets_recv_buf := bb, offsets_count := i\<rparr>" by blast
  have rk: "rank p1 = rank p" "queue p1 = queue p" "send_count p1 = send_count p" using p1 by simp_all
  obtain n1 where r1: "MPI_Recv E n (rank p) src CIRCLE_TAG_WORK_REPLY = Inr (Ints xs, n1)"
      "chan n1 = (chan n)((src, rank p, CIRCLE_TAG_WORK_REPLY) := Bytes bs # rest)"
    using mpi_comm.MPI_Recv_gets [OF comm ch] by blast
  then have ri: "recv_ints E n (rank p) src CIRCLE_TAG_WORK_REPLY ?sz = Inr (xs, n1)" by (simp add: recv_eqs)
  define buf where "buf = Some (xs @ drop (length xs) b1)"
  have into: "recv_into (offsets_recv_buf p1) xs = Inr buf" using ext by (simp add: recv_into_def buf_def)
  have g: "arr_get buf 0 = Inr (int (length os))" "arr_get buf 1 = Inr (int (length bs))"
    using os(1) by (simp_all add: buf_def)
  define nb where "nb = head (queue p) + word_of_int (int (length bs))"
  have "unat (word_of_int (int (length bs)) :: 64 word) = length bs"
    using msg by (intro trans [OF unat_word_of_int64]) (auto simp: work_msg_def)
  moreover have "0 < unat (sc_pagesize E * 4096)" using b0(5) by (simp add: word_less_nat_alt)
  ultimately have nb: "unat nb = unat (head (queue p)) + length bs"
    using b0(6) unat_add_fits [of "head (queue p)" "word_of_int (int (length bs))"] by (simp add: nb_def)
  obtain q1 where q1: "(if nb > bytes (queue p) then CIRCLE_internal_queue_extend E (queue p) nb
      else Inr (0, queue p)) = Inr (0, q1)" "queue_wf E q1" "count q1 = 0" "nb \<le> bytes q1"
  proof (cases "nb > bytes (queue p)")
    case True
    obtain rc q' where r: "CIRCLE_internal_queue_extend E (queue p) nb = Inr (rc, q')"
      using extend_total [OF b0(5), of nb "queue p"] nb b0(6) by auto
    with extend_wf [OF wf ample True r] True cnt that show ?thesis by simp
  qed (use wf cnt that in simp)
  obtain n2 where "MPI_Recv E n1 (rank p) src CIRCLE_TAG_WORK_REPLY = Inr (Bytes bs, n2)"
    using mpi_comm.MPI_Recv_gets [OF comm, of n1 src "rank p" CIRCLE_TAG_WORK_REPLY "Bytes bs" rest] r1 by auto
  then have rb: "recv_bytes E n1 (rank p) src CIRCLE_TAG_WORK_REPLY (int (length bs)) = Inr (bs, n2)"
    by (simp add: recv_eqs)
  from q1(2) obtain bb0 where bb0: "base q1 = Some bb0" "unat (bytes q1) = length bb0" "str_count q1 \<le> INT32_MAX"
    by (rule queue_wfE)
  have fits: "length bs \<le> length bb0" using q1(4) nb bb0(2) by (simp add: word_le_nat_alt)
  have hd: "hd xs = int (length os)" using os by simp
  obtain q2 where un: "work_unpack E (q1\<lparr>base := Some (bs @ drop (length bs) bb0)\<rparr>) buf (int (length os)) = Inr (0, q2)"
    using unpack_result [OF q1(2,3) ample bb0(1) fits msg, of "drop (length xs) b1"]
      str_extend_total [of "hd xs" "q1\<lparr>base := Some (bs @ drop (length bs) bb0)\<rparr>" E] b0(4) os(3) bb0(3) hd
    by (auto simp: buf_def)
  define p3 where "p3 = p1\<lparr>offsets_recv_buf := buf, queue := q2\<rparr>"
  have p3: "sends_wf p3" "2 * send_count p3 \<le> INT32_MAX" "rank p3 = rank p"
    using sw p1 b0(7) by (auto simp: p3_def sends_wf_def)
  obtain r n3 where s: "mpi_isend E n2 (rank p) src CIRCLE_TAG_WORK_RECEIPT (Bytes []) = (r, n3)" by fastforce
  obtain p4 where t: "CIRCLE_worksend_track E p3 n3 (MPI_Req r) None = Inr (p4, n3)"
    using track_total [OF p3(1) ample p3(2), of n3 "MPI_Req r"] by blast
  note step = work_receive_steps [OF os(1,2) ext(1) rk(1,2) ri into g q1(1) [unfolded nb_def] rb]
  have "CIRCLE_work_receive E p n src ?sz = Inr (0, p4, n3)"
    unfolding step using bb0(1) fits un s t p3(3)
    by (simp add: recv_into_def p3_def [symmetric] rk)
  then show ?thesis by blast
qed

lemma receive_room_mono:
  "receive_room E p m len \<Longrightarrow> m' \<le> m \<Longrightarrow> len' \<le> len \<Longrightarrow> receive_room E p m' len'"
  by (auto simp: receive_room_def)

text \<open>
  C16. A work transfer moves work, unchanged, from one queue to another. When a process with a
  well-formed queue sends \<open>cnt\<close> items to an idle process and the idle process receives the reply,
  both calls return 0, both queues are well formed, and the queue there was before is exactly what
  is left at the sender followed by what arrived at the receiver, at least one item and at most
  \<open>cnt\<close>, all \<open>cnt\<close> of them when the queue's pool holds less than 2 GB. Both messages are consumed,
  one receipt is on its way back and the sender counts one transfer as outstanding.
\<close>

theorem work_transfer_round_trip:
  assumes "mpi_comm E chan posted" and "mem_ample E" and "int (CIRCLE_MAX_STRING_LEN E) \<le> INT32_MAX"
    and "queue_wf E (queue p)" and "sends_wf p" and "0 < cnt" and "cnt \<le> count (queue p)"
    and "cnt + 2 \<le> INT32_MAX" and "2 * (send_count p + 1) \<le> INT32_MAX"
    and "queue_wf E (queue r)" and "count (queue r) = 0" and "sends_wf r"
    and "receive_room E r (nat cnt) (nat INT32_MAX)"
    and "chan n (rank p, rank r, CIRCLE_TAG_WORK_REPLY) = []"
  shows "\<exists>p' n1 xs bs r' n2. CIRCLE_send_work E p n (rank r) cnt = Inr (0, p', n1)
    \<and> chan n1 (rank p, rank r, CIRCLE_TAG_WORK_REPLY) = [Ints xs, Bytes bs]
    \<and> CIRCLE_work_receive E r n1 (rank p) (int (length xs)) = Inr (0, r', n2)
    \<and> queue_wf E (queue p') \<and> queue_wf E (queue r')
    \<and> items (queue p) = items (queue p') @ items (queue r')
    \<and> items (queue r') \<noteq> [] \<and> int (length (items (queue r'))) \<le> cnt
    \<and> (int (unat (head (queue p))) \<le> INT32_MAX \<longrightarrow> int (length (items (queue r'))) = cnt)
    \<and> chan n2 (rank p, rank r, CIRCLE_TAG_WORK_REPLY) = []
    \<and> chan n2 (rank r, rank p, CIRCLE_TAG_WORK_RECEIPT)
        = chan n (rank r, rank p, CIRCLE_TAG_WORK_RECEIPT) @ [Bytes []]
    \<and> work_outstanding p' = work_outstanding p + 1"
proof -
  from send_work_total [OF assms(4,5,2,6,7,3,8,9)] obtain rc p' n1 where
    s: "CIRCLE_send_work E p n (rank r) cnt = Inr (rc, p', n1)" by (metis prod_cases3)
  from send_work_run [OF assms(1,4,5,2,6,7,3) s] obtain k xs bs where
    k: "rc = 0" "0 < k" "k \<le> cnt" "int (unat (head (queue p))) \<le> INT32_MAX \<longrightarrow> k = cnt"
    and msg: "work_msg (CIRCLE_MAX_STRING_LEN E) (drop (nat (count (queue p) - k)) (items (queue p))) xs bs"
    and ch: "chan n1 = put (put (chan n) (rank p, rank r, CIRCLE_TAG_WORK_REPLY) (Ints xs))
        (rank p, rank r, CIRCLE_TAG_WORK_REPLY) (Bytes bs)"
    and p': "queue p' = (queue p)\<lparr>count := count (queue p) - k\<rparr>" "work_outstanding p' = work_outstanding p + 1"
    by blast
  have kc: "0 \<le> k" "k \<le> count (queue p)" using k assms(7) by simp_all
  let ?ws = "drop (nat (count (queue p) - k)) (items (queue p))"
  have len: "length ?ws = nat k" using length_items [OF assms(4)] kc by simp
  have c1: "chan n1 (rank p, rank r, CIRCLE_TAG_WORK_REPLY) = [Ints xs, Bytes bs]"
    using ch assms(14) by (simp add: put_def)
  have room: "receive_room E r (length ?ws) (length bs)"
    using receive_room_mono [OF assms(13)] len k msg by (auto simp: work_msg_def)
  from work_receive_total [OF assms(1) c1 msg assms(10,11,12,2) room] obtain rc2 r' n2 where
    rv: "CIRCLE_work_receive E r n1 (rank p) (int (length xs)) = Inr (rc2, r', n2)" by (metis prod_cases3)
  note wr = work_receive_work [OF assms(1) c1 msg assms(10,11,12,2) rv]
  note rem = suffix_removed [OF assms(4) kc]
  have "items (queue p) = items (queue p') @ items (queue r')"
    using rem(2) p'(1) wr by simp
  moreover have il: "int (length (items (queue r'))) = k" using wr len k by (simp del: length_items)
  moreover have "items (queue r') \<noteq> []" using il k(2) by auto
  moreover have "chan n1 (rank r, rank p, CIRCLE_TAG_WORK_RECEIPT) = chan n (rank r, rank p, CIRCLE_TAG_WORK_RECEIPT)"
    using ch by (simp add: put_def)
  moreover have "chan n2 (rank p, rank r, CIRCLE_TAG_WORK_REPLY) = []"
    and "chan n2 (rank r, rank p, CIRCLE_TAG_WORK_RECEIPT) = chan n1 (rank r, rank p, CIRCLE_TAG_WORK_RECEIPT) @ [Bytes []]"
    using wr by (simp_all add: put_def)
  moreover have "queue_wf E (queue p')" "queue_wf E (queue r')" "rc2 = 0" using wr rem(1) p' by simp_all
  ultimately show ?thesis
    using s k(1,3,4) c1 rv p'(2)
    by (intro exI [of _ p'] exI [of _ n1] exI [of _ xs] exI [of _ bs] exI [of _ r'] exI [of _ n2])
      (simp del: length_items)
qed

lemma small_queue_fifo: "queue_wf fifo_mpi small_queue"
  using small_queue_wf by (simp add: queue_wf_def split: option.splits)

lemma idle_queue_fifo: "queue_wf fifo_mpi (small_queue\<lparr>count := 0\<rparr>)"
  using suffix_removed(1) [OF small_queue_fifo, of "count small_queue"] by (simp add: small_queue_def)

theorem work_transfer_round_trip_witness:
  "\<exists>p' n1 (xs :: int list) r' n2. CIRCLE_send_work fifo_mpi (small_proc 2 0 small_queue) (quiet_net 2) 1 1 = Inr (0, p', n1)
    \<and> CIRCLE_work_receive fifo_mpi (small_proc 2 1 (small_queue\<lparr>count := 0\<rparr>)) n1 0 (int (length xs)) = Inr (0, r', n2)
    \<and> [''ab'', ''c''] = items (queue p') @ items (queue r') \<and> int (length (items (queue r'))) = 1"
proof -
  let ?p = "small_proc 2 0 small_queue" and ?r = "small_proc 2 1 (small_queue\<lparr>count := 0\<rparr>)"
  have "queue_wf fifo_mpi (queue ?p)" "queue_wf fifo_mpi (queue ?r)" "sends_wf ?p" "sends_wf ?r"
    using small_queue_fifo idle_queue_fifo by (simp_all add: small_proc_def sends_wf_def)
  moreover have "receive_room fifo_mpi ?r (nat 1) (nat INT32_MAX)"
    by (simp add: receive_room_def small_proc_def small_queue_def INT32_MAX_def)
  moreover have "queue ?p = small_queue" "count small_queue = 2" "head small_queue = 6" "rank ?p = 0" "rank ?r = 1"
      "count (queue ?r) = 0" "send_count ?p = 0"
    by (simp_all add: small_proc_def small_queue_def)
  moreover have "f_chan (quiet_net 2) (rank ?p, rank ?r, CIRCLE_TAG_WORK_REPLY) = []"
    by simp
  ultimately obtain p' n1 r' n2 and xs :: "int list" where
    "CIRCLE_send_work fifo_mpi ?p (quiet_net 2) 1 1 = Inr (0, p', n1)"
    "CIRCLE_work_receive fifo_mpi ?r n1 0 (int (length xs)) = Inr (0, r', n2)"
    "items small_queue = items (queue p') @ items (queue r')" "int (length (items (queue r'))) = 1"
    using work_transfer_round_trip [OF fifo.mpi_comm_axioms, of ?p 1 ?r "quiet_net 2"]
    by (auto simp: INT32_MAX_def simp del: length_items)
  then show ?thesis unfolding small_queue_items by blast
qed

end
