(* ===== verification/Token.thy ===== *)
theory Token
  imports WorkTransfer
begin

text \<open>
  Termination detection by a token travelling around the ring of ranks (\<^verbatim>\<open>token.c\<close>): a process
  without work forwards the token, coloured by whether it has sent work backwards since it last
  did; rank 0 declares termination when a white token comes back.
\<close>

section \<open>Operations\<close>

definition CIRCLE_token_issend :: "('n, 'z) mpi_scheme \<Rightarrow> 'u proc \<Rightarrow> 'n \<Rightarrow> 'u proc \<times> 'n" where
  "CIRCLE_token_issend E p n =
     (if CIRCLE_ABORT_FLAG p \<noteq> 0 then (p, n) else
      case mpi_issend E n (rank p) (token_dest p) CIRCLE_TAG_TOKEN (Ints [token_buf p]) of (r, n) \<Rightarrow>
      (p\<lparr>token_send_req := MPI_Req r, token_is_local := 0\<rparr>, n))"

definition CIRCLE_token_recv :: "('n, 'z) mpi_scheme \<Rightarrow> 'u proc \<Rightarrow> 'n \<Rightarrow> ('u proc \<times> 'n) result" where
  "CIRCLE_token_recv E p n =
     andThen (recv_int E n (rank p) (token_src p) CIRCLE_TAG_TOKEN) (\<lambda>(token, n).
     let p = p\<lparr>token_is_local := 1\<rparr>
     in andThen (if token_send_req p \<noteq> MPI_REQUEST_NULL
                 then andThen (MPI_Wait E n (token_send_req p)) (\<lambda>(req, n). Inr (p\<lparr>token_send_req := req\<rparr>, n))
                 else Inr (p, n)) (\<lambda>(p, n).
        let p = p\<lparr>token_buf := token\<rparr>;
            p = (if token_proc p = BLACK \<and> token = BLACK then p\<lparr>token_proc := WHITE\<rparr> else p);
            terminate = (if rank p = 0 \<and> token = WHITE then True else token = TERMINATE)
        in if terminate
           then let p = p\<lparr>token_buf := TERMINATE\<rparr>;
                    (p, n) = (if rank p < comm_size p - 1 then CIRCLE_token_issend E p n else (p, n))
                in Inr (p\<lparr>token_proc := TERMINATE\<rparr>, n)
           else Inr (p, n)))"

definition CIRCLE_token_check :: "('n, 'z) mpi_scheme \<Rightarrow> 'u proc \<Rightarrow> 'n \<Rightarrow> ('u proc \<times> 'n) result" where
  "CIRCLE_token_check E p n =
     (case mpi_iprobe E n (rank p) (token_src p) CIRCLE_TAG_TOKEN of
        (None, n) \<Rightarrow> Inr (p, n)
      | (Some status, n) \<Rightarrow> CIRCLE_token_recv E p n)"

definition CIRCLE_check_for_term ::
  "('n, 'z) mpi_scheme \<Rightarrow> 'u proc \<Rightarrow> 'n \<Rightarrow> (int \<times> 'u proc \<times> 'n) result" where
  "CIRCLE_check_for_term E p n =
     (if token_proc p = TERMINATE then Inr (TERMINATE, p, n) else
      andThen (if token_is_local p \<noteq> 0
               then let p = (if rank p = 0 then p\<lparr>token_buf := WHITE\<rparr>
                             else if token_proc p = BLACK then p\<lparr>token_buf := BLACK\<rparr> else p);
                        (p, n) = CIRCLE_token_issend E p n
                    in Inr (p\<lparr>token_proc := WHITE\<rparr>, n)
               else CIRCLE_token_check E p n) (\<lambda>(p, n). Inr (token_proc p, p, n)))"

end
