(* ===== verification/TermTree.thy ===== *)
theory TermTree
  imports WorkTransfer
begin

text \<open>
  Termination detection by a repeated allreduce over the tree of ranks (\<^verbatim>\<open>token.c\<close>,
  \<open>CIRCLE_check_for_term_allreduce\<close>): flags are combined by AND on the way up, the result travels
  down, and a process that has transferred work since its last contribution contributes 0.
\<close>

unbundle bit_operations_syntax

section \<open>Operations\<close>

text \<open>\<open>while(st->term_replies < children)\<close>: collect the flags of the children.\<close>

function term_loop ::
  "('n, 'z) mpi_scheme \<Rightarrow> ('a) CIRCLE_state_st_scheme \<Rightarrow> 'n \<Rightarrow> (('a) CIRCLE_state_st_scheme \<times> 'n) result" where
  "term_loop E st n =
     (if term_replies st < children (tree st) then
        (case mpi_iprobe E n (rank st) (MPI_ANY_SOURCE E) CIRCLE_TAG_TERM of
           (None, n) \<Rightarrow> Inr (st, n)
         | (Some status, n) \<Rightarrow>
             (case recv_int E n (rank st) (MPI_SOURCE status) CIRCLE_TAG_TERM of
                Inl e \<Rightarrow> Inl e
              | Inr (child_flag, n) \<Rightarrow>
                  term_loop E (st\<lparr>term_flag := term_flag st AND child_flag,
                                  term_replies := term_replies st + 1\<rparr>) n))
      else Inr (st, n))"
  by pat_completeness auto
termination
  by (relation "measure (\<lambda>(E, st, n). nat (children (tree st) - term_replies st))") auto

declare term_loop.simps [simp del]

text \<open>\<open>for(i = 0; i < children; i++) MPI_Send(..., child_ranks[i], tag, comm)\<close>.\<close>

definition send_children ::
  "('n, 'z) mpi_scheme \<Rightarrow> CIRCLE_tree_state_st \<Rightarrow> 'n \<Rightarrow> int \<Rightarrow> int \<Rightarrow> payload \<Rightarrow> 'n result" where
  "send_children E t n me tag m =
     andThen (child_list t) (\<lambda>cs. for_list (\<lambda>c n. MPI_Send E n me c tag m) cs n)"

text \<open>Contribute to the allreduce: the flag goes to the parent, or is the result at the root.\<close>

definition term_contribute ::
  "('n, 'z) mpi_scheme \<Rightarrow> ('a) CIRCLE_state_st_scheme \<Rightarrow> 'n \<Rightarrow> (int \<times> ('a) CIRCLE_state_st_scheme \<times> 'n) result" where
  "term_contribute E st n =
     (if term_up st = 0 \<and> term_replies st = children (tree st)
      then andThen (if parent_rank (tree st) \<noteq> MPI_PROC_NULL E
                    then andThen (MPI_Send E n (rank st) (parent_rank (tree st)) CIRCLE_TAG_TERM (Ints [term_flag st]))
                           (\<lambda>n. Inr (0, n))
                    else Inr (term_flag st, n)) (\<lambda>(flag, n).
           Inr (flag, st\<lparr>term_flag := 1, term_up := 1\<rparr>, n))
      else Inr (0, st, n))"

text \<open>Wait for the result: whether the allreduce is complete, and its value.\<close>

definition term_result ::
  "('n, 'z) mpi_scheme \<Rightarrow> ('a) CIRCLE_state_st_scheme \<Rightarrow> 'n \<Rightarrow> int \<Rightarrow> (bool \<times> int \<times> 'n) result" where
  "term_result E st n flag =
     (if term_up st = 0 then Inr (False, flag, n)
      else if parent_rank (tree st) \<noteq> MPI_PROC_NULL E
      then (case mpi_iprobe E n (rank st) (parent_rank (tree st)) CIRCLE_TAG_TERM of
              (None, n) \<Rightarrow> Inr (False, flag, n)
            | (Some status, n) \<Rightarrow>
                andThen (recv_int E n (rank st) (parent_rank (tree st)) CIRCLE_TAG_TERM) (\<lambda>(flag, n).
                Inr (True, flag, n)))
      else Inr (True, flag, n))"

definition CIRCLE_check_for_term_allreduce ::
  "('n, 'z) mpi_scheme \<Rightarrow> ('a) CIRCLE_state_st_scheme \<Rightarrow> 'n \<Rightarrow> (int \<times> ('a) CIRCLE_state_st_scheme \<times> 'n) result" where
  "CIRCLE_check_for_term_allreduce E st n =
     andThen (term_loop E st n) (\<lambda>(st, n).
     if work_outstanding st > 0 then Inr (WHITE, st, n) else
     andThen (term_contribute E st n) (\<lambda>(flag, st, n).
     andThen (term_result E st n flag) (\<lambda>(complete, flag, n).
     if complete
     then andThen (send_children E (tree st) n (rank st) CIRCLE_TAG_TERM (Ints [flag])) (\<lambda>n.
          Inr (if flag \<noteq> 0 then TERMINATE else WHITE, st\<lparr>term_up := 0, term_replies := 0\<rparr>, n))
     else Inr (WHITE, st, n))))"

end
