(* ===== verification/Barrier.thy ===== *)
theory Barrier
  imports TermTree
begin

text \<open>
  The nonblocking barrier over the tree of ranks (\<^verbatim>\<open>token.c\<close>) that ends the cleanup phase: a
  process that has started the barrier waits for a message from each child, reports to its
  parent, and leaves when the parent's release arrives, releasing its own children.
\<close>

section \<open>Operations\<close>

definition CIRCLE_barrier_start :: "('a) CIRCLE_state_st_scheme \<Rightarrow> ('a) CIRCLE_state_st_scheme" where
  "CIRCLE_barrier_start st = st\<lparr>barrier_started := 1\<rparr>"

text \<open>At most one message of a child is taken per call.\<close>

definition barrier_collect ::
  "('n, 'z) mpi_scheme \<Rightarrow> ('a) CIRCLE_state_st_scheme \<Rightarrow> 'n \<Rightarrow> (('a) CIRCLE_state_st_scheme \<times> 'n) result" where
  "barrier_collect E st n =
     (if barrier_replies st < children (tree st) then
        (case mpi_iprobe E n (rank st) (MPI_ANY_SOURCE E) CIRCLE_TAG_BARRIER of
           (None, n) \<Rightarrow> Inr (st, n)
         | (Some status, n) \<Rightarrow>
             andThen (recv_empty E n (rank st) (MPI_SOURCE status) CIRCLE_TAG_BARRIER) (\<lambda>n.
             Inr (st\<lparr>barrier_replies := barrier_replies st + 1\<rparr>, n)))
      else Inr (st, n))"

definition barrier_report ::
  "('n, 'z) mpi_scheme \<Rightarrow> ('a) CIRCLE_state_st_scheme \<Rightarrow> 'n \<Rightarrow> (('a) CIRCLE_state_st_scheme \<times> 'n) result" where
  "barrier_report E st n =
     (if barrier_up st = 0 \<and> barrier_replies st = children (tree st)
      then andThen (if parent_rank (tree st) \<noteq> MPI_PROC_NULL E
                    then MPI_Send E n (rank st) (parent_rank (tree st)) CIRCLE_TAG_BARRIER (Bytes [])
                    else Inr n) (\<lambda>n.
           Inr (st\<lparr>barrier_up := 1\<rparr>, n))
      else Inr (st, n))"

definition barrier_released ::
  "('n, 'z) mpi_scheme \<Rightarrow> ('a) CIRCLE_state_st_scheme \<Rightarrow> 'n \<Rightarrow> (bool \<times> 'n) result" where
  "barrier_released E st n =
     (if barrier_up st = 0 then Inr (False, n)
      else if parent_rank (tree st) \<noteq> MPI_PROC_NULL E
      then (case mpi_iprobe E n (rank st) (parent_rank (tree st)) CIRCLE_TAG_BARRIER of
              (None, n) \<Rightarrow> Inr (False, n)
            | (Some status, n) \<Rightarrow>
                andThen (recv_empty E n (rank st) (parent_rank (tree st)) CIRCLE_TAG_BARRIER) (\<lambda>n. Inr (True, n)))
      else Inr (True, n))"

definition CIRCLE_barrier_test ::
  "('n, 'z) mpi_scheme \<Rightarrow> ('a) CIRCLE_state_st_scheme \<Rightarrow> 'n \<Rightarrow> (int \<times> ('a) CIRCLE_state_st_scheme \<times> 'n) result" where
  "CIRCLE_barrier_test E st n =
     (if barrier_started st = 0 then Inr (0, st, n) else
      andThen (barrier_collect E st n) (\<lambda>(st, n).
      andThen (barrier_report E st n) (\<lambda>(st, n).
      andThen (barrier_released E st n) (\<lambda>(complete, n).
      if complete
      then andThen (send_children E (tree st) n (rank st) CIRCLE_TAG_BARRIER (Bytes [])) (\<lambda>n.
           Inr (1, st\<lparr>barrier_started := 0, barrier_up := 0, barrier_replies := 0\<rparr>, n))
      else Inr (0, st, n)))))"

end
