(* ===== verification/Abort.thy ===== *)
theory Abort
  imports TermTree
begin

text \<open>
  Aborting (\<^verbatim>\<open>token.c\<close>): a process that enters the abort state floods a request over the tree and
  waits for the replies; at the end of a run the abort states are combined over the tree.
\<close>

unbundle bit_operations_syntax

section \<open>Operations\<close>

text \<open>The receive of a reply and the request to one neighbour, each with its entry of \<open>abort_req\<close>.\<close>

definition abort_post ::
  "('n, 'z) mpi_scheme \<Rightarrow> int \<Rightarrow> int \<Rightarrow> int \<times> MPI_Request list option \<times> 'n \<Rightarrow>
     (int \<times> MPI_Request list option \<times> 'n) result" where
  "abort_post E me peer s = (case s of (k, reqs, n) \<Rightarrow>
     (case mpi_irecv E n me peer CIRCLE_TAG_ABORT_REPLY of (r, n) \<Rightarrow>
      andThen (arr_set reqs k (MPI_Req r)) (\<lambda>reqs.
      case mpi_isend E n me peer CIRCLE_TAG_ABORT_REQUEST (Bytes []) of (r, n) \<Rightarrow>
      andThen (arr_set reqs (k + 1) (MPI_Req r)) (\<lambda>reqs. Inr (k + 2, reqs, n)))))"

definition CIRCLE_abort_start ::
  "('n, 'z) mpi_scheme \<Rightarrow> 'u proc \<Rightarrow> 'n \<Rightarrow> bool \<Rightarrow> ('u proc \<times> 'n) result" where
  "CIRCLE_abort_start E p n cleanup =
     (let p = p\<lparr>CIRCLE_ABORT_FLAG := 1\<rparr>
      in if abort_state p \<noteq> 0 then Inr (p, n) else
         let p = p\<lparr>abort_state := 1\<rparr>
         in if cleanup then Inr (p, n) else
            andThen (if parent_rank (tree p) \<noteq> MPI_PROC_NULL E
                     then abort_post E (rank p) (parent_rank (tree p)) (0, abort_req p, n)
                     else Inr (0, abort_req p, n)) (\<lambda>s.
            andThen (child_list (tree p)) (\<lambda>cs.
            andThen (for_list (abort_post E (rank p)) cs s) (\<lambda>(k, reqs, n).
            let p = p\<lparr>abort_req := reqs\<rparr>
            in Inr (if k > 0 then p\<lparr>abort_outstanding := 1\<rparr> else p, n)))))"

definition CIRCLE_abort_check ::
  "('n, 'z) mpi_scheme \<Rightarrow> 'u proc \<Rightarrow> 'n \<Rightarrow> bool \<Rightarrow> ('u proc \<times> 'n) result" where
  "CIRCLE_abort_check E p n cleanup =
     andThen (if CIRCLE_ABORT_FLAG p \<noteq> 0 then CIRCLE_abort_start E p n cleanup else Inr (p, n)) (\<lambda>(p, n).
     andThen (case mpi_iprobe E n (rank p) (MPI_ANY_SOURCE E) CIRCLE_TAG_ABORT_REQUEST of
                (None, n) \<Rightarrow> Inr (p, n)
              | (Some status, n) \<Rightarrow>
                  andThen (recv_empty E n (rank p) (MPI_SOURCE status) CIRCLE_TAG_ABORT_REQUEST) (\<lambda>n.
                  andThen (MPI_Send E n (rank p) (MPI_SOURCE status) CIRCLE_TAG_ABORT_REPLY (Bytes [])) (\<lambda>n.
                  CIRCLE_abort_start E p n cleanup)))
       (\<lambda>(p, n).
     if abort_outstanding p \<noteq> 0
     then andThen (arr_prefix (abort_req p) (abort_num_req p)) (\<lambda>reqs.
          case MPI_Testall E n reqs of (flag, reqs', n) \<Rightarrow>
          let p = p\<lparr>abort_req := map_option (\<lambda>rs. reqs' @ drop (length reqs') rs) (abort_req p)\<rparr>
          in Inr (if flag then p\<lparr>abort_outstanding := 0\<rparr> else p, n))
     else Inr (p, n)))"

text \<open>
  \<open>CIRCLE_abort_reduce\<close> blocks twice: on the messages of the children, and on the answer of the
  parent to its own message. It is modelled in the two parts that run without waiting for an
  answer: the flags of the children and the message to the parent, then the answer, which goes on
  to the children and becomes the state of this process.
\<close>

definition abort_reduce_up ::
  "('n, 'z) mpi_scheme \<Rightarrow> 'u proc \<Rightarrow> 'n \<Rightarrow> (int \<times> 'n) result" where
  "abort_reduce_up E p n =
     andThen (child_list (tree p)) (\<lambda>cs.
     andThen (for_list (\<lambda>child (flag, n).
          andThen (recv_int E n (rank p) child CIRCLE_TAG_ABORT_REDUCE) (\<lambda>(child_flag, n).
          Inr (flag OR child_flag, n))) cs (CIRCLE_ABORT_FLAG p, n)) (\<lambda>(flag, n).
     andThen (if parent_rank (tree p) \<noteq> MPI_PROC_NULL E
              then MPI_Send E n (rank p) (parent_rank (tree p)) CIRCLE_TAG_ABORT_REDUCE (Ints [flag])
              else Inr n) (\<lambda>n.
     Inr (flag, n))))"

definition abort_reduce_down ::
  "('n, 'z) mpi_scheme \<Rightarrow> 'u proc \<Rightarrow> 'n \<Rightarrow> int \<Rightarrow> ('u proc \<times> 'n) result" where
  "abort_reduce_down E p n flag =
     andThen (if parent_rank (tree p) \<noteq> MPI_PROC_NULL E
              then recv_int E n (rank p) (parent_rank (tree p)) CIRCLE_TAG_ABORT_REDUCE
              else Inr (flag, n)) (\<lambda>(flag, n).
     andThen (send_children E (tree p) n (rank p) CIRCLE_TAG_ABORT_REDUCE (Ints [flag])) (\<lambda>n.
     Inr (p\<lparr>CIRCLE_ABORT_FLAG := signed_take_bit 7 flag, abort_state := flag\<rparr>, n)))"

definition CIRCLE_abort_reduce ::
  "('n, 'z) mpi_scheme \<Rightarrow> 'u proc \<Rightarrow> 'n \<Rightarrow> ('u proc \<times> 'n) result" where
  "CIRCLE_abort_reduce E p n = andThen (abort_reduce_up E p n) (\<lambda>(flag, n). abort_reduce_down E p n flag)"

end
