(* ===== verification/Reduce.thy ===== *)
theory Reduce
  imports TermTree
begin

text \<open>
  The reductions of \<^verbatim>\<open>token.c\<close>: \<open>CIRCLE_reduce_check\<close> runs a reduction of the progress counters and
  the user's data over the tree in the background, \<open>CIRCLE_reduce_sync\<close> runs the final one. What
  a process sends to its parent is the sum of what its children sent and its own count, invalid if any
  child's is. That the totals are right is shown in theory ReduceSum.
\<close>

section \<open>Messages\<close>

text \<open>
  The user's data that follows a child's message when its size is positive, received into fresh
  memory.
\<close>

definition recv_user_data ::
  "('n, 'z) mpi_scheme \<Rightarrow> 'n \<Rightarrow> int \<Rightarrow> int \<Rightarrow> int \<Rightarrow> (string option \<times> 64 word \<times> 'n) result" where
  "recv_user_data E n me child sz =
     (let insize = (word_of_int sz :: 64 word)
      in if insize > 0
         then if \<not> malloc_ok E (unat insize) then Inl Null_Deref else
              andThen (recv_bytes E n me child CIRCLE_TAG_REDUCE (signed_take_bit 31 sz)) (\<lambda>(bs, n).
              Inr (Some (bs @ map (indet_byte E) [length bs..<unat insize]), insize, n))
         else Inr (None, insize, n))"

definition run_reduce_op ::
  "('n, 'z) mpi_scheme \<Rightarrow> 'u proc \<Rightarrow> string option \<Rightarrow> 64 word \<Rightarrow> 'u proc result" where
  "run_reduce_op E p inbuf insize = (case reduce_op_cb (input p) of
     None \<Rightarrow> Inr p
   | Some f \<Rightarrow> run_callback E
       (f (user_reduce_buf (input p)) (reduce_buf_size (input p)) inbuf insize (user p)) p)"

definition run_reduce_init :: "('n, 'z) mpi_scheme \<Rightarrow> 'u proc \<Rightarrow> 'u proc result" where
  "run_reduce_init E p = (case reduce_init_cb (input p) of
     None \<Rightarrow> Inr p | Some f \<Rightarrow> run_callback E (f (user p)) p)"

definition run_reduce_fini :: "('n, 'z) mpi_scheme \<Rightarrow> 'u proc \<Rightarrow> 'u proc result" where
  "run_reduce_fini E p = (case reduce_fini_cb (input p) of
     None \<Rightarrow> Inr p
   | Some f \<Rightarrow> run_callback E (f (user_reduce_buf (input p)) (reduce_buf_size (input p)) (user p)) p)"

text \<open>
  The partial result to the parent, followed by the user's data when there is some and
  \<open>with_data\<close> holds. The size sent is the one recorded by \<open>CIRCLE_reduce\<close>.
\<close>

definition reduce_send_parent ::
  "('n, 'z) mpi_scheme \<Rightarrow> 'u proc \<Rightarrow> 'n \<Rightarrow> bool \<Rightarrow> ('u proc \<times> 'n) result" where
  "reduce_send_parent E p n with_data = (case reduce_buf p of (v, tot, _) \<Rightarrow>
     let bytes = to_int32 (reduce_buf_size (input p));
         p = p\<lparr>reduce_buf := (v, tot, bytes)\<rparr>
     in andThen (MPI_Send E n (rank p) (parent_rank (tree p)) CIRCLE_TAG_REDUCE (LongLongs [v, tot, bytes])) (\<lambda>n.
        if bytes > 0 \<and> with_data
        then andThen (memcpy_from (user_reduce_buf (input p)) 0 (nat bytes)) (\<lambda>data.
             andThen (MPI_Send E n (rank p) (parent_rank (tree p)) CIRCLE_TAG_REDUCE (Bytes data)) (\<lambda>n.
             Inr (p, n)))
        else Inr (p, n)))"

section \<open>The background reduction\<close>

text \<open>One child of an outstanding reduction, if it has sent its message.\<close>

definition reduce_child ::
  "('n, 'z) mpi_scheme \<Rightarrow> int \<Rightarrow> 'u proc \<times> 'n \<Rightarrow> ('u proc \<times> 'n) result" where
  "reduce_child E child s = (case s of (p, n) \<Rightarrow>
     (case mpi_iprobe E n (rank p) child CIRCLE_TAG_REDUCE of
        (None, n) \<Rightarrow> Inr (p, n)
      | (Some status, n) \<Rightarrow>
          andThen (recv_long_longs3 E n (rank p) child CIRCLE_TAG_REDUCE) (\<lambda>((valid, cnt, sz), n).
          let p = p\<lparr>reduce_replies := reduce_replies p + 1\<rparr>
          in case reduce_buf p of (v, tot, b) \<Rightarrow>
             if valid = MSG_INVALID then Inr (p\<lparr>reduce_buf := (MSG_INVALID, tot, b)\<rparr>, n) else
             let p = p\<lparr>reduce_buf := (v, tot + cnt, b)\<rparr>
             in andThen (recv_user_data E n (rank p) child sz) (\<lambda>(inbuf, insize, n).
                if v = MSG_VALID
                then andThen (run_reduce_op E p inbuf insize) (\<lambda>p. Inr (p, n))
                else Inr (p, n)))))"

text \<open>All children have replied: add our own count and pass the result on.\<close>

definition reduce_finish ::
  "('n, 'z) mpi_scheme \<Rightarrow> 'u proc \<Rightarrow> 'n \<Rightarrow> int \<Rightarrow> ('u proc \<times> 'n) result" where
  "reduce_finish E p n cnt = (case reduce_buf p of (v, tot, b) \<Rightarrow>
     let p = p\<lparr>reduce_buf := (v, tot + cnt, b)\<rparr>
     in andThen (if parent_rank (tree p) \<noteq> MPI_PROC_NULL E
                 then reduce_send_parent E p n (v = MSG_VALID)
                 else if v = MSG_VALID
                 then andThen (run_reduce_fini E p) (\<lambda>p. Inr (p, n))
                 else Inr (p, n)) (\<lambda>(p, n).
        Inr (p\<lparr>reduce_outstanding := 0\<rparr>, n)))"

text \<open>Whether a new reduction should start, with the request of the parent received if there is one.\<close>

definition reduce_due ::
  "('n, 'z) mpi_scheme \<Rightarrow> 'u proc \<Rightarrow> 'n \<Rightarrow> bool \<Rightarrow> (bool \<times> real \<times> 'n) result" where
  "reduce_due E p n cleanup = (case mpi_wtime E n of (time_now, n) \<Rightarrow>
     if time_now \<ge> reduce_time_last p + reduce_time_interval p \<or> cleanup
     then if parent_rank (tree p) = MPI_PROC_NULL E then Inr (True, time_now, n)
          else (case mpi_iprobe E n (rank p) (parent_rank (tree p)) CIRCLE_TAG_REDUCE of
                  (None, n) \<Rightarrow> Inr (False, time_now, n)
                | (Some status, n) \<Rightarrow>
                    andThen (recv_empty E n (rank p) (parent_rank (tree p)) CIRCLE_TAG_REDUCE) (\<lambda>n.
                    Inr (True, time_now, n)))
     else Inr (False, time_now, n))"

definition CIRCLE_reduce_check ::
  "('n, 'z) mpi_scheme \<Rightarrow> 'u proc \<Rightarrow> 'n \<Rightarrow> int \<Rightarrow> bool \<Rightarrow> ('u proc \<times> 'n) result" where
  "CIRCLE_reduce_check E p n cnt cleanup =
     (if reduce_outstanding p \<noteq> 0
      then andThen (child_list (tree p)) (\<lambda>cs.
           andThen (for_list (reduce_child E) cs (p, n)) (\<lambda>(p, n).
           if reduce_replies p = children (tree p) then reduce_finish E p n cnt else Inr (p, n)))
      else andThen (reduce_due E p n cleanup) (\<lambda>(start_reduce, time_now, n).
           if start_reduce \<and> cleanup
           then if parent_rank (tree p) \<noteq> MPI_PROC_NULL E
                then case reduce_buf p of (v, tot, b) \<Rightarrow>
                     andThen (MPI_Send E n (rank p) (parent_rank (tree p)) CIRCLE_TAG_REDUCE
                         (LongLongs [MSG_INVALID, tot, b])) (\<lambda>n.
                     Inr (p\<lparr>reduce_buf := (MSG_INVALID, tot, b)\<rparr>, n))
                else Inr (p, n)
           else if start_reduce
           then andThen (run_reduce_init E (p\<lparr>reduce_time_last := time_now, reduce_outstanding := 1,
                    reduce_replies := 0, reduce_buf := (MSG_VALID, 0, 0)\<rparr>)) (\<lambda>p.
                andThen (send_children E (tree p) n (rank p) CIRCLE_TAG_REDUCE (Bytes [])) (\<lambda>n.
                Inr (p, n)))
           else Inr (p, n)))"

section \<open>The final reduction\<close>

definition reduce_sync_child ::
  "('n, 'z) mpi_scheme \<Rightarrow> int \<Rightarrow> 'u proc \<times> 'n \<Rightarrow> ('u proc \<times> 'n) result" where
  "reduce_sync_child E child s = (case s of (p, n) \<Rightarrow>
     andThen (recv_long_longs3 E n (rank p) child CIRCLE_TAG_REDUCE) (\<lambda>((valid, cnt, sz), n).
     case reduce_buf p of (v, tot, b) \<Rightarrow>
     let p = p\<lparr>reduce_buf := (v, tot + cnt, b)\<rparr>
     in andThen (recv_user_data E n (rank p) child sz) (\<lambda>(inbuf, insize, n).
        andThen (run_reduce_op E p inbuf insize) (\<lambda>p. Inr (p, n)))))"

definition CIRCLE_reduce_sync ::
  "('n, 'z) mpi_scheme \<Rightarrow> 'u proc \<Rightarrow> 'n \<Rightarrow> int \<Rightarrow> ('u proc \<times> 'n) result" where
  "CIRCLE_reduce_sync E p n cnt =
     andThen (run_reduce_init E (p\<lparr>reduce_buf := (MSG_VALID, cnt, 0)\<rparr>)) (\<lambda>p.
     andThen (child_list (tree p)) (\<lambda>cs.
     andThen (for_list (reduce_sync_child E) cs (p, n)) (\<lambda>(p, n).
     if parent_rank (tree p) \<noteq> MPI_PROC_NULL E then reduce_send_parent E p n True
     else andThen (run_reduce_fini E p) (\<lambda>p. Inr (p, n)))))"

end
