(* ===== verification/Worker.thy ===== *)
theory Worker
  imports Checkpoint Token Barrier Abort Reduce
begin

text \<open>
  The worker of \<^verbatim>\<open>worker.c\<close>: the body of the main loop, the cleanup loop that drains the messages
  still under way, the end of a run, and \<open>CIRCLE_worker\<close> around them. The two \<open>while(1)\<close> loops need
  not end (what a process does depends on the others), so they are partial functions: \<open>None\<close> is a
  loop that never leaves. \<open>Inl Would_Block\<close> is a process waiting in a blocking receive.
\<close>

unbundle bit_operations_syntax

section \<open>The main loop\<close>

definition run_process :: "('n, 'z) mpi_scheme \<Rightarrow> 'u proc \<Rightarrow> 'u proc result" where
  "run_process E p = (case process_cb (input p) of None \<Rightarrow> Inl Null_Deref
     | Some f \<Rightarrow> run_callback E (f (user p)) p)"

text \<open>\<open>if(sptr->reduce_enabled) CIRCLE_reduce_check(...)\<close>.\<close>

definition reduce_progress ::
  "('n, 'z) mpi_scheme \<Rightarrow> 'u proc \<Rightarrow> 'n \<Rightarrow> bool \<Rightarrow> ('u proc \<times> 'n) result" where
  "reduce_progress E p n cleanup =
     (if reduce_enabled p \<noteq> 0
      then CIRCLE_reduce_check E p n (local_objects_processed p) cleanup else Inr (p, n))"

text \<open>One item, or one look at termination; the flag says whether the loop is left.\<close>

definition work_or_terminate ::
  "('n, 'z) mpi_scheme \<Rightarrow> 'u proc \<Rightarrow> 'n \<Rightarrow> (bool \<times> 'u proc \<times> 'n) result" where
  "work_or_terminate E p n =
     (if count (queue p) > 0 \<and> CIRCLE_ABORT_FLAG p = 0
      then andThen (run_process E p) (\<lambda>p.
           andThen (c_int (local_objects_processed p + 1)) (\<lambda>k.
           Inr (False, p\<lparr>local_objects_processed := k\<rparr>, n)))
      else andThen (if term_tree_enabled p \<noteq> 0 then CIRCLE_check_for_term_allreduce E p n
                    else CIRCLE_check_for_term E p n) (\<lambda>(term_status, p, n).
           Inr (term_status = TERMINATE, p, n)))"

definition work_iteration ::
  "('n, 'z) mpi_scheme \<Rightarrow> 'u proc \<Rightarrow> 'n \<Rightarrow> (bool \<times> 'u proc \<times> 'n) result" where
  "work_iteration E p n =
     andThen (CIRCLE_workreq_check E p n False) (\<lambda>(p, n).
     andThen (CIRCLE_workreceipt_check E p n) (\<lambda>(p, n).
     andThen (CIRCLE_worksend_check E p n) (\<lambda>(p, n, _).
     andThen (CIRCLE_abort_check E p n False) (\<lambda>(p, n).
     andThen (reduce_progress E p n False) (\<lambda>(p, n).
     andThen (if count (queue p) = 0
              then andThen (CIRCLE_request_work E p n False) (\<lambda>(rc, p, n). Inr (p, n))
              else Inr (p, n)) (\<lambda>(p, n).
     work_or_terminate E p n))))))"

partial_function (option) main_loop ::
  "('n, 'z) mpi_scheme \<Rightarrow> 'u proc \<Rightarrow> 'n \<Rightarrow> ('u proc \<times> 'n) result option" where
  "main_loop E p n =
     (case work_iteration E p n of
        Inl e \<Rightarrow> Some (Inl e)
      | Inr r \<Rightarrow> if fst r then Some (Inr (snd r)) else main_loop E (fst (snd r)) (snd (snd r)))"

declare main_loop.simps [code]

section \<open>The cleanup loop and the end of a run\<close>

definition nothing_outstanding :: "'u proc \<Rightarrow> bool" where
  "nothing_outstanding p \<longleftrightarrow> work_requested p = 0 \<and> reduce_outstanding p = 0 \<and> abort_outstanding p = 0
     \<and> send_count p = 0 \<and> work_request_req p = MPI_REQUEST_NULL \<and> token_send_req p = MPI_REQUEST_NULL"

definition token_drain :: "('n, 'z) mpi_scheme \<Rightarrow> 'u proc \<Rightarrow> 'n \<Rightarrow> ('u proc \<times> 'n) result" where
  "token_drain E p n =
     (if term_tree_enabled p = 0
      then andThen (CIRCLE_token_check E p n) (\<lambda>(p, n).
           if token_send_req p \<noteq> MPI_REQUEST_NULL
           then (case MPI_Test E n (token_send_req p) of (flag, req, n) \<Rightarrow> Inr (p\<lparr>token_send_req := req\<rparr>, n))
           else Inr (p, n))
      else Inr (p, n))"

definition cleanup_iteration ::
  "('n, 'z) mpi_scheme \<Rightarrow> 'u proc \<Rightarrow> 'n \<Rightarrow> (bool \<times> 'u proc \<times> 'n) result" where
  "cleanup_iteration E p n =
     (let p = (if nothing_outstanding p then CIRCLE_barrier_start p else p)
      in andThen (CIRCLE_barrier_test E p n) (\<lambda>(rc, p, n).
         if rc \<noteq> 0 then Inr (True, p, n) else
         andThen (CIRCLE_workreq_check E p n True) (\<lambda>(p, n).
         andThen (CIRCLE_worksend_check E p n) (\<lambda>(p, n, _).
         andThen (reduce_progress E p n True) (\<lambda>(p, n).
         andThen (CIRCLE_request_work E p n True) (\<lambda>(rc, p, n).
         andThen (CIRCLE_abort_check E p n True) (\<lambda>(p, n).
         andThen (token_drain E p n) (\<lambda>(p, n).
         Inr (False, p, n))))))))) "

partial_function (option) cleanup_loop ::
  "('n, 'z) mpi_scheme \<Rightarrow> 'u proc \<Rightarrow> 'n \<Rightarrow> ('u proc \<times> 'n) result option" where
  "cleanup_loop E p n =
     (case cleanup_iteration E p n of
        Inl e \<Rightarrow> Some (Inl e)
      | Inr r \<Rightarrow> if fst r then Some (Inr (snd r)) else cleanup_loop E (fst (snd r)) (snd (snd r)))"

declare cleanup_loop.simps [code]

definition finish_run :: "('n, 'z) mpi_scheme \<Rightarrow> 'u proc \<Rightarrow> 'n \<Rightarrow> ('u proc \<times> 'n) result" where
  "finish_run E p n =
     andThen (CIRCLE_worksend_wait E p n) (\<lambda>(p, n).
     andThen (if reduce_enabled p \<noteq> 0
              then CIRCLE_reduce_sync E p n (local_objects_processed p) else Inr (p, n)) (\<lambda>(p, n).
     CIRCLE_abort_reduce E p n))"

definition CIRCLE_work_loop ::
  "('n, 'z) mpi_scheme \<Rightarrow> 'u proc \<Rightarrow> 'n \<Rightarrow> ('u proc \<times> 'n) result option" where
  "CIRCLE_work_loop E p n = (case main_loop E p n of
     None \<Rightarrow> None
   | Some (Inl e) \<Rightarrow> Some (Inl e)
   | Some (Inr (p, n)) \<Rightarrow> (case cleanup_loop E p n of
       None \<Rightarrow> None
     | Some (Inl e) \<Rightarrow> Some (Inl e)
     | Some (Inr (p, n)) \<Rightarrow> Some (finish_run E p n)))"

section \<open>The worker\<close>

text \<open>The wrappers around the checkpoint routines; \<open>global_rank\<close> is \<open>CIRCLE_global_rank\<close>.\<close>

definition CIRCLE_checkpoint_wrapper ::
  "('z) host_scheme \<Rightarrow> stdio \<Rightarrow> files \<Rightarrow> int \<Rightarrow> 'u proc \<Rightarrow> (int \<times> 'u proc \<times> files) result" where
  "CIRCLE_checkpoint_wrapper H io fs global_rank p =
     andThen (CIRCLE_internal_queue_write H io fs (queue p) global_rank) (\<lambda>(rc, q, fs).
     Inr (rc, p\<lparr>queue := q\<rparr>, fs))"

definition CIRCLE_read_restarts_wrapper ::
  "('z) host_scheme \<Rightarrow> stdio \<Rightarrow> files \<Rightarrow> int \<Rightarrow> 'u proc \<Rightarrow> (int \<times> 'u proc) result" where
  "CIRCLE_read_restarts_wrapper H io fs global_rank p =
     andThen (CIRCLE_internal_queue_read H io fs (Some (queue p)) global_rank) (\<lambda>(rc, q).
     case q of None \<Rightarrow> Inl Null_Deref | Some q \<Rightarrow> Inr (rc, p\<lparr>queue := q\<rparr>))"

text \<open>
  The handler registered for MPI errors: both of its branches log, write a checkpoint and exit.
  The result is the file system it leaves behind and the exit.
\<close>

definition CIRCLE_MPI_error_handler ::
  "('z) host_scheme \<Rightarrow> stdio \<Rightarrow> files \<Rightarrow> int \<Rightarrow> 'u proc \<Rightarrow> (files \<times> fault) result" where
  "CIRCLE_MPI_error_handler H io fs global_rank p =
     andThen (CIRCLE_checkpoint_wrapper H io fs global_rank p) (\<lambda>(rc, p, fs). Inr (fs, Exit_Failure))"

definition run_create :: "('n, 'z) mpi_scheme \<Rightarrow> 'u proc \<Rightarrow> 'u proc result" where
  "run_create E p =
     (if rank p = 0 \<or> options (input p) AND CIRCLE_CREATE_GLOBAL \<noteq> 0
      then (case create_cb (input p) of None \<Rightarrow> Inl Null_Deref
            | Some f \<Rightarrow> run_callback E (f (user p)) p)
      else Inr p)"

text \<open>
  \<open>CIRCLE_worker\<close> without its logging: the settings and, at the end, the gathered statistics are
  only printed.
\<close>

definition CIRCLE_worker ::
  "('n, 'z) mpi_scheme \<Rightarrow> stdio \<Rightarrow> files \<Rightarrow> int \<Rightarrow> int \<Rightarrow> int \<Rightarrow> 'u proc \<Rightarrow> 'n \<Rightarrow>
     (int \<times> 'u proc \<times> files \<times> 'n) result option" where
  "CIRCLE_worker E io fs global_rank rnk sz p n =
     (case andThen (CIRCLE_init_local_state E rnk sz p n) (\<lambda>(p, n).
           andThen (run_create E p) (\<lambda>p. Inr (p, n))) of
        Inl e \<Rightarrow> Some (Inl e)
      | Inr (p, n) \<Rightarrow> (case CIRCLE_work_loop E p n of
          None \<Rightarrow> None
        | Some r \<Rightarrow> Some (andThen r (\<lambda>(p, n).
            andThen (if CIRCLE_ABORT_FLAG p \<noteq> 0
                     then andThen (CIRCLE_checkpoint_wrapper E io fs global_rank p) (\<lambda>(rc, p, fs). Inr (p, fs))
                     else Inr (p, fs)) (\<lambda>(p, fs).
            Inr (0, CIRCLE_finalize_local_state p, fs, n))))))"

end
