(* ===== verification/Lib.thy ===== *)
theory Lib
  imports Worker
begin

text \<open>
  The interface of the library (\<^verbatim>\<open>lib.c\<close>, \<^verbatim>\<open>libcircle.h\<close>): initialisation, the registration of
  callbacks and options, and the calls that run, checkpoint, restart, abort and finalise.
\<close>

section \<open>The library's globals\<close>

text \<open>
  \<open>CIRCLE_INPUT_ST\<close>, its queue and the rest of a process are in \<open>lib_proc\<close>; \<open>queue_null\<close> says that
  \<open>CIRCLE_INPUT_ST.queue\<close> is a null pointer.
\<close>

record 'u lib =
  lib_proc :: "'u proc"
  queue_null :: bool
  CIRCLE_debug_level :: int
  CIRCLE_global_rank :: int
  CIRCLE_must_finalize_mpi :: int

abbreviation (input) CIRCLE_LOG_INFO :: int where "CIRCLE_LOG_INFO \<equiv> 4"
abbreviation (input) CIRCLE_LOG_DBG :: int where "CIRCLE_LOG_DBG \<equiv> 5"
abbreviation (input) CIRCLE_DEFAULT_FLAGS :: int where "CIRCLE_DEFAULT_FLAGS \<equiv> CIRCLE_SPLIT_EQUAL"

text \<open>
  What MPI says at start-up: the return code and flag of \<open>MPI_Initialized\<close>, the return code of
  \<open>MPI_Init\<close> (0 is \<open>MPI_SUCCESS\<close>), and the rank in the duplicated communicator.
\<close>

record mpi_startup =
  mpi_initialized_rc :: int
  mpi_initialized :: bool
  mpi_init_rc :: int
  mpi_world_rank :: int

definition map_input :: "('u CIRCLE_input_st \<Rightarrow> 'u CIRCLE_input_st) \<Rightarrow> 'u lib \<Rightarrow> 'u lib" where
  "map_input f l = l\<lparr>lib_proc := (lib_proc l)\<lparr>input := f (input (lib_proc l))\<rparr>\<rparr>"

section \<open>Options and callbacks\<close>

definition CIRCLE_set_options :: "int \<Rightarrow> 'u lib \<Rightarrow> 'u lib" where
  "CIRCLE_set_options user_options = map_input (\<lambda>i. i\<lparr>options := user_options\<rparr>)"

definition CIRCLE_set_tree_width :: "int \<Rightarrow> 'u lib \<Rightarrow> 'u lib" where
  "CIRCLE_set_tree_width width = map_input (\<lambda>i. i\<lparr>tree_width := width\<rparr>)"

definition CIRCLE_set_reduce_period :: "int \<Rightarrow> 'u lib \<Rightarrow> 'u lib" where
  "CIRCLE_set_reduce_period secs = map_input (\<lambda>i. i\<lparr>reduce_period := secs\<rparr>)"

definition CIRCLE_cb_create :: "('u \<Rightarrow> 'u callback) option \<Rightarrow> 'u lib \<Rightarrow> 'u lib" where
  "CIRCLE_cb_create f = map_input (\<lambda>i. i\<lparr>create_cb := f\<rparr>)"

definition CIRCLE_cb_process :: "('u \<Rightarrow> 'u callback) option \<Rightarrow> 'u lib \<Rightarrow> 'u lib" where
  "CIRCLE_cb_process f = map_input (\<lambda>i.
     let i = (if create_cb i = None then i\<lparr>create_cb := f\<rparr> else i) in i\<lparr>process_cb := f\<rparr>)"

definition CIRCLE_cb_reduce_init :: "('u \<Rightarrow> 'u callback) option \<Rightarrow> 'u lib \<Rightarrow> 'u lib" where
  "CIRCLE_cb_reduce_init f = map_input (\<lambda>i. i\<lparr>reduce_init_cb := f\<rparr>)"

definition CIRCLE_cb_reduce_op ::
  "(string option \<Rightarrow> 64 word \<Rightarrow> string option \<Rightarrow> 64 word \<Rightarrow> 'u \<Rightarrow> 'u callback) option \<Rightarrow> 'u lib \<Rightarrow> 'u lib" where
  "CIRCLE_cb_reduce_op f = map_input (\<lambda>i. i\<lparr>reduce_op_cb := f\<rparr>)"

definition CIRCLE_cb_reduce_fini ::
  "(string option \<Rightarrow> 64 word \<Rightarrow> 'u \<Rightarrow> 'u callback) option \<Rightarrow> 'u lib \<Rightarrow> 'u lib" where
  "CIRCLE_cb_reduce_fini f = map_input (\<lambda>i. i\<lparr>reduce_fini_cb := f\<rparr>)"

definition CIRCLE_enable_logging :: "int \<Rightarrow> 'u lib \<Rightarrow> 'u lib" where
  "CIRCLE_enable_logging level l = l\<lparr>CIRCLE_debug_level := level\<rparr>"

section \<open>Life of the library\<close>

definition CIRCLE_init ::
  "('z) host_scheme \<Rightarrow> mpi_startup \<Rightarrow> int \<Rightarrow> 'u lib \<Rightarrow> (int \<times> 'u lib) result" where
  "CIRCLE_init H m user_options l =
     (let l = map_input (\<lambda>i. i\<lparr>create_cb := None, process_cb := None, reduce_init_cb := None,
                reduce_op_cb := None, reduce_fini_cb := None, user_reduce_buf := None,
                reduce_buf_size := 0, reduce_period := 0, tree_width := 64\<rparr>)
              (l\<lparr>CIRCLE_debug_level := CIRCLE_LOG_INFO\<rparr>);
          l = (CIRCLE_set_options user_options l)\<lparr>CIRCLE_must_finalize_mpi := 0\<rparr>
      in if mpi_initialized_rc m \<noteq> 0 then Inr (-1, l) else
         if \<not> mpi_initialized m \<and> mpi_init_rc m \<noteq> 0 then Inr (-1, l) else
         let l = (if mpi_initialized m then l else l\<lparr>CIRCLE_must_finalize_mpi := 1\<rparr>)
                   \<lparr>CIRCLE_global_rank := mpi_world_rank m\<rparr>
         in andThen (CIRCLE_internal_queue_init H) (\<lambda>q. case q of
              None \<Rightarrow> Inr (-1, l\<lparr>queue_null := True\<rparr>)
            | Some q \<Rightarrow> Inr (CIRCLE_global_rank l,
                l\<lparr>lib_proc := (lib_proc l)\<lparr>queue := q\<rparr>, queue_null := False\<rparr>)))"

definition CIRCLE_begin ::
  "('n, 'z) mpi_scheme \<Rightarrow> stdio \<Rightarrow> files \<Rightarrow> int \<Rightarrow> 'u lib \<Rightarrow> 'n \<Rightarrow> ('u lib \<times> files \<times> 'n) result option" where
  "CIRCLE_begin E io fs sz l n =
     (if queue_null l then Some (Inl Null_Deref) else
      case CIRCLE_worker E io fs (CIRCLE_global_rank l) (CIRCLE_global_rank l) sz (lib_proc l) n of
        None \<Rightarrow> None
      | Some r \<Rightarrow> Some (andThen r (\<lambda>(rc, p, fs, n). Inr (l\<lparr>lib_proc := p\<rparr>, fs, n))))"

definition CIRCLE_checkpoint ::
  "('z) host_scheme \<Rightarrow> stdio \<Rightarrow> files \<Rightarrow> 'u lib \<Rightarrow> ('u lib \<times> files) result" where
  "CIRCLE_checkpoint H io fs l =
     (if queue_null l then Inl Null_Deref else
      andThen (CIRCLE_checkpoint_wrapper H io fs (CIRCLE_global_rank l) (lib_proc l)) (\<lambda>(rc, p, fs).
      Inr (l\<lparr>lib_proc := p\<rparr>, fs)))"

definition CIRCLE_read_restarts ::
  "('z) host_scheme \<Rightarrow> stdio \<Rightarrow> files \<Rightarrow> 'u lib \<Rightarrow> 'u lib result" where
  "CIRCLE_read_restarts H io fs l =
     (if queue_null l then Inr l else
      andThen (CIRCLE_read_restarts_wrapper H io fs (CIRCLE_global_rank l) (lib_proc l)) (\<lambda>(rc, p).
      Inr (l\<lparr>lib_proc := p\<rparr>)))"

definition CIRCLE_abort :: "'u lib \<Rightarrow> 'u lib" where
  "CIRCLE_abort l = l\<lparr>lib_proc := CIRCLE_bcast_abort (lib_proc l)\<rparr>"

text \<open>
  The heap blocks of the queue that are released, whether \<open>MPI_Finalize\<close> is called, and the state
  after the reduction buffer is gone.
\<close>

definition CIRCLE_finalize :: "'u lib \<Rightarrow> queue_block list \<times> bool \<times> 'u lib" where
  "CIRCLE_finalize l =
     (snd (CIRCLE_internal_queue_free (if queue_null l then None else Some (queue (lib_proc l)))),
      CIRCLE_must_finalize_mpi l \<noteq> 0,
      map_input (\<lambda>i. i\<lparr>user_reduce_buf := CIRCLE_free (user_reduce_buf i)\<rparr>) l)"

definition CIRCLE_wtime :: "('n, 'z) mpi_scheme \<Rightarrow> 'n \<Rightarrow> real \<times> 'n" where
  "CIRCLE_wtime E n = mpi_wtime E n"

end
