(* ===== verification/Frame.thy ===== *)
theory Frame
  imports WorkTransfer
begin

text \<open>
  What one process changes when it runs a handler, seen from the others. Termination detection
  depends on a few fields of each process and on the channels of three tags; most handlers leave
  these alone. \<open>silent\<close> says that a handler does, keeps the invariant \<open>proc_inv\<close> of the process
  and does not make an idle process busy. The handlers of the work transfer are not silent, and
  the lemmas here say what they do instead.
\<close>

section \<open>Processes\<close>

text \<open>A process that will not work on or give away what it has: nothing is queued, or it is aborting.\<close>

definition idle :: "'u proc \<Rightarrow> bool" where
  "idle p \<longleftrightarrow> count (queue p) = 0 \<or> CIRCLE_ABORT_FLAG p \<noteq> 0"

text \<open>
  The invariant of a process: its queue and its table of sends are well formed, its callbacks
  respect the interface, the process it will ask next is a rank or null, and while it waits for
  an answer to a work request its queue is empty and the one it asked is a rank.
\<close>

definition proc_inv :: "('n, 'z) mpi_scheme \<Rightarrow> 'u proc \<Rightarrow> bool" where
  "proc_inv E p \<longleftrightarrow> queue_wf E (queue p) \<and> sends_wf p
     \<and> (work_requested p \<noteq> 0 \<longrightarrow> count (queue p) = 0 \<and> 0 \<le> work_requested_rank p)
     \<and> (0 \<le> next_processor p \<or> next_processor p = MPI_PROC_NULL E)
     \<and> input_ok (CIRCLE_MAX_STRING_LEN E) (input p)"

lemma proc_invD:
  assumes "proc_inv E p"
  shows "queue_wf E (queue p)" "sends_wf p" "work_requested p \<noteq> 0 \<Longrightarrow> count (queue p) = 0"
    "input_ok (CIRCLE_MAX_STRING_LEN E) (input p)" "work_requested p \<noteq> 0 \<Longrightarrow> 0 \<le> work_requested_rank p"
    "0 \<le> next_processor p \<or> next_processor p = MPI_PROC_NULL E"
  using assms by (simp_all add: proc_inv_def)

lemma sends_wf_update [simp]:
  fixes p :: "'u proc"
  shows "sends_wf (p\<lparr>requestors := x0\<rparr>) = sends_wf p" "sends_wf (p\<lparr>seed := x1\<rparr>) = sends_wf p"
    "sends_wf (p\<lparr>next_processor := x2\<rparr>) = sends_wf p" "sends_wf (p\<lparr>work_requested := x3\<rparr>) = sends_wf p"
    "sends_wf (p\<lparr>work_requested_rank := x4\<rparr>) = sends_wf p" "sends_wf (p\<lparr>work_request_req := x5\<rparr>) = sends_wf p"
    "sends_wf (p\<lparr>work_outstanding := x6\<rparr>) = sends_wf p" "sends_wf (p\<lparr>term_flag := x7\<rparr>) = sends_wf p"
    "sends_wf (p\<lparr>term_up := x8\<rparr>) = sends_wf p" "sends_wf (p\<lparr>term_replies := x9\<rparr>) = sends_wf p"
    "sends_wf (p\<lparr>barrier_started := x10\<rparr>) = sends_wf p" "sends_wf (p\<lparr>barrier_up := x11\<rparr>) = sends_wf p"
    "sends_wf (p\<lparr>barrier_replies := x12\<rparr>) = sends_wf p" "sends_wf (p\<lparr>abort_state := x13\<rparr>) = sends_wf p"
    "sends_wf (p\<lparr>abort_outstanding := x14\<rparr>) = sends_wf p" "sends_wf (p\<lparr>abort_req := x15\<rparr>) = sends_wf p"
    "sends_wf (p\<lparr>reduce_buf := x16\<rparr>) = sends_wf p" "sends_wf (p\<lparr>reduce_replies := x17\<rparr>) = sends_wf p"
    "sends_wf (p\<lparr>reduce_outstanding := x18\<rparr>) = sends_wf p" "sends_wf (p\<lparr>reduce_time_last := x19\<rparr>) = sends_wf p"
    "sends_wf (p\<lparr>local_objects_processed := x20\<rparr>) = sends_wf p" "sends_wf (p\<lparr>local_work_requested := x21\<rparr>) = sends_wf p"
    "sends_wf (p\<lparr>CIRCLE_ABORT_FLAG := x22\<rparr>) = sends_wf p" "sends_wf (p\<lparr>queue := x23\<rparr>) = sends_wf p"
    "sends_wf (p\<lparr>input := x24\<rparr>) = sends_wf p"
  by (simp_all add: sends_wf_def)

text \<open>The fields termination detection looks at, and the size of the table of those who ask for work.\<close>

definition wave_part :: "'u proc \<Rightarrow> int \<times> int \<times> CIRCLE_tree_state_st \<times> int \<times> int \<times> int \<times> int \<times> int \<times> nat option" where
  "wave_part p = (rank p, comm_size p, tree p, term_tree_enabled p, work_outstanding p, term_flag p, term_up p,
     term_replies p, map_option length (requestors p))"

definition same_wave :: "'u proc \<Rightarrow> 'u proc \<Rightarrow> bool" where
  "same_wave p p' \<longleftrightarrow> wave_part p' = wave_part p \<and> settings (input p') = settings (input p)"

lemma same_wave_refl [simp]: "same_wave p p"
  by (simp add: same_wave_def)

lemma same_wave_trans: "same_wave p p' \<Longrightarrow> same_wave p' p'' \<Longrightarrow> same_wave p p''"
  by (simp add: same_wave_def)

lemma same_waveD:
  assumes "same_wave p p'"
  shows "rank p' = rank p" "comm_size p' = comm_size p" "tree p' = tree p"
    "term_tree_enabled p' = term_tree_enabled p" "work_outstanding p' = work_outstanding p"
    "term_flag p' = term_flag p" "term_up p' = term_up p" "term_replies p' = term_replies p"
    "settings (input p') = settings (input p)" "map_option length (requestors p') = map_option length (requestors p)"
  using assms by (simp_all add: same_wave_def wave_part_def)

lemma same_wave_sends: "only_sends p p' \<Longrightarrow> same_wave p p'"
  using only_sends_same [of p p'] only_sends_proc [of p p'] by (simp add: same_wave_def wave_part_def)

lemma same_wave_user: "only_user p p' \<Longrightarrow> same_wave p p'"
  using only_user_same [of p p'] by (simp add: same_wave_def wave_part_def only_user_def)

lemma same_wave_transfer:
  "only_transfer p p' \<Longrightarrow> work_outstanding p' = work_outstanding p \<Longrightarrow> same_wave p p'"
  using only_transfer_same [of p p'] by (simp add: same_wave_def wave_part_def)

lemma input_ok_settings: "settings inp' = settings inp \<Longrightarrow> input_ok mx inp' = input_ok mx inp"
  using settings_same [of inp' inp] by (simp add: input_ok_def)

section \<open>The network\<close>

text \<open>
  A network changed by rank \<open>me\<close> outside the channels of the work transfer and of termination detection: work
  requests, replies, receipts and termination messages are as they were, no channel of another sender has gained
  a message, and only replies to abort requests have a receive pending.
\<close>

definition wave_tag :: "int \<Rightarrow> bool" where
  "wave_tag t \<longleftrightarrow> t = CIRCLE_TAG_WORK_REQUEST \<or> t = CIRCLE_TAG_WORK_REPLY
     \<or> t = CIRCLE_TAG_WORK_RECEIPT \<or> t = CIRCLE_TAG_TERM"

lemma wave_tag_simps [simp]:
  "wave_tag CIRCLE_TAG_WORK_REPLY" "wave_tag CIRCLE_TAG_WORK_RECEIPT" "wave_tag CIRCLE_TAG_TERM"
  "wave_tag CIRCLE_TAG_WORK_REQUEST" "\<not> wave_tag CIRCLE_TAG_REDUCE" "\<not> wave_tag CIRCLE_TAG_BARRIER"
  "\<not> wave_tag CIRCLE_TAG_ABORT_REQUEST" "\<not> wave_tag CIRCLE_TAG_ABORT_REPLY" "\<not> wave_tag CIRCLE_TAG_TOKEN"
  by (simp_all add: wave_tag_def)

definition net_ok :: "('n \<Rightarrow> channel set) \<Rightarrow> 'n \<Rightarrow> bool" where
  "net_ok posted n \<longleftrightarrow> (\<forall>s d t. (s, d, t) \<in> posted n \<longrightarrow> t = CIRCLE_TAG_ABORT_REPLY)"

definition side ::
  "('n \<Rightarrow> channel \<Rightarrow> payload list) \<Rightarrow> ('n \<Rightarrow> channel set) \<Rightarrow> int \<Rightarrow> 'n \<Rightarrow> 'n \<Rightarrow> bool" where
  "side chan posted me n n' \<longleftrightarrow>
     (\<forall>s d t. wave_tag t \<longrightarrow> chan n' (s, d, t) = chan n (s, d, t))
     \<and> (\<forall>s d t. t \<noteq> CIRCLE_TAG_ABORT_REPLY \<longrightarrow> s \<noteq> me \<longrightarrow> chan n (s, d, t) = [] \<longrightarrow> chan n' (s, d, t) = [])
     \<and> (net_ok posted n \<longrightarrow> net_ok posted n')"

lemma side_refl [simp]: "side chan posted me n n"
  by (simp add: side_def)

lemma side_trans: "side chan posted me n n' \<Longrightarrow> side chan posted me n' n'' \<Longrightarrow> side chan posted me n n''"
  by (simp add: side_def)

lemma side_update:
  assumes c: "chan n' = (chan n)((s, d, t) := ms)" and "posted n' = posted n" and "\<not> wave_tag t"
    and "chan n (s, d, t) \<noteq> [] \<or> s = me"
  shows "side chan posted me n n'"
proof -
  have "chan n' (s', d', t') = (if (s', d', t') = (s, d, t) then ms else chan n (s', d', t'))" for s' d' t'
    by (simp add: c)
  with assms(2-) show ?thesis unfolding side_def net_ok_def by (metis prod.inject)
qed

context mpi_comm
begin

lemma side_probe: "mpi_iprobe E n me src tag = (po, n') \<Longrightarrow> side chan posted i n n'"
  using probe_keeps by (simp add: side_def net_ok_def)

lemma side_wtime: "mpi_wtime E n = (time, n') \<Longrightarrow> side chan posted i n n'"
  using wtime_keeps by (simp add: side_def net_ok_def)

lemma side_abort: "side chan posted i n (mpi_abort E n code)"
  using abort_keeps by (simp add: side_def net_ok_def)

lemma side_send: "MPI_Send E n me dst tag m = Inr n' \<Longrightarrow> \<not> wave_tag tag \<Longrightarrow> side chan posted me n n'"
  using MPI_Send_adds [of n me dst tag m n'] by (auto simp: side_def net_ok_def)

lemma side_isend: "mpi_isend E n me dst tag m = (r, n') \<Longrightarrow> \<not> wave_tag tag \<Longrightarrow> side chan posted me n n'"
  using isend_adds by (auto simp: side_def net_ok_def)

lemma side_irecv: "mpi_irecv E n me src CIRCLE_TAG_ABORT_REPLY = (r, n') \<Longrightarrow> side chan posted i n n'"
  using irecv_posts by (auto simp: side_def net_ok_def)

lemma side_recv:
  assumes "MPI_Recv E n me src tag = Inr (m, n')" and "\<not> wave_tag tag"
  shows "side chan posted i n n'"
proof -
  from MPI_Recv_takes [OF assms(1)] obtain ms where c: "chan n (src, me, tag) = m # ms"
      "chan n' = (chan n)((src, me, tag) := ms)" "posted n' = posted n" by blast
  show ?thesis by (rule side_update [OF c(2,3) assms(2)]) (simp add: c(1))
qed

lemma side_keeps:
  assumes "net_ok posted n" and "(\<forall>k. k \<notin> posted n \<longrightarrow> chan n' k = chan n k) \<and> posted n' \<subseteq> posted n"
  shows "side chan posted i n n'"
proof -
  have "(s, d, t) \<notin> posted n" if "t \<noteq> CIRCLE_TAG_ABORT_REPLY" for s d t
    using assms(1) that by (auto simp: net_ok_def)
  then have same: "chan n' (s, d, t) = chan n (s, d, t)" if "t \<noteq> CIRCLE_TAG_ABORT_REPLY" for s d t
    using assms(2) that by blast
  moreover have "net_ok posted n'" using assms by (auto simp: net_ok_def)
  moreover have "wave_tag t \<Longrightarrow> t \<noteq> CIRCLE_TAG_ABORT_REPLY" for t by (auto simp: wave_tag_def)
  ultimately show ?thesis unfolding side_def by metis
qed

lemma side_test: "MPI_Test E n req = (flag, req', n') \<Longrightarrow> net_ok posted n \<Longrightarrow> side chan posted i n n'"
  using MPI_Test_keeps side_keeps by blast

lemma side_testall: "MPI_Testall E n reqs = (flag, reqs', n') \<Longrightarrow> net_ok posted n \<Longrightarrow> side chan posted i n n'"
  using MPI_Testall_keeps side_keeps by blast

lemma side_net_ok: "side chan posted i n n' \<Longrightarrow> net_ok posted n \<Longrightarrow> net_ok posted n'"
  by (simp add: side_def)

lemma side_sweep: "sweep E n xs = (kept, rel, n') \<Longrightarrow> net_ok posted n \<Longrightarrow> side chan posted i n n'"
proof (induction xs arbitrary: n kept rel n')
  case (Cons x xs)
  obtain req buf where x: "x = (req, buf)" by fastforce
  obtain flag req' n1 where t: "MPI_Test E n req = (flag, req', n1)" by (metis prod_cases3)
  obtain k0 r0 n0 where s: "sweep E n1 xs = (k0, r0, n0)" by (metis prod_cases3)
  have "n' = n0" using Cons.prems(1) x t s by (auto split: if_splits)
  moreover note st = side_test [OF t Cons.prems(2), of i]
  moreover have "side chan posted i n1 n0" by (rule Cons.IH [OF s side_net_ok [OF st Cons.prems(2)]])
  ultimately show ?case using side_trans [OF st] by simp
qed simp

lemma side_send_children:
  assumes "for_list (\<lambda>c n. MPI_Send E n me c tag m) cs n = Inr n'" and "\<not> wave_tag tag"
  shows "side chan posted me n n'"
  using assms(1)
proof (induction cs arbitrary: n)
  case (Cons c cs)
  then obtain n1 where s: "MPI_Send E n me c tag m = Inr n1" "for_list (\<lambda>c n. MPI_Send E n me c tag m) cs n1 = Inr n'"
    by (auto simp: outcome)
  show ?case by (rule side_trans [OF side_send [OF s(1) assms(2)] Cons.IH [OF s(2)]])
qed simp

end

section \<open>Silent handlers\<close>

definition silent ::
  "('n, 'z) mpi_scheme \<Rightarrow> ('n \<Rightarrow> channel \<Rightarrow> payload list) \<Rightarrow> ('n \<Rightarrow> channel set) \<Rightarrow> 'u proc \<Rightarrow> 'n \<Rightarrow> 'u proc \<Rightarrow> 'n \<Rightarrow> bool" where
  "silent E chan posted p n p' n' \<longleftrightarrow> same_wave p p' \<and> proc_inv E p' \<and> (idle p \<longrightarrow> idle p')
     \<and> work_requested p' = work_requested p \<and> work_requested_rank p' = work_requested_rank p
     \<and> side chan posted (rank p) n n'"

lemma silent_refl [simp]: "silent E chan posted p n p n \<longleftrightarrow> proc_inv E p"
  by (simp add: silent_def)

lemma silent_trans:
  "silent E chan posted p n p1 n1 \<Longrightarrow> silent E chan posted p1 n1 p2 n2 \<Longrightarrow> silent E chan posted p n p2 n2"
  using side_trans [of chan posted "rank p" n n1 n2] same_wave_trans [of p p1 p2] same_waveD(1) [of p p1]
  by (auto simp: silent_def)

lemma silent_net_ok: "silent E chan posted p n p' n' \<Longrightarrow> net_ok posted n \<Longrightarrow> net_ok posted n'"
  by (simp add: silent_def side_def)

lemma silent_inv: "silent E chan posted p n p' n' \<Longrightarrow> proc_inv E p'"
  by (simp add: silent_def)

text \<open>A callback on a process, with or without the right to add work.\<close>

lemma silent_callback:
  assumes run: "run_callback E cb p = Inr p'" and ok: "cb_ok (CIRCLE_MAX_STRING_LEN E) False cb"
    and inv: "proc_inv E p" and ample: "mem_ample E"
  shows "silent E chan posted p n p' n"
proof -
  note o = run_callback_only [OF run] and u = run_callback_step [OF run ok proc_invD(1) [OF inv] ample]
  have "0 \<le> count (queue p')" using queue_wf_count u by (auto simp: user_step_def)
  moreover have "sends_wf p'" using proc_invD(2) [OF inv] unfolding sends_wf_def only_user_same [OF o] .
  ultimately have "proc_inv E p'"
    using inv u o input_ok_settings [of "input p'" "input p"] only_user_same(9,13,14) [OF o]
    by (auto simp: proc_inv_def user_step_def only_user_def)
  moreover have "idle p \<longrightarrow> idle p'"
    using u \<open>0 \<le> count (queue p')\<close> by (auto simp: idle_def user_step_def)
  ultimately show ?thesis using same_wave_user [OF o] only_user_same [OF o] by (simp add: silent_def)
qed

lemma worksend_check_silent:
  assumes comm: "mpi_comm E chan posted" and inv: "proc_inv E p" and ok: "net_ok posted n"
    and run: "CIRCLE_worksend_check E p n = Inr (p', n', rel)"
  shows "silent E chan posted p n p' n'"
proof -
  note r = worksend_check_run [OF proc_invD(2) [OF inv] run]
  then have "side chan posted (rank p) n n'" using mpi_comm.side_sweep [OF comm _ ok] by blast
  moreover have "proc_inv E p'"
    using inv r(2) only_sends_proc [OF r(1)] only_sends_same(13-15) [OF r(1)] by (simp add: proc_inv_def)
  ultimately show ?thesis
    using same_wave_sends [OF r(1)] only_sends_proc [OF r(1)] only_sends_same [OF r(1)] by (simp add: silent_def idle_def)
qed

end
