(* ===== verification/Effects.thy ===== *)
theory Effects
  imports Frame Worker
begin

text \<open>
  The handlers as sequences of effects. An effect is the smallest change a process makes that
  the others can notice: a message of the work transfer or of termination detection sent or taken
  with the bookkeeping that goes with it, or a silent change. The lemmas show that each handler of the
  worker runs a sequence of effects; theory \<open>System\<close> relates the effects of all processes to
  the abstract specification of theory \<open>Wave\<close>.
\<close>

unbundle bit_operations_syntax

section \<open>Reply channels\<close>

text \<open>The strings in a work message.\<close>

definition words_of :: "int list \<Rightarrow> string \<Rightarrow> string list" where
  "words_of xs bs = map (\<lambda>off. cstr_at bs (nat off)) (drop 2 xs)"

lemma work_msg_words: "work_msg mx ws xs bs \<Longrightarrow> ws = words_of xs bs"
  by (auto simp: work_msg_def words_of_def)

lemma work_msg_not_single: "work_msg mx ws xs bs \<Longrightarrow> \<exists>x y zs. xs = x # y # zs"
  by (auto simp: work_msg_def)

text \<open>What waits on a channel of replies: refusals, aborts, and work in two messages each.\<close>

fun replies_ok :: "nat \<Rightarrow> payload list \<Rightarrow> bool" where
  "replies_ok mx [] \<longleftrightarrow> True"
| "replies_ok mx (Ints [v] # ms) \<longleftrightarrow> (v = 0 \<or> v = PAYLOAD_ABORT) \<and> replies_ok mx ms"
| "replies_ok mx (Ints (x # y # zs) # Bytes bs # ms) \<longleftrightarrow>
     work_msg mx (words_of (x # y # zs) bs) (x # y # zs) bs \<and> replies_ok mx ms"
| "replies_ok mx (m # ms) \<longleftrightarrow> False"

text \<open>The batches of work under way on such a channel.\<close>

fun batches :: "payload list \<Rightarrow> string list list" where
  "batches (Ints (x # y # zs) # Bytes bs # ms) = words_of (x # y # zs) bs # batches ms"
| "batches (m # ms) = batches ms"
| "batches [] = []"

lemma replies_ok_append: "replies_ok mx ms \<Longrightarrow> replies_ok mx (ms @ ms') = replies_ok mx ms'"
  by (induction mx ms rule: replies_ok.induct) auto

lemma batches_append: "replies_ok mx ms \<Longrightarrow> batches (ms @ ms') = batches ms @ batches ms'"
  by (induction mx ms rule: replies_ok.induct) auto

lemma replies_ok_cases:
  assumes "replies_ok mx (m # ms)"
  obtains (refused) v where "m = Ints [v]" "v = 0 \<or> v = PAYLOAD_ABORT" "replies_ok mx ms" "batches (m # ms) = batches ms"
    | (work) xs bs ms' where "m = Ints xs" "ms = Bytes bs # ms'" "work_msg mx (words_of xs bs) xs bs"
      "replies_ok mx ms'" "batches (m # ms) = words_of xs bs # batches ms'"
  using assms by (cases "(mx, m # ms)" rule: replies_ok.cases) auto

lemma replies_ok_work:
  assumes "work_msg mx ws xs bs"
  shows "replies_ok mx [Ints xs, Bytes bs]" "batches [Ints xs, Bytes bs] = [ws]"
  using work_msg_not_single [OF assms] work_msg_words [OF assms] assms by auto

lemma replies_ok_taken:
  assumes "work_msg mx ws xs bs" and "replies_ok mx (Ints xs # Bytes bs # ms)"
  shows "replies_ok mx ms" "batches (Ints xs # Bytes bs # ms) = ws # batches ms"
  using work_msg_not_single [OF assms(1)] work_msg_words [OF assms(1)] assms(2) by auto

section \<open>Effects\<close>

text \<open>A message to each child.\<close>

definition fan ::
  "(channel \<Rightarrow> payload list) \<Rightarrow> int \<Rightarrow> int list \<Rightarrow> int \<Rightarrow> payload \<Rightarrow> channel \<Rightarrow> payload list" where
  "fan c me cs t m key = (if fst key = me \<and> fst (snd key) \<in> set cs \<and> snd (snd key) = t then c key @ [m] else c key)"

text \<open>
  One effect of a process on itself, the network and the flag that says whether it has left the main
  loop. \<open>u\<close> says whether user code may run.
\<close>

inductive effect ::
  "('n, 'z) mpi_scheme \<Rightarrow> ('n \<Rightarrow> channel \<Rightarrow> payload list) \<Rightarrow> ('n \<Rightarrow> channel set) \<Rightarrow> int \<Rightarrow> int \<Rightarrow> bool \<Rightarrow>
     'u proc \<times> 'n \<times> bool \<Rightarrow> 'u proc \<times> 'n \<times> bool \<Rightarrow> bool"
  for E chan posted k ranks u where
  quiet: "silent E chan posted p n p' n' \<Longrightarrow> items (queue p') = items (queue p) \<Longrightarrow>
    effect E chan posted k ranks u (p, n, l) (p', n', l)"
| user: "silent E chan posted p n p' n' \<Longrightarrow> u \<Longrightarrow> effect E chan posted k ranks u (p, n, l) (p', n', l)"
| ask: "proc_inv E p' \<Longrightarrow> same_wave p p' \<Longrightarrow> queue p' = queue p \<Longrightarrow> CIRCLE_ABORT_FLAG p' = CIRCLE_ABORT_FLAG p \<Longrightarrow>
    chan n' = put (chan n) (rank p, d, CIRCLE_TAG_WORK_REQUEST) (Bytes []) \<Longrightarrow> posted n' = posted n \<Longrightarrow>
    effect E chan posted k ranks u (p, n, l) (p', n', l)"
| hear: "chan n (d, rank p, CIRCLE_TAG_WORK_REQUEST) = m # ms \<Longrightarrow>
    chan n' = (chan n)((d, rank p, CIRCLE_TAG_WORK_REQUEST) := ms) \<Longrightarrow> posted n' = posted n \<Longrightarrow>
    effect E chan posted k ranks u (p, n, l) (p, n', l)"
| refuse: "proc_inv E p' \<Longrightarrow> same_wave p p' \<Longrightarrow> queue p' = queue p \<Longrightarrow> CIRCLE_ABORT_FLAG p' = CIRCLE_ABORT_FLAG p \<Longrightarrow>
    v = 0 \<or> v = PAYLOAD_ABORT \<Longrightarrow>
    chan n' = put (chan n) (rank p, d, CIRCLE_TAG_WORK_REPLY) (Ints [v]) \<Longrightarrow> posted n' = posted n \<Longrightarrow>
    effect E chan posted k ranks u (p, n, l) (p', n', l)"
| ship: "d \<in> {0..<ranks} \<Longrightarrow> \<not> idle p \<Longrightarrow> proc_inv E p' \<Longrightarrow>
    same_wave (p\<lparr>work_outstanding := work_outstanding p + 1\<rparr>) p' \<Longrightarrow>
    work_msg (CIRCLE_MAX_STRING_LEN E) ws xs bs \<Longrightarrow> items (queue p) = items (queue p') @ ws \<Longrightarrow>
    chan n' = put (put (chan n) (rank p, d, CIRCLE_TAG_WORK_REPLY) (Ints xs)) (rank p, d, CIRCLE_TAG_WORK_REPLY) (Bytes bs) \<Longrightarrow>
    posted n' = posted n \<Longrightarrow> effect E chan posted k ranks u (p, n, l) (p', n', l)"
| refused: "chan n (d, rank p, CIRCLE_TAG_WORK_REPLY) = Ints [v] # ms \<Longrightarrow> v = 0 \<or> v = PAYLOAD_ABORT \<Longrightarrow>
    chan n' = (chan n)((d, rank p, CIRCLE_TAG_WORK_REPLY) := ms) \<Longrightarrow> posted n' = posted n \<Longrightarrow>
    proc_inv E p' \<Longrightarrow> same_wave p p' \<Longrightarrow> queue p' = queue p \<Longrightarrow> idle p \<longrightarrow> idle p' \<Longrightarrow>
    effect E chan posted k ranks u (p, n, l) (p', n', l)"
| take: "d \<in> {0..<ranks} \<Longrightarrow> chan n (d, rank p, CIRCLE_TAG_WORK_REPLY) = Ints xs # Bytes bs # ms \<Longrightarrow>
    work_msg (CIRCLE_MAX_STRING_LEN E) ws xs bs \<Longrightarrow> proc_inv E p' \<Longrightarrow> same_wave p p' \<Longrightarrow>
    items (queue p') = items (queue p) @ ws \<Longrightarrow>
    chan n' = put ((chan n)((d, rank p, CIRCLE_TAG_WORK_REPLY) := ms)) (rank p, d, CIRCLE_TAG_WORK_RECEIPT) (Bytes []) \<Longrightarrow>
    posted n' = posted n \<Longrightarrow> effect E chan posted k ranks u (p, n, l) (p', n', l)"
| acked: "d \<in> {0..<ranks} \<Longrightarrow> chan n (d, rank p, CIRCLE_TAG_WORK_RECEIPT) = m # ms \<Longrightarrow>
    chan n' = (chan n)((d, rank p, CIRCLE_TAG_WORK_RECEIPT) := ms) \<Longrightarrow> posted n' = posted n \<Longrightarrow>
    effect E chan posted k ranks u (p, n, l) (p\<lparr>work_outstanding := work_outstanding p - 1, term_flag := 0\<rparr>, n', l)"
| absorb: "term_replies p < children (tree p) \<Longrightarrow> chan n (d, rank p, CIRCLE_TAG_TERM) = Ints [v] # ms \<Longrightarrow>
    chan n' = (chan n)((d, rank p, CIRCLE_TAG_TERM) := ms) \<Longrightarrow> posted n' = posted n \<Longrightarrow> \<not> l \<Longrightarrow>
    effect E chan posted k ranks u (p, n, l)
      (p\<lparr>term_flag := term_flag p AND v, term_replies := term_replies p + 1\<rparr>, n', l)"
| contribute: "rank p \<noteq> 0 \<Longrightarrow> idle p \<Longrightarrow> work_outstanding p \<le> 0 \<Longrightarrow> term_up p = 0 \<Longrightarrow>
    term_replies p = children (tree p) \<Longrightarrow>
    chan n' = put (chan n) (rank p, tree_parent k (rank p), CIRCLE_TAG_TERM) (Ints [term_flag p]) \<Longrightarrow>
    posted n' = posted n \<Longrightarrow> \<not> l \<Longrightarrow>
    effect E chan posted k ranks u (p, n, l) (p\<lparr>term_flag := 1, term_up := 1\<rparr>, n', l)"
| deliver: "rank p \<noteq> 0 \<Longrightarrow> term_up p \<noteq> 0 \<Longrightarrow>
    chan n (tree_parent k (rank p), rank p, CIRCLE_TAG_TERM) = Ints [v] # ms \<Longrightarrow>
    chan n' = fan ((chan n)((tree_parent k (rank p), rank p, CIRCLE_TAG_TERM) := ms)) (rank p)
      (tree_kids k ranks (rank p)) CIRCLE_TAG_TERM (Ints [v]) \<Longrightarrow> posted n' = posted n \<Longrightarrow> \<not> l \<Longrightarrow>
    effect E chan posted k ranks u (p, n, l) (p\<lparr>term_up := 0, term_replies := 0\<rparr>, n', v \<noteq> 0)"
| decide: "rank p = 0 \<Longrightarrow> idle p \<Longrightarrow> work_outstanding p \<le> 0 \<Longrightarrow> term_up p = 0 \<Longrightarrow>
    term_replies p = children (tree p) \<Longrightarrow>
    chan n' = fan (chan n) (rank p) (tree_kids k ranks (rank p)) CIRCLE_TAG_TERM (Ints [term_flag p]) \<Longrightarrow>
    posted n' = posted n \<Longrightarrow> \<not> l \<Longrightarrow>
    effect E chan posted k ranks u (p, n, l)
      (p\<lparr>term_flag := 1, term_up := 0, term_replies := 0\<rparr>, n', term_flag p \<noteq> 0)"

abbreviation effects ::
  "('n, 'z) mpi_scheme \<Rightarrow> ('n \<Rightarrow> channel \<Rightarrow> payload list) \<Rightarrow> ('n \<Rightarrow> channel set) \<Rightarrow> int \<Rightarrow> int \<Rightarrow> bool \<Rightarrow>
     'u proc \<times> 'n \<times> bool \<Rightarrow> 'u proc \<times> 'n \<times> bool \<Rightarrow> bool" where
  "effects E chan posted k ranks u \<equiv> (effect E chan posted k ranks u)\<^sup>*\<^sup>*"

text \<open>
  What a handler relies on when it starts, and every effect keeps: the invariant of the process, its place in the
  tree, receives pending for abort replies only, messages from existing ranks only, well-formed replies,
  a table of requestors with an entry for each rank, requests without content,
  a flag in each message of termination detection.
\<close>

definition tree_ok :: "('n, 'z) mpi_scheme \<Rightarrow> int \<Rightarrow> int \<Rightarrow> 'u proc \<Rightarrow> bool" where
  "tree_ok E k ranks p \<longleftrightarrow> child_list (tree p) = Inr (tree_kids k ranks (rank p))
     \<and> children (tree p) = int (length (tree_kids k ranks (rank p)))
     \<and> parent_rank (tree p) = (if rank p = 0 then MPI_PROC_NULL E else tree_parent k (rank p))"

definition sources_ok :: "(channel \<Rightarrow> payload list) \<Rightarrow> int \<Rightarrow> bool" where
  "sources_ok c ranks \<longleftrightarrow> (\<forall>s d t. t \<noteq> CIRCLE_TAG_ABORT_REPLY \<longrightarrow> c (s, d, t) \<noteq> [] \<longrightarrow> s \<in> {0..<ranks})"

definition requests_ok :: "(channel \<Rightarrow> payload list) \<Rightarrow> bool" where
  "requests_ok c \<longleftrightarrow> (\<forall>s d. \<forall>m \<in> set (c (s, d, CIRCLE_TAG_WORK_REQUEST)). m = Bytes [])"

definition terms_ok :: "(channel \<Rightarrow> payload list) \<Rightarrow> bool" where
  "terms_ok c \<longleftrightarrow> (\<forall>s d. \<forall>m \<in> set (c (s, d, CIRCLE_TAG_TERM)). \<exists>v. m = Ints [v])"

definition local_ok ::
  "('n, 'z) mpi_scheme \<Rightarrow> ('n \<Rightarrow> channel \<Rightarrow> payload list) \<Rightarrow> ('n \<Rightarrow> channel set) \<Rightarrow> int \<Rightarrow> int \<Rightarrow> 'u proc \<Rightarrow> 'n \<Rightarrow> bool" where
  "local_ok E chan posted k ranks p n \<longleftrightarrow> proc_inv E p \<and> tree_ok E k ranks p \<and> rank p \<in> {0..<ranks}
     \<and> term_tree_enabled p \<noteq> 0 \<and> net_ok posted n \<and> sources_ok (chan n) ranks
     \<and> (\<forall>s d. replies_ok (CIRCLE_MAX_STRING_LEN E) (chan n (s, d, CIRCLE_TAG_WORK_REPLY)))
     \<and> map_option length (requestors p) = Some (nat ranks) \<and> requests_ok (chan n) \<and> terms_ok (chan n)"

section \<open>What every effect keeps\<close>

lemma sources_ok_mono:
  assumes "sources_ok c ranks"
    and "\<And>s d t. t \<noteq> CIRCLE_TAG_ABORT_REPLY \<Longrightarrow> s \<notin> {0..<ranks} \<Longrightarrow> c (s, d, t) = [] \<Longrightarrow> c' (s, d, t) = []"
  shows "sources_ok c' ranks"
  using assms unfolding sources_ok_def by metis

lemma sources_ok_put: "sources_ok c ranks \<Longrightarrow> s \<in> {0..<ranks} \<Longrightarrow> sources_ok (put c (s, d, t) m) ranks"
  by (erule sources_ok_mono) (auto simp: put_apply)

lemma sources_ok_fan: "sources_ok c ranks \<Longrightarrow> s \<in> {0..<ranks} \<Longrightarrow> sources_ok (fan c s cs t m) ranks"
  by (erule sources_ok_mono) (auto simp: fan_def)

lemma sources_ok_take: "sources_ok c ranks \<Longrightarrow> c key \<noteq> [] \<Longrightarrow> sources_ok (c(key := ms)) ranks"
  by (erule sources_ok_mono) (auto split: if_splits)

lemma effect_proc:
  assumes "effect E chan posted k ranks u (p, n, l) (p', n', l')"
  shows "rank p' = rank p" "tree p' = tree p" "term_tree_enabled p' = term_tree_enabled p"
    "proc_inv E p \<Longrightarrow> proc_inv E p'" "l \<Longrightarrow> l'"
    "map_option length (requestors p') = map_option length (requestors p)"
  using assms by (cases; auto dest: same_waveD simp: silent_def proc_inv_def)+

lemma effect_sources:
  assumes "effect E chan posted k ranks u (p, n, l) (p', n', l')" and "sources_ok (chan n) ranks"
    and r: "rank p \<in> {0..<ranks}"
  shows "sources_ok (chan n') ranks"
  using assms(1)
proof cases
  case quiet
  then show ?thesis using r by (intro sources_ok_mono [OF assms(2)]) (auto simp: silent_def side_def)
next
  case user
  then show ?thesis using r by (intro sources_ok_mono [OF assms(2)]) (auto simp: silent_def side_def)
qed (use assms(2) r in \<open>auto intro!: sources_ok_put sources_ok_fan sources_ok_take\<close>)

lemma effect_net_ok:
  assumes "effect E chan posted k ranks u (p, n, l) (p', n', l')" and "net_ok posted n"
  shows "net_ok posted n'"
  using assms by (cases; auto simp: silent_def side_def net_ok_def)

lemma effect_replies:
  assumes eff: "effect E chan posted k ranks u (p, n, l) (p', n', l')"
    and ok: "\<And>s d. replies_ok (CIRCLE_MAX_STRING_LEN E) (chan n (s, d, CIRCLE_TAG_WORK_REPLY))"
  shows "replies_ok (CIRCLE_MAX_STRING_LEN E) (chan n' (s, d, CIRCLE_TAG_WORK_REPLY))"
  using eff
proof cases
  case (refuse v d')
  then show ?thesis using ok [of s d] by (auto simp: put_apply replies_ok_append)
next
  case (ship d' ws xs bs)
  then show ?thesis using ok [of s d] replies_ok_work(1) [of _ ws xs bs] by (auto simp: put_apply replies_ok_append)
next
  case (refused d' v ms)
  then show ?thesis using ok [of s d] by (auto split: if_splits)
next
  case (take d' xs bs ms ws)
  then show ?thesis using ok [of s d] replies_ok_taken(1) [of _ ws xs bs ms] by (auto simp: put_apply split: if_splits)
qed (use ok [of s d] in \<open>auto simp: silent_def side_def put_apply fan_def\<close>)

lemma effect_requests:
  assumes eff: "effect E chan posted k ranks u (p, n, l) (p', n', l')" and ok: "requests_ok (chan n)"
  shows "requests_ok (chan n')"
proof -
  have old: "\<forall>m \<in> set (chan n (s, d, CIRCLE_TAG_WORK_REQUEST)). m = Bytes []" for s d
    using ok by (simp add: requests_ok_def)
  have "\<forall>m \<in> set (chan n' (s, d, CIRCLE_TAG_WORK_REQUEST)). m = Bytes []" for s d
    using eff
  proof cases
    case (hear d' m ms)
    then show ?thesis using old [of s d] by (auto split: if_splits)
  qed (use old [of s d] in \<open>auto simp: silent_def side_def put_apply fan_def\<close>)
  then show ?thesis by (simp add: requests_ok_def)
qed

lemma effect_terms:
  assumes eff: "effect E chan posted k ranks u (p, n, l) (p', n', l')" and ok: "terms_ok (chan n)"
  shows "terms_ok (chan n')"
proof -
  have old: "\<forall>m \<in> set (chan n (s, d, CIRCLE_TAG_TERM)). \<exists>v. m = Ints [v]" for s d
    using ok by (simp add: terms_ok_def)
  have "\<forall>m \<in> set (chan n' (s, d, CIRCLE_TAG_TERM)). \<exists>v. m = Ints [v]" for s d
    using eff
  proof cases
    case (absorb d' v ms)
    then show ?thesis using old [of s d] by (auto split: if_splits)
  next
    case (deliver v ms)
    then show ?thesis using old [of s d] by (auto simp: fan_def split: if_splits)
  qed (use old [of s d] in \<open>auto simp: silent_def side_def put_apply fan_def split: if_splits\<close>)
  then show ?thesis by (simp add: terms_ok_def)
qed

lemma effect_local_ok:
  assumes "effect E chan posted k ranks u (p, n, l) (p', n', l')" and "local_ok E chan posted k ranks p n"
  shows "local_ok E chan posted k ranks p' n'"
  using assms(2) effect_proc [OF assms(1)] effect_sources [OF assms(1)] effect_net_ok [OF assms(1)]
    effect_replies [OF assms(1)] effect_requests [OF assms(1)] effect_terms [OF assms(1)]
  by (simp add: local_ok_def tree_ok_def)

lemma effects_local_ok:
  assumes "effects E chan posted k ranks u (p, n, l) (p', n', l')" and "local_ok E chan posted k ranks p n"
  shows "local_ok E chan posted k ranks p' n'" and "rank p' = rank p" and "l \<Longrightarrow> l'"
proof -
  have "local_ok E chan posted k ranks (fst c) (fst (snd c)) \<and> rank (fst c) = rank p \<and> (l \<longrightarrow> snd (snd c))"
    if "effects E chan posted k ranks u (p, n, l) c" for c
    using that
  proof (induction rule: rtranclp_induct)
    case (step c c')
    obtain a b d a' b' d' where c: "c = (a, b, d)" "c' = (a', b', d')" by (metis prod_cases3)
    with step effect_local_ok [of E chan posted k ranks u a b d a' b' d'] effect_proc [of E chan posted k ranks u a b d a' b' d']
    show ?case by auto
  qed (use assms(2) in simp)
  from this [OF assms(1)] show "local_ok E chan posted k ranks p' n'" "rank p' = rank p" "l \<Longrightarrow> l'" by simp_all
qed

section \<open>The work transfer\<close>

lemma local_okD:
  assumes "local_ok E chan posted k ranks p n"
  shows "proc_inv E p" "rank p \<in> {0..<ranks}" "net_ok posted n" "sources_ok (chan n) ranks"
    "\<And>s d. replies_ok (CIRCLE_MAX_STRING_LEN E) (chan n (s, d, CIRCLE_TAG_WORK_REPLY))"
    "tree_ok E k ranks p" "term_tree_enabled p \<noteq> 0"
    "map_option length (requestors p) = Some (nat ranks)" "requests_ok (chan n)" "terms_ok (chan n)"
  using assms by (simp_all add: local_ok_def)

lemma source_in_range:
  "sources_ok c ranks \<Longrightarrow> c (s, d, t) = m # ms \<Longrightarrow> t \<noteq> CIRCLE_TAG_ABORT_REPLY \<Longrightarrow> s \<in> {0..<ranks}"
  unfolding sources_ok_def by (metis list.distinct(1))

text \<open>A change of the network outside the wave, and of fields of the process that no invariant mentions.\<close>

lemma quiet_net:
  "proc_inv E p \<Longrightarrow> side chan posted (rank p) n n' \<Longrightarrow> effect E chan posted k ranks u (p, n, l) (p, n', l)"
  by (rule effect.quiet) (simp_all add: silent_def)

lemma for_list_effects:
  assumes "for_list f xs (p, n) = Inr (p', n')" and "local_ok E chan posted k ranks p n" and "I xs p"
    and step: "\<And>x xs p n p' n'. local_ok E chan posted k ranks p n \<Longrightarrow> I (x # xs) p \<Longrightarrow> f x (p, n) = Inr (p', n') \<Longrightarrow>
      effects E chan posted k ranks u (p, n, l) (p', n', l) \<and> I xs p'"
  shows "effects E chan posted k ranks u (p, n, l) (p', n', l)"
  using assms(1-3)
proof (induction xs arbitrary: p n)
  case (Cons x xs)
  then obtain p1 n1 where f: "f x (p, n) = Inr (p1, n1)" "for_list f xs (p1, n1) = Inr (p', n')"
    by (auto simp: outcome)
  note s = step [OF Cons.prems(2,3) f(1)]
  have "local_ok E chan posted k ranks p1 n1" by (rule effects_local_ok(1) [OF conjunct1 [OF s] Cons.prems(2)])
  from Cons.IH [OF f(2) this] s show ?case by (meson rtranclp_trans)
qed simp

lemma receipt_effects:
  assumes comm: "mpi_comm E chan posted"
  shows "CIRCLE_workreceipt_check E p n = Inr (p', n') \<Longrightarrow> local_ok E chan posted k ranks p n \<Longrightarrow>
    effects E chan posted k ranks u (p, n, l) (p', n', l)"
proof (induction "nat (work_outstanding p)" arbitrary: p n rule: less_induct)
  case less
  note run = less.prems(1) [unfolded CIRCLE_workreceipt_check.simps [of E p n]]
  note ok = local_okD [OF less.prems(2)]
  show ?case
  proof (cases "work_outstanding p > 0")
    case True
    obtain po n1 where pr: "mpi_iprobe E n (rank p) (MPI_ANY_SOURCE E) CIRCLE_TAG_WORK_RECEIPT = (po, n1)" by fastforce
    show ?thesis
    proof (cases po)
      case None
      then have "p' = p" "n' = n1" using run True pr by simp_all
      then show ?thesis using quiet_net [OF ok(1) mpi_comm.side_probe [OF comm pr]] by auto
    next
      case (Some status)
      from mpi_comm.recv_after_probe [OF comm pr [unfolded Some]] obtain m ms n2 where
        m: "chan n (MPI_SOURCE status, rank p, CIRCLE_TAG_WORK_RECEIPT) = m # ms"
          "MPI_Recv E n1 (rank p) (MPI_SOURCE status) CIRCLE_TAG_WORK_RECEIPT = Inr (m, n2)"
          "chan n2 = (chan n)((MPI_SOURCE status, rank p, CIRCLE_TAG_WORK_RECEIPT) := ms)" "posted n2 = posted n" by blast
      obtain n3 where n3: "recv_empty E n1 (rank p) (MPI_SOURCE status) CIRCLE_TAG_WORK_RECEIPT = Inr n3"
        using run True pr Some by (auto split: sum.splits)
      then have "n3 = n2" using m(2) by (simp add: recv_eqs)
      define p1 where "p1 = p\<lparr>work_outstanding := work_outstanding p - 1, term_flag := 0\<rparr>"
      have eff: "effect E chan posted k ranks u (p, n, l) (p1, n2, l)"
        unfolding p1_def using source_in_range [OF ok(4) m(1)] m by (intro effect.acked) auto
      have "CIRCLE_workreceipt_check E p1 n2 = Inr (p', n')"
        using run True pr Some n3 \<open>n3 = n2\<close> by (simp add: p1_def)
      from less.hyps [OF _ this effect_local_ok [OF eff less.prems(2)]] True eff
      show ?thesis by (simp add: p1_def converse_rtranclp_into_rtranclp)
    qed
  qed (use run in simp)
qed

lemma refuse_effect:
  assumes comm: "mpi_comm E chan posted" and ok: "local_ok E chan posted k ranks p n" and ample: "mem_ample E"
    and run: "CIRCLE_send_no_work E p n d = Inr (p', n')"
  shows "effect E chan posted k ranks u (p, n, l) (p', n', l)" and "queue p' = queue p"
    and "CIRCLE_ABORT_FLAG p' = CIRCLE_ABORT_FLAG p"
proof -
  note inv = local_okD(1) [OF ok]
  note r = send_no_work_run [OF comm proc_invD(2) [OF inv] ample run]
  then have same: "queue p' = queue p" "CIRCLE_ABORT_FLAG p' = CIRCLE_ABORT_FLAG p" "same_wave p p'"
      "work_requested p' = work_requested p" "input p' = input p"
      "work_requested_rank p' = work_requested_rank p" "next_processor p' = next_processor p"
    using only_sends_proc [of p p'] only_sends_same [of p p'] same_wave_sends [of p p'] by auto
  moreover have "proc_inv E p'" using inv r same by (simp add: proc_inv_def)
  ultimately show "effect E chan posted k ranks u (p, n, l) (p', n', l)"
    using r by (intro effect.refuse [where v = "if CIRCLE_ABORT_FLAG p \<noteq> 0 then PAYLOAD_ABORT else 0" and d = d]) auto
  show "queue p' = queue p" "CIRCLE_ABORT_FLAG p' = CIRCLE_ABORT_FLAG p" by (fact same)+
qed

lemma ship_effect:
  assumes comm: "mpi_comm E chan posted" and ok: "local_ok E chan posted k ranks p n" and ample: "mem_ample E"
    and mx: "int (CIRCLE_MAX_STRING_LEN E) \<le> INT32_MAX" and c: "0 < cnt" "cnt \<le> count (queue p)"
    and busy: "CIRCLE_ABORT_FLAG p = 0" and d: "d \<in> {0..<ranks}"
    and run: "CIRCLE_send_work E p n d cnt = Inr (rc, p', n')"
  shows "effect E chan posted k ranks u (p, n, l) (p', n', l)"
    and "count (queue p) - cnt \<le> count (queue p')" and "CIRCLE_ABORT_FLAG p' = 0"
proof -
  note inv = local_okD(1) [OF ok]
  from send_work_run [OF comm proc_invD(1,2) [OF inv] ample c mx run] obtain j xs bs where
    j: "0 < j" "j \<le> cnt" and q: "queue p' = (queue p)\<lparr>count := count (queue p) - j\<rparr>"
    and msg: "work_msg (CIRCLE_MAX_STRING_LEN E) (drop (nat (count (queue p) - j)) (items (queue p))) xs bs"
    and ch: "chan n' = put (put (chan n) (rank p, d, CIRCLE_TAG_WORK_REPLY) (Ints xs))
        (rank p, d, CIRCLE_TAG_WORK_REPLY) (Bytes bs)" "posted n' = posted n"
    and wo: "work_outstanding p' = work_outstanding p + 1" "sends_wf p'" "only_transfer p p'"
    by blast
  note same = only_transfer_same [OF wo(3)]
  have jc: "0 \<le> j" "j \<le> count (queue p)" using j c by simp_all
  note rem = suffix_removed [OF proc_invD(1) [OF inv] jc]
  have "work_requested p = 0" using c proc_invD(3) [OF inv] by auto
  then have "proc_inv E p'" using inv rem(1) wo same q by (simp add: proc_inv_def)
  moreover have "same_wave (p\<lparr>work_outstanding := work_outstanding p + 1\<rparr>) p'"
    using same wo by (simp add: same_wave_def wave_part_def)
  moreover have "\<not> idle p" using c busy by (simp add: idle_def)
  moreover have "items (queue p) = items (queue p') @ drop (nat (count (queue p) - j)) (items (queue p))"
    using rem(2) q by simp
  ultimately show "effect E chan posted k ranks u (p, n, l) (p', n', l)"
    using d msg ch by (intro effect.ship)
  show "count (queue p) - cnt \<le> count (queue p')" "CIRCLE_ABORT_FLAG p' = 0" using j q same busy by simp_all
qed

text \<open>The requests received: everyone recorded is a rank.\<close>

definition all_ranks :: "int \<Rightarrow> int list option \<Rightarrow> nat \<Rightarrow> bool" where
  "all_ranks ranks reqs c \<longleftrightarrow> (\<forall>i < c. \<exists>xs. reqs = Some xs \<and> i < length xs \<and> xs ! i \<in> {0..<ranks})"

lemma all_ranks_add:
  assumes "all_ranks ranks reqs c" and "arr_set reqs (int c) d = Inr reqs'" and "d \<in> {0..<ranks}"
  shows "all_ranks ranks reqs' (Suc c)"
  using assms by (fastforce simp: all_ranks_def arr_set_eq_Inr nth_list_update less_Suc_eq)

lemma workreq_loop_run:
  assumes comm: "mpi_comm E chan posted" and inv: "proc_inv E p"
    and "sources_ok (chan n) ranks" and "all_ranks ranks reqs c" and "workreq_loop E (rank p) n reqs c = Inr (reqs', c', n')"
  shows "effects E chan posted k ranks u (p, n, l) (p, n', l) \<and> all_ranks ranks reqs' c'
    \<and> map_option length reqs' = map_option length reqs"
  using assms(3-5)
proof (induction "(case reqs of None \<Rightarrow> 0 | Some xs \<Rightarrow> length xs) - c" arbitrary: n reqs c rule: less_induct)
  case less
  note run = less.prems(3) [unfolded workreq_loop.simps [of E "rank p" n reqs c]]
  obtain po n1 where pr: "mpi_iprobe E n (rank p) (MPI_ANY_SOURCE E) CIRCLE_TAG_WORK_REQUEST = (po, n1)" by fastforce
  have sp: "effect E chan posted k ranks u (p, n, l) (p, n1, l)"
    by (rule quiet_net [OF inv mpi_comm.side_probe [OF comm pr]])
  show ?case
  proof (cases po)
    case None
    then show ?thesis using run pr sp less.prems(2) by auto
  next
    case (Some status)
    from mpi_comm.recv_after_probe [OF comm pr [unfolded Some]] obtain m ms n2 where
      m: "chan n (MPI_SOURCE status, rank p, CIRCLE_TAG_WORK_REQUEST) = m # ms"
        "MPI_Recv E n1 (rank p) (MPI_SOURCE status) CIRCLE_TAG_WORK_REQUEST = Inr (m, n2)"
        "chan n2 = (chan n)((MPI_SOURCE status, rank p, CIRCLE_TAG_WORK_REQUEST) := ms)" "posted n2 = posted n" by blast
    obtain n3 where n3: "recv_empty E n1 (rank p) (MPI_SOURCE status) CIRCLE_TAG_WORK_REQUEST = Inr n3"
      using run pr Some by (auto split: sum.splits)
    then have "n3 = n2" using m(2) by (simp add: recv_eqs)
    with run pr Some n3 obtain reqs1 where
      set: "arr_set reqs (int c) (MPI_SOURCE status) = Inr reqs1"
      and rest: "workreq_loop E (rank p) n2 reqs1 (Suc c) = Inr (reqs', c', n')"
      by (auto split: sum.splits)
    have "sources_ok (chan n2) ranks" using sources_ok_take [OF less.prems(1)] m(1,3) by simp
    moreover have "all_ranks ranks reqs1 (Suc c)"
      using all_ranks_add [OF less.prems(2) set] source_in_range [OF less.prems(1) m(1)] by simp
    moreover have "(case reqs1 of None \<Rightarrow> 0 | Some xs \<Rightarrow> length xs) - Suc c < (case reqs of None \<Rightarrow> 0 | Some xs \<Rightarrow> length xs) - c"
      using set by (auto simp: arr_set_eq_Inr)
    ultimately have "effects E chan posted k ranks u (p, n2, l) (p, n', l) \<and> all_ranks ranks reqs' c'
        \<and> map_option length reqs' = map_option length reqs1"
      using less.hyps rest by blast
    moreover have "map_option length reqs1 = map_option length reqs" using set by (auto simp: arr_set_eq_Inr)
    moreover have "effect E chan posted k ranks u (p, n, l) (p, n2, l)" by (rule effect.hear [OF m(1,3,4)])
    ultimately show ?thesis using converse_rtranclp_into_rtranclp by fastforce
  qed
qed

text \<open>
  The shares fit the queue: from the second entry on they are non-negative and add up to no more than
  what is queued.
\<close>

lemma shares_nonneg: "0 < ranks \<Longrightarrow> 0 \<le> cnt \<Longrightarrow> s \<in> set (shares ranks cnt) \<Longrightarrow> 0 \<le> s"
  using shares_balanced [of ranks s cnt] by (auto simp: pos_imp_zdiv_nonneg_iff)

lemma work_shares_run:
  assumes run: "work_shares E p sizes (int rc) = Inr (sizes', p')" and len: "sizes = Some zs" "length zs = Suc rc"
    and rc: "0 < rc" and cnt: "0 < count (queue p)" and rand: "\<And>s. 0 \<le> fst (rand_r E s)"
  shows "\<exists>ys. sizes' = Some ys \<and> length ys = Suc rc \<and> (\<forall>s \<in> set (tl ys). 0 \<le> s) \<and> sum_list (tl ys) \<le> count (queue p)"
    and "p' = p \<or> (\<exists>s. p' = p\<lparr>seed := s\<rparr>)"
proof -
  have "\<exists>ys. sizes' = Some ys \<and> length ys = Suc rc \<and> (\<forall>s \<in> set (tl ys). 0 \<le> s) \<and> sum_list (tl ys) \<le> count (queue p)"
  proof (cases "options (input p) AND CIRCLE_SPLIT_EQUAL \<noteq> 0")
    case True
    let ?s = "shares (int rc + 1) (count (queue p))"
    have l: "length ?s = Suc rc" using length_shares [of "int rc + 1" "count (queue p)"] by simp
    have "sizes' = Some ?s"
      using run True spread_counts_result [of "int rc + 1" "count (queue p)" 0 zs] cnt len
      by (auto simp: work_shares_def)
    moreover have nn: "\<forall>s \<in> set ?s. 0 \<le> s" using shares_nonneg [of "int rc + 1" "count (queue p)"] cnt by simp
    moreover have "sum_list ?s = hd ?s + sum_list (tl ?s)" using l by (cases ?s) simp_all
    moreover have "0 \<le> hd ?s" "set (tl ?s) \<subseteq> set ?s" using nn l by (cases ?s; auto)+
    ultimately show ?thesis using l sum_list_shares [of "int rc + 1" "count (queue p)"] by auto
  next
    case False
    obtain v s where v: "rand_r E (seed p) = (v, s)" "0 \<le> v" using rand [of "seed p"] by (metis fst_conv surj_pair)
    define sc where "sc = (let c = v smod count (queue p) + 1 in if c = count (queue p) then c - 1 else c)"
    have sm: "v smod count (queue p) = v mod count (queue p)" using v(2) cnt by (simp add: smod_nonneg)
    have sc: "0 \<le> sc" "sc \<le> count (queue p)"
      using pos_mod_sign [OF cnt, of v] pos_mod_bound [OF cnt, of v] by (auto simp: sc_def Let_def sm)
    let ?s = "shares (int rc) sc"
    have l: "length ?s = rc" using length_shares [of "int rc" sc] rc by simp
    have "sizes' = Some ((count (queue p) - sc) # ?s)"
      using run False v cnt len rc sc spread_counts_result [of "int rc" sc 1 "zs[0 := count (queue p) - sc]"]
      by (auto simp: work_shares_def Let_def sc_def [unfolded Let_def, symmetric] outcome take_Suc hd_conv_nth split: if_splits)
    then show ?thesis using l shares_nonneg [of "int rc" sc] sum_list_shares [of "int rc" sc] rc sc by auto
  qed
  then show "\<exists>ys. sizes' = Some ys \<and> length ys = Suc rc \<and> (\<forall>s \<in> set (tl ys). 0 \<le> s) \<and> sum_list (tl ys) \<le> count (queue p)" .
  show "p' = p \<or> (\<exists>s. p' = p\<lparr>seed := s\<rparr>)"
    using run by (auto simp: work_shares_def Let_def outcome split: if_splits prod.splits)
qed

lemma send_many_effects:
  fixes p :: "'u proc" and n :: 'n
  assumes comm: "mpi_comm E chan posted" and ok: "local_ok E chan posted k ranks p n" and ample: "mem_ample E"
    and mx: "int (CIRCLE_MAX_STRING_LEN E) \<le> INT32_MAX" and rand: "\<And>s. 0 \<le> fst (rand_r E s)"
    and busy: "CIRCLE_ABORT_FLAG p = 0" "0 < count (queue p)" and reqs: "all_ranks ranks reqs rc" and rc: "0 < rc"
    and run: "CIRCLE_send_work_to_many E p n reqs (int rc) = Inr (p', n')"
  shows "effects E chan posted k ranks u (p, n, l) (p', n', l)"
proof -
  define body where "body ys i s = (case s of (p, n) \<Rightarrow>
    andThen (arr_get reqs (int i)) (\<lambda>dest. andThen (arr_get (Some ys) (int i + 1)) (\<lambda>share.
    andThen (CIRCLE_send_work E p n dest share) (\<lambda>(rc, p, n). Inr (p, n)))))" for ys i and s :: "'u proc \<times> 'n"
  have sz: "malloc_arr E (\<lambda>_. 0) 4 (nat (int rc + 1)) = Some (map (\<lambda>_. 0 :: int) [0..<nat (int rc + 1)])"
    using ample by (simp add: malloc_arr_def)
  from run rc sz obtain sizes' p1 where ws: "work_shares E p (Some (map (\<lambda>_. 0) [0..<nat (int rc + 1)])) (int rc) = Inr (sizes', p1)"
    and loop0: "for_list (\<lambda>i (p, n). andThen (arr_get reqs (int i)) (\<lambda>dest. andThen (arr_get sizes' (int i + 1)) (\<lambda>share.
      andThen (CIRCLE_send_work E p n dest share) (\<lambda>(rc, p, n). Inr (p, n))))) [0..<rc] (p1, n) = Inr (p', n')"
    by (auto simp: CIRCLE_send_work_to_many_def Let_def outcome)
  have "length (map (\<lambda>_. 0 :: int) [0..<nat (int rc + 1)]) = Suc rc" by (simp add: nat_add_distrib)
  from work_shares_run [OF ws refl this rc busy(2) rand] obtain ys where
    ys: "sizes' = Some ys" "length ys = Suc rc" "\<forall>s \<in> set (tl ys). 0 \<le> s" "sum_list (tl ys) \<le> count (queue p)"
    and p1: "p1 = p \<or> (\<exists>s. p1 = p\<lparr>seed := s\<rparr>)" by blast
  have loop: "for_list (body ys) [0..<rc] (p1, n) = Inr (p', n')" using loop0 unfolding ys(1) body_def .
  have eq: "queue p1 = queue p" "CIRCLE_ABORT_FLAG p1 = CIRCLE_ABORT_FLAG p" "same_wave p p1" "proc_inv E p1"
    "work_requested p1 = work_requested p" "work_requested_rank p1 = work_requested_rank p"
    using p1 local_okD(1) [OF ok] by (auto simp: same_wave_def wave_part_def proc_inv_def)
  have first: "effect E chan posted k ranks u (p, n, l) (p1, n, l)"
    by (rule effect.quiet) (use eq in \<open>auto simp: silent_def idle_def\<close>)
  define I where "I xs (q :: 'u proc) \<longleftrightarrow> CIRCLE_ABORT_FLAG q = 0 \<and> (\<forall>i \<in> set xs. i < rc)
      \<and> sum_list (map (\<lambda>i. tl ys ! i) xs) \<le> count (queue q)" for xs q
  have "effects E chan posted k ranks u (p1, n, l) (p', n', l)"
  proof (rule for_list_effects [where I = I, OF loop effect_local_ok [OF first ok]])
    have "map (\<lambda>i. tl ys ! i) [0..<rc] = tl ys" using ys(2) by (intro nth_equalityI) auto
    then show "I [0..<rc] p1" using busy eq ys(4) by (simp add: I_def)
  next
    fix i xs q m q' m'
    assume lok: "local_ok E chan posted k ranks q m" and inv: "I (i # xs) q" and b: "body ys i (q, m) = Inr (q', m')"
    from inv reqs obtain zs where i: "i < rc" "reqs = Some zs" "i < length zs" "zs ! i \<in> {0..<ranks}"
      by (auto simp: I_def all_ranks_def)
    have share: "arr_get (Some ys) (int i + 1) = Inr (tl ys ! i)"
      using i(1) ys(2) by (simp add: nth_tl nat_add_distrib)
    with b i obtain r where sw: "CIRCLE_send_work E q m (zs ! i) (tl ys ! i) = Inr (r, q', m')"
      by (auto simp: body_def outcome)
    have nn: "0 \<le> tl ys ! i" "0 \<le> sum_list (map (\<lambda>i. tl ys ! i) xs)"
      using ys(2,3) inv i(1) by (auto simp: I_def intro!: sum_list_nonneg)
    show "effects E chan posted k ranks u (q, m, l) (q', m', l) \<and> I xs q'"
    proof (cases "tl ys ! i = 0")
      case True
      then have "CIRCLE_send_no_work E q m (zs ! i) = Inr (q', m')" using sw by (auto simp: CIRCLE_send_work_def outcome)
      from refuse_effect(1) [OF comm lok ample this, of u l] refuse_effect(2,3) [OF comm lok ample this] inv True
      show ?thesis by (auto simp: I_def)
    next
      case False
      then have c: "0 < tl ys ! i" "tl ys ! i \<le> count (queue q)" and a: "CIRCLE_ABORT_FLAG q = 0"
        using nn inv by (auto simp: I_def)
      note sh = ship_effect [OF comm lok ample mx c a i(4) sw]
      then show ?thesis using inv by (auto simp: I_def)
    qed
  qed
  with first show ?thesis by (rule converse_rtranclp_into_rtranclp)
qed

lemma serve_effects:
  assumes comm: "mpi_comm E chan posted" and ok: "local_ok E chan posted k ranks p n" and ample: "mem_ample E"
    and mx: "int (CIRCLE_MAX_STRING_LEN E) \<le> INT32_MAX" and rand: "\<And>s. 0 \<le> fst (rand_r E s)"
    and run: "CIRCLE_workreq_check E p n cleanup = Inr (p', n')"
  shows "effects E chan posted k ranks u (p, n, l) (p', n', l)"
proof -
  from run obtain reqs rc n1 where loop: "workreq_loop E (rank p) n (requestors p) 0 = Inr (reqs, rc, n1)"
    by (auto simp: CIRCLE_workreq_check_def outcome)
  have w: "effects E chan posted k ranks u (p, n, l) (p, n1, l) \<and> all_ranks ranks reqs rc
      \<and> map_option length reqs = map_option length (requestors p)"
    by (rule workreq_loop_run [OF comm local_okD(1,4) [OF ok] _ loop]) (simp add: all_ranks_def)
  define p1 where "p1 = p\<lparr>requestors := reqs\<rparr>"
  have "effect E chan posted k ranks u (p, n1, l) (p1, n1, l)"
    by (rule effect.quiet) (use local_okD(1) [OF ok] w in
      \<open>auto simp: p1_def silent_def same_wave_def wave_part_def proc_inv_def idle_def\<close>)
  with w have eff: "effects E chan posted k ranks u (p, n, l) (p1, n1, l)" by (meson rtranclp.rtrancl_into_rtrancl)
  note ok1 = effects_local_ok(1) [OF eff ok]
  have ar: "all_ranks ranks reqs rc" using w by simp
  have p1: "queue p1 = queue p" "CIRCLE_ABORT_FLAG p1 = CIRCLE_ABORT_FLAG p" by (simp_all add: p1_def)
  have "effects E chan posted k ranks u (p1, n1, l) (p', n', l)"
  proof (cases "rc = 0")
    case True
    then show ?thesis using run loop by (simp add: CIRCLE_workreq_check_def p1_def)
  next
    case False
    then obtain limit where lim: "c_int (4 * comm_size p1) = Inr limit"
      using run loop by (auto simp: CIRCLE_workreq_check_def outcome p1_def Let_def)
    show ?thesis
    proof (cases "count (queue p1) = 0 \<or> cleanup \<or> CIRCLE_ABORT_FLAG p1 \<noteq> 0 \<or> send_count p1 \<ge> limit")
      case True
      then have "for_list (\<lambda>i (p, n). andThen (arr_get reqs (int i)) (CIRCLE_send_no_work E p n)) [0..<rc] (p1, n1) = Inr (p', n')"
        using run loop False lim by (simp add: CIRCLE_workreq_check_def p1_def Let_def)
      then show ?thesis
      proof (rule for_list_effects [where I = "\<lambda>_ _. True", OF _ ok1])
        fix i q m q' m'
        assume lok: "local_ok E chan posted k ranks q m"
          and "(case (q, m) of (p, n) \<Rightarrow> andThen (arr_get reqs (int i)) (CIRCLE_send_no_work E p n)) = Inr (q', m')"
        then obtain d where "CIRCLE_send_no_work E q m d = Inr (q', m')" by (auto simp: outcome)
        from refuse_effect(1) [OF comm lok ample this]
        show "effects E chan posted k ranks u (q, m, l) (q', m', l) \<and> True" by auto
      qed simp
    next
      case nr: False
      then have "CIRCLE_send_work_to_many E p1 n1 reqs (int rc) = Inr (p', n')"
        using run loop False lim by (simp add: CIRCLE_workreq_check_def p1_def Let_def)
      moreover have "0 < count (queue p1)"
        using nr queue_wf_count [OF proc_invD(1) [OF local_okD(1) [OF ok1]]] by auto
      ultimately show ?thesis using nr False by (intro send_many_effects [OF comm ok1 ample mx rand _ _ ar]) auto
    qed
  qed
  with eff show ?thesis by (rule rtranclp_trans)
qed

text \<open>Asking for work, and taking what was sent in reply.\<close>

lemma reply_effects:
  assumes comm: "mpi_comm E chan posted" and ok: "local_ok E chan posted k ranks p n" and ample: "mem_ample E"
    and wait: "work_requested p \<noteq> 0"
    and hit: "mpi_iprobe E n (rank p) d CIRCLE_TAG_WORK_REPLY = (Some status, n1)" and any: "d \<noteq> MPI_ANY_SOURCE E"
    and run: "CIRCLE_work_receive E p n1 d (MPI_COUNT status) = Inr (rc, p1, n')"
  shows "effect E chan posted k ranks u (p, n, l) (p1\<lparr>work_requested := 0\<rparr>, n', l)"
proof -
  note inv = local_okD(1) [OF ok]
  from mpi_comm.probe_hit [OF comm hit] any obtain m ms where
    m: "chan n (d, rank p, CIRCLE_TAG_WORK_REPLY) = m # ms" "MPI_COUNT status = msg_count m" by auto
  have n1: "chan n1 = chan n" "posted n1 = posted n" using mpi_comm.probe_keeps [OF comm hit] by auto
  have d: "d \<in> {0..<ranks}" using source_in_range [OF local_okD(4) [OF ok] m(1)] by simp
  have "replies_ok (CIRCLE_MAX_STRING_LEN E) (m # ms)"
    using local_okD(5) [OF ok, of d "rank p"] unfolding m(1) .
  then show ?thesis
  proof (cases rule: replies_ok_cases)
    case (refused v)
    have c: "chan n1 (d, rank p, CIRCLE_TAG_WORK_REPLY) = Ints [v] # ms" using m n1 refused by simp
    have run1: "CIRCLE_work_receive E p n1 d 1 = Inr (rc, p1, n')" using run m(2) refused(1) by simp
    note r = work_receive_refused [OF comm c refused(2) ample run1]
    define q where "q = p\<lparr>CIRCLE_ABORT_FLAG := CIRCLE_ABORT_FLAG p1\<rparr>"
    have tr: "only_transfer q p1" using r unfolding q_def by blast
    note same = only_transfer_same [OF tr, unfolded q_def, simplified]
    have s1: "queue p1 = queue p" "sends_wf p1" "work_outstanding p1 = work_outstanding p"
        "chan n' = (chan n1)((d, rank p, CIRCLE_TAG_WORK_REPLY) := ms)" "posted n' = posted n1"
        "CIRCLE_ABORT_FLAG p \<noteq> 0 \<longrightarrow> CIRCLE_ABORT_FLAG p1 \<noteq> 0"
      using r proc_invD(2) [OF inv] by auto
    show ?thesis
    proof (rule effect.refused [where d = d and v = v and ms = ms])
      show "proc_inv E (p1\<lparr>work_requested := 0\<rparr>)"
        using s1(1,2) inv same by (simp add: proc_inv_def)
      show "same_wave p (p1\<lparr>work_requested := 0\<rparr>)"
        using s1(3) same by (simp add: same_wave_def wave_part_def)
      show "idle p \<longrightarrow> idle (p1\<lparr>work_requested := 0\<rparr>)" using s1(1,6) by (simp add: idle_def)
    qed (use m n1 s1 refused in simp_all)
  next
    case (work xs bs ms')
    have c: "chan n1 (d, rank p, CIRCLE_TAG_WORK_REPLY) = Ints xs # Bytes bs # ms'" using m n1 work by simp
    have run1: "CIRCLE_work_receive E p n1 d (int (length xs)) = Inr (rc, p1, n')" using run m(2) work(1) by simp
    note r = work_receive_work [OF comm c work(3) proc_invD(1) [OF inv] proc_invD(3) [OF inv wait] proc_invD(2) [OF inv] ample run1]
    then have tr: "only_transfer p p1" by blast
    note same = only_transfer_same [OF tr]
    have empty: "items (queue p) = []"
      using items_empty_iff [OF proc_invD(1) [OF inv]] proc_invD(3) [OF inv wait] by simp
    show ?thesis
    proof (rule effect.take [OF d _ work(3)])
      show "proc_inv E (p1\<lparr>work_requested := 0\<rparr>)" using r inv same by (simp add: proc_inv_def)
      show "same_wave p (p1\<lparr>work_requested := 0\<rparr>)" using r same by (simp add: same_wave_def wave_part_def)
    qed (use m n1 r work empty in simp_all)
  qed
qed

lemma request_effects:
  assumes comm: "mpi_comm E chan posted" and ok: "local_ok E chan posted k ranks p n" and ample: "mem_ample E"
    and guard: "cleanup \<or> count (queue p) = 0" and rand: "\<And>s. 0 \<le> fst (rand_r E s)"
    and run: "CIRCLE_request_work E p n cleanup = Inr (rc, p', n')"
  shows "effects E chan posted k ranks u (p, n, l) (p', n', l)"
proof -
  obtain free p1 n1 where t: "(if work_request_req p \<noteq> MPI_REQUEST_NULL
            then (case MPI_Test E n (work_request_req p) of (flag, req, n) \<Rightarrow> (flag, p\<lparr>work_request_req := req\<rparr>, n))
            else (True, p, n)) = (free, p1, n1)" by (metis prod_cases3)
  have p1: "p1 = p\<lparr>work_request_req := work_request_req p1\<rparr>" "side chan posted (rank p) n n1"
    using t mpi_comm.side_test [OF comm _ local_okD(3) [OF ok]] by (auto split: if_splits prod.splits)
  obtain r0 where r0: "p1 = p\<lparr>work_request_req := r0\<rparr>" using p1(1) by blast
  then have e1: "effect E chan posted k ranks u (p, n, l) (p1, n1, l)"
    using local_okD(1) [OF ok] p1(2)
    by (intro effect.quiet) (auto simp: silent_def same_wave_def wave_part_def proc_inv_def idle_def)
  note ok1 = effect_local_ok [OF e1 ok]
  note inv1 = local_okD(1) [OF ok1]
  note run1 = run [unfolded CIRCLE_request_work_def t]
  have "effect E chan posted k ranks u (p1, n1, l) (p', n', l) \<or> (p', n') = (p1, n1)"
  proof (cases "work_requested p1 \<noteq> 0")
    case True
    obtain po n2 where pr: "mpi_iprobe E n1 (rank p1) (work_requested_rank p1) CIRCLE_TAG_WORK_REPLY = (po, n2)" by fastforce
    show ?thesis
    proof (cases po)
      case None
      then have "p' = p1" "n' = n2" using run1 True pr by simp_all
      then show ?thesis using quiet_net [OF inv1 mpi_comm.side_probe [OF comm pr]] by simp
    next
      case (Some status)
      then obtain p2 where "CIRCLE_work_receive E p1 n2 (work_requested_rank p1) (MPI_COUNT status) = Inr (rc, p2, n')"
          "p' = p2\<lparr>work_requested := 0\<rparr>"
        using run1 True pr by (auto simp: outcome)
      moreover have "work_requested_rank p1 \<noteq> MPI_ANY_SOURCE E"
        using proc_invD(5) [OF inv1 True] mpi_comm.any_source [OF comm] by simp
      ultimately show ?thesis using reply_effects [OF comm ok1 ample True pr [unfolded Some]] by simp
    qed
  next
    case nowait: False
    show ?thesis
    proof (cases "\<not> cleanup \<and> CIRCLE_ABORT_FLAG p1 = 0 \<and> free \<and> next_processor p1 \<noteq> MPI_PROC_NULL E")
      case False
      then show ?thesis using run1 nowait by (auto split: if_splits)
    next
      case True
      define p2 where "p2 = p1\<lparr>local_work_requested := local_work_requested p1 + 1\<rparr>"
      obtain r n2 where s: "mpi_isend E n1 (rank p1) (next_processor p1) CIRCLE_TAG_WORK_REQUEST (Bytes []) = (r, n2)" by fastforce
      from run1 nowait True s obtain p3 where
        g: "CIRCLE_get_next_proc E (p2\<lparr>work_request_req := MPI_Req r, work_requested := 1, work_requested_rank := next_processor p1\<rparr>) = Inr p3"
        and fin: "p' = p3" "n' = n2"
        by (auto simp: outcome Let_def p2_def)
      obtain a b where a: "next_processor p3 = a" and b: "seed p3 = b" by simp
      note gn = get_next_proc_run [OF g rand]
      have p3: "p3 = (p2\<lparr>work_request_req := MPI_Req r, work_requested := 1, work_requested_rank := next_processor p1\<rparr>)
          \<lparr>next_processor := a, seed := b\<rparr>" using gn(1) a b by simp
      have "0 \<le> a \<or> a = MPI_PROC_NULL E" using gn(2) a by (auto split: if_splits)
      moreover have "queue p1 = queue p" using r0 by auto
      ultimately have "proc_inv E p'" "same_wave p1 p'"
        using inv1 proc_invD(6) [OF inv1] guard True unfolding fin p3 p2_def
        by (simp_all add: same_wave_def wave_part_def proc_inv_def)
      moreover have "queue p' = queue p1" "CIRCLE_ABORT_FLAG p' = CIRCLE_ABORT_FLAG p1" by (simp_all add: fin p3 p2_def)
      ultimately have "effect E chan posted k ranks u (p1, n1, l) (p', n', l)"
        using mpi_comm.isend_adds [OF comm s] fin(2) by (intro effect.ask) (auto simp: put_def)
      then show ?thesis by simp
    qed
  qed
  with e1 show ?thesis by auto
qed

section \<open>Termination detection\<close>

lemma fan_put:
  "c \<notin> set cs \<Longrightarrow> fan (put ch (me, c, t) m) me cs t m = fan ch me (c # cs) t m"
  by (auto simp: fan_def put_apply fun_eq_iff)

lemma send_loop_run:
  assumes comm: "mpi_comm E chan posted"
    and "for_list (\<lambda>c n. MPI_Send E n me c tag m) cs n = Inr n'" and "distinct cs"
  shows "chan n' = fan (chan n) me cs tag m \<and> posted n' = posted n"
  using assms(2,3)
proof (induction cs arbitrary: n)
  case Nil
  then show ?case by (auto simp: fan_def)
next
  case (Cons c cs)
  then obtain n1 where s: "MPI_Send E n me c tag m = Inr n1" "for_list (\<lambda>c n. MPI_Send E n me c tag m) cs n1 = Inr n'"
    by (auto simp: outcome)
  then have "chan n' = fan (chan n1) me cs tag m \<and> posted n' = posted n1" using Cons by simp
  then show ?case
    using mpi_comm.MPI_Send_adds [OF comm s(1)] fan_put [of c cs "chan n" me tag m] Cons.prems(2)
    by (simp add: put_def)
qed

lemma tree_okD:
  assumes "tree_ok E k ranks p"
  shows "child_list (tree p) = Inr (tree_kids k ranks (rank p))"
    "children (tree p) = int (length (tree_kids k ranks (rank p)))"
    "parent_rank (tree p) = (if rank p = 0 then MPI_PROC_NULL E else tree_parent k (rank p))"
  using assms by (simp_all add: tree_ok_def)

lemma send_children_run:
  assumes comm: "mpi_comm E chan posted" and tree: "tree_ok E k ranks p"
    and run: "send_children E (tree p) n (rank p) tag m = Inr n'"
  shows "chan n' = fan (chan n) (rank p) (tree_kids k ranks (rank p)) tag m \<and> posted n' = posted n"
  using run tree_okD(1) [OF tree] send_loop_run [OF comm, of "rank p" tag m "tree_kids k ranks (rank p)" n n']
  by (simp add: send_children_def tree_kids_def)

lemma parent_null:
  assumes "mpi_comm E chan posted" and "tree_ok E k ranks p" and "rank p \<in> {0..<ranks}" and "0 < k"
  shows "parent_rank (tree p) = MPI_PROC_NULL E \<longleftrightarrow> rank p = 0"
proof -
  have "0 \<le> (rank p - 1) div k" if "rank p \<noteq> 0" using that assms(3,4) by (simp add: pos_imp_zdiv_nonneg_iff)
  then show ?thesis
    using tree_okD(3) [OF assms(2)] mpi_comm.proc_null [OF assms(1)] by (auto simp: tree_parent_def)
qed

lemma term_loop_effects:
  assumes comm: "mpi_comm E chan posted" and nl: "\<not> l"
  shows "term_loop E p n = Inr (p', n') \<Longrightarrow> local_ok E chan posted k ranks p n \<Longrightarrow>
    effects E chan posted k ranks u (p, n, l) (p', n', l) \<and> idle p' = idle p \<and> term_up p' = term_up p"
proof (induction "nat (children (tree p) - term_replies p)" arbitrary: p n rule: less_induct)
  case less
  note run = less.prems(1) [unfolded term_loop.simps [of E p n]]
  note ok = local_okD [OF less.prems(2)]
  show ?case
  proof (cases "term_replies p < children (tree p)")
    case True
    obtain po n1 where pr: "mpi_iprobe E n (rank p) (MPI_ANY_SOURCE E) CIRCLE_TAG_TERM = (po, n1)" by fastforce
    show ?thesis
    proof (cases po)
      case None
      then have "p' = p" "n' = n1" using run True pr by simp_all
      then show ?thesis using quiet_net [OF ok(1) mpi_comm.side_probe [OF comm pr]] by auto
    next
      case (Some status)
      from mpi_comm.recv_after_probe [OF comm pr [unfolded Some]] obtain m ms n2 where
        m: "chan n (MPI_SOURCE status, rank p, CIRCLE_TAG_TERM) = m # ms"
          "MPI_Recv E n1 (rank p) (MPI_SOURCE status) CIRCLE_TAG_TERM = Inr (m, n2)"
          "chan n2 = (chan n)((MPI_SOURCE status, rank p, CIRCLE_TAG_TERM) := ms)" "posted n2 = posted n" by blast
      obtain v n3 where n3: "recv_int E n1 (rank p) (MPI_SOURCE status) CIRCLE_TAG_TERM = Inr (v, n3)"
        using run True pr Some by (auto split: sum.splits)
      then have v: "n3 = n2" "m = Ints [v]" using m(2) by (simp_all add: recv_eqs)
      define p1 where "p1 = p\<lparr>term_flag := term_flag p AND v, term_replies := term_replies p + 1\<rparr>"
      have eff: "effect E chan posted k ranks u (p, n, l) (p1, n2, l)"
        unfolding p1_def using True m v nl by (intro effect.absorb) auto
      have "term_loop E p1 n2 = Inr (p', n')"
        using run True pr Some n3 v by (simp add: p1_def)
      from less.hyps [OF _ this effect_local_ok [OF eff less.prems(2)]] True eff
      show ?thesis by (simp add: p1_def idle_def converse_rtranclp_into_rtranclp)
    qed
  qed (use run in simp)
qed

text \<open>The result of a wave, when it has arrived.\<close>

lemma deliver_effects:
  assumes comm: "mpi_comm E chan posted" and nl: "\<not> l" and ok: "local_ok E chan posted k ranks p n"
    and up: "rank p \<noteq> 0" "term_up p \<noteq> 0" and par: "parent_rank (tree p) \<noteq> MPI_PROC_NULL E"
    and res: "term_result E p n flag = Inr (full, v, n1)"
    and fin: "if full
      then \<exists>n2. send_children E (tree p) n1 (rank p) CIRCLE_TAG_TERM (Ints [v]) = Inr n2 \<and> n' = n2
        \<and> p' = p\<lparr>term_up := 0, term_replies := 0\<rparr> \<and> st = (if v \<noteq> 0 then TERMINATE else WHITE)
      else p' = p \<and> n' = n1 \<and> st = WHITE"
  shows "effects E chan posted k ranks u (p, n, l) (p', n', l \<or> st = TERMINATE)"
proof -
  note lok = local_okD [OF ok]
  have pt: "parent_rank (tree p) = tree_parent k (rank p)" using tree_okD(3) [OF lok(6)] up by simp
  obtain po n0 where pr: "mpi_iprobe E n (rank p) (tree_parent k (rank p)) CIRCLE_TAG_TERM = (po, n0)" by fastforce
  show ?thesis
  proof (cases po)
    case None
    then have "\<not> full" "n1 = n0" using res up par pr pt by (simp_all add: term_result_def)
    then show ?thesis using quiet_net [OF lok(1) mpi_comm.side_probe [OF comm pr], of k ranks u l] fin by auto
  next
    case (Some status)
    then have c: full and r: "recv_int E n0 (rank p) (tree_parent k (rank p)) CIRCLE_TAG_TERM = Inr (v, n1)"
      using res up par pr pt by (auto simp: term_result_def outcome)
    from r obtain ms where "chan n0 (tree_parent k (rank p), rank p, CIRCLE_TAG_TERM) = Ints [v] # ms"
        "chan n1 = (chan n0)((tree_parent k (rank p), rank p, CIRCLE_TAG_TERM) := ms)" "posted n1 = posted n0"
      using mpi_comm.MPI_Recv_takes [OF comm r [unfolded recv_int_eq]] by blast
    then have m: "chan n (tree_parent k (rank p), rank p, CIRCLE_TAG_TERM) = Ints [v] # ms"
        "chan n1 = (chan n)((tree_parent k (rank p), rank p, CIRCLE_TAG_TERM) := ms)" "posted n1 = posted n"
      using mpi_comm.probe_keeps [OF comm pr] by simp_all
    from fin c obtain n2 where s: "send_children E (tree p) n1 (rank p) CIRCLE_TAG_TERM (Ints [v]) = Inr n2" "n' = n2"
        "p' = p\<lparr>term_up := 0, term_replies := 0\<rparr>" "st = (if v \<noteq> 0 then TERMINATE else WHITE)" by auto
    have "effect E chan posted k ranks u (p, n, l) (p', n', v \<noteq> 0)"
      unfolding s(2,3) using send_children_run [OF comm lok(6) s(1)] m up nl by (intro effect.deliver) auto
    then show ?thesis using s(4) nl by auto
  qed
qed

lemma term_effects:
  assumes comm: "mpi_comm E chan posted" and nl: "\<not> l" and ok: "local_ok E chan posted k ranks p n" and k: "0 < k"
    and idle: "idle p" and root: "rank p = 0 \<longrightarrow> term_up p = 0"
    and run: "CIRCLE_check_for_term_allreduce E p n = Inr (st, p', n')"
  shows "effects E chan posted k ranks u (p, n, l) (p', n', l \<or> st = TERMINATE)"
proof -
  from run obtain p1 n1 where loop: "term_loop E p n = Inr (p1, n1)"
    by (auto simp: CIRCLE_check_for_term_allreduce_def outcome)
  note e1 = term_loop_effects [OF comm nl loop ok, of u]
  note ok1 = effects_local_ok [OF conjunct1 [OF e1] ok]
  note lok = local_okD [OF ok1(1)]
  note null = parent_null [OF comm lok(6,2) k]
  have root1: "term_up p1 = 0" if "rank p1 = 0" using that root e1 ok1(2) by simp
  have "effects E chan posted k ranks u (p1, n1, l) (p', n', l \<or> st = TERMINATE)"
  proof (cases "work_outstanding p1 > 0")
    case True
    then show ?thesis using run loop by (simp add: CIRCLE_check_for_term_allreduce_def)
  next
    case out: False
    from run loop out obtain flag p2 n2 where c: "term_contribute E p1 n1 = Inr (flag, p2, n2)"
      by (auto simp: CIRCLE_check_for_term_allreduce_def outcome)
    from run loop out c obtain full v n3 where res: "term_result E p2 n2 flag = Inr (full, v, n3)"
      by (auto simp: CIRCLE_check_for_term_allreduce_def outcome)
    have fin: "if full
        then \<exists>n4. send_children E (tree p2) n3 (rank p2) CIRCLE_TAG_TERM (Ints [v]) = Inr n4 \<and> n' = n4
          \<and> p' = p2\<lparr>term_up := 0, term_replies := 0\<rparr> \<and> st = (if v \<noteq> 0 then TERMINATE else WHITE)
        else p' = p2 \<and> n' = n3 \<and> st = WHITE"
    proof (cases full)
      case True
      then show ?thesis using run loop out c res by (auto simp: CIRCLE_check_for_term_allreduce_def andThen_eq_Inr)
    next
      case False
      then show ?thesis using run loop out c res by (simp add: CIRCLE_check_for_term_allreduce_def)
    qed
    show ?thesis
    proof (cases "term_up p1 = 0 \<and> term_replies p1 = children (tree p1)")
      case join: True
      show ?thesis
      proof (cases "rank p1 = 0")
        case True
        with null have p2: "flag = term_flag p1" "p2 = p1\<lparr>term_flag := 1, term_up := 1\<rparr>" "n2 = n1"
          using c join by (auto simp: term_contribute_def)
        then have full: full "v = term_flag p1" "n3 = n1" using res null True by (simp_all add: term_result_def)
        with fin p2 obtain n4 where s: "send_children E (tree p1) n1 (rank p1) CIRCLE_TAG_TERM (Ints [term_flag p1]) = Inr n4"
            "n' = n4" "p' = p1\<lparr>term_flag := 1, term_up := 0, term_replies := 0\<rparr>"
            "st = (if term_flag p1 \<noteq> 0 then TERMINATE else WHITE)" by auto
        have "effect E chan posted k ranks u (p1, n1, l) (p', n', term_flag p1 \<noteq> 0)"
          unfolding s(2,3) using send_children_run [OF comm lok(6) s(1)] True idle e1 out join nl
          by (intro effect.decide) auto
        then show ?thesis using s(4) nl by auto
      next
        case False
        with null have p2: "flag = 0" "p2 = p1\<lparr>term_flag := 1, term_up := 1\<rparr>"
            "MPI_Send E n1 (rank p1) (tree_parent k (rank p1)) CIRCLE_TAG_TERM (Ints [term_flag p1]) = Inr n2"
          using c join tree_okD(3) [OF lok(6)] by (auto simp: term_contribute_def outcome)
        have eff: "effect E chan posted k ranks u (p1, n1, l) (p2, n2, l)"
          unfolding p2(2)
          using False idle e1 out join nl mpi_comm.MPI_Send_adds [OF comm p2(3)]
          by (intro effect.contribute) (auto simp: put_def)
        have "effects E chan posted k ranks u (p2, n2, l) (p', n', l \<or> st = TERMINATE)"
          using False null p2(2)
          by (intro deliver_effects [OF comm nl effect_local_ok [OF eff ok1(1)] _ _ _ res fin]) auto
        with eff show ?thesis by (rule converse_rtranclp_into_rtranclp)
      qed
    next
      case False
      then have p2: "flag = 0" "p2 = p1" "n2 = n1" using c by (auto simp: term_contribute_def)
      show ?thesis
      proof (cases "term_up p1 = 0")
        case True
        then show ?thesis using res fin p2 by (simp add: term_result_def)
      next
        case up: False
        then have "rank p1 \<noteq> 0" using root1 by auto
        then show ?thesis
          using deliver_effects [OF comm nl ok1(1) _ up _ res [unfolded p2(2,3)] fin [unfolded p2(2)]] null by blast
      qed
    qed
  qed
  with e1 show ?thesis by (meson rtranclp_trans)
qed

section \<open>Barrier, abort and reductions are silent\<close>

text \<open>Fields that no invariant mentions.\<close>

lemma silent_update:
  assumes "proc_inv E p"
  shows "silent E chan posted p n (p\<lparr>barrier_started := b1\<rparr>) n" "silent E chan posted p n (p\<lparr>barrier_up := b2\<rparr>) n"
    "silent E chan posted p n (p\<lparr>barrier_replies := b3\<rparr>) n" "silent E chan posted p n (p\<lparr>abort_state := a1\<rparr>) n"
    "silent E chan posted p n (p\<lparr>abort_outstanding := a2\<rparr>) n" "silent E chan posted p n (p\<lparr>abort_req := a3\<rparr>) n"
    "silent E chan posted p n (p\<lparr>CIRCLE_ABORT_FLAG := 1\<rparr>) n" "silent E chan posted p n (p\<lparr>reduce_buf := r1\<rparr>) n"
    "silent E chan posted p n (p\<lparr>reduce_replies := r2\<rparr>) n" "silent E chan posted p n (p\<lparr>reduce_outstanding := r3\<rparr>) n"
    "silent E chan posted p n (p\<lparr>reduce_time_last := r4\<rparr>) n"
    "silent E chan posted p n (p\<lparr>local_objects_processed := k\<rparr>) n"
  using assms by (simp_all add: silent_def same_wave_def wave_part_def proc_inv_def idle_def)

lemma silent_net: "proc_inv E p \<Longrightarrow> side chan posted (rank p) n n' \<Longrightarrow> silent E chan posted p n p n'"
  by (simp add: silent_def)

text \<open>A change of the process, then one of the network.\<close>

lemma silent_then_net:
  "silent E chan posted p n p' n1 \<Longrightarrow> side chan posted (rank p) n1 n' \<Longrightarrow> silent E chan posted p n p' n'"
  using side_trans [of chan posted "rank p" n n1 n'] by (simp add: silent_def)

lemma for_list_silent:
  assumes "for_list f xs (p, n) = Inr (p', n')" and "proc_inv E p" and "net_ok posted n"
    and step: "\<And>x p n p' n'. proc_inv E p \<Longrightarrow> net_ok posted n \<Longrightarrow> f x (p, n) = Inr (p', n') \<Longrightarrow> silent E chan posted p n p' n'"
  shows "silent E chan posted p n p' n'"
  using assms(1-3)
proof (induction xs arbitrary: p n)
  case (Cons x xs)
  then obtain p1 n1 where f: "f x (p, n) = Inr (p1, n1)" "for_list f xs (p1, n1) = Inr (p', n')" by (auto simp: outcome)
  note s = step [OF Cons.prems(2,3) f(1)]
  from Cons.IH [OF f(2) silent_inv [OF s] silent_net_ok [OF s Cons.prems(3)]] show ?case by (rule silent_trans [OF s])
qed simp

lemma side_children:
  assumes "mpi_comm E chan posted" and "send_children E t n me tag m = Inr n'" and "\<not> wave_tag tag"
  shows "side chan posted me n n'"
  using assms(2) mpi_comm.side_send_children [OF assms(1) _ assms(3)] by (auto simp: send_children_def outcome)

lemma barrier_silent:
  assumes comm: "mpi_comm E chan posted" and inv: "proc_inv E p"
    and run: "CIRCLE_barrier_test E p n = Inr (rc, p', n')"
  shows "silent E chan posted p n p' n'" and "queue p' = queue p"
proof -
  have "silent E chan posted p n p' n' \<and> queue p' = queue p"
  proof (cases "barrier_started p = 0")
    case True
    then show ?thesis using run inv by (simp add: CIRCLE_barrier_test_def)
  next
    case False
    with run obtain p1 n1 where c: "barrier_collect E p n = Inr (p1, n1)" by (auto simp: CIRCLE_barrier_test_def outcome)
    have s1: "silent E chan posted p n p1 n1 \<and> queue p1 = queue p"
    proof (cases "barrier_replies p < children (tree p)")
      case True
      obtain po n0 where pr: "mpi_iprobe E n (rank p) (MPI_ANY_SOURCE E) CIRCLE_TAG_BARRIER = (po, n0)" by fastforce
      note sp = mpi_comm.side_probe [OF comm pr, of "rank p"]
      show ?thesis
      proof (cases po)
        case (Some status)
        then have r: "recv_empty E n0 (rank p) (MPI_SOURCE status) CIRCLE_TAG_BARRIER = Inr n1"
            "p1 = p\<lparr>barrier_replies := barrier_replies p + 1\<rparr>"
          using c True pr by (auto simp: barrier_collect_def outcome)
        then have "side chan posted (rank p) n0 n1" using mpi_comm.side_recv [OF comm] by (simp add: recv_eqs)
        with sp r(2) show ?thesis using silent_update(3) [OF inv] silent_then_net side_trans by fastforce
      qed (use c True pr sp silent_net [OF inv] in \<open>auto simp: barrier_collect_def\<close>)
    qed (use c inv in \<open>auto simp: barrier_collect_def\<close>)
    then have inv1: "proc_inv E p1" by (simp add: silent_def)
    from run False c obtain p2 n2 where rp: "barrier_report E p1 n1 = Inr (p2, n2)"
      by (auto simp: CIRCLE_barrier_test_def outcome)
    have sent: "silent E chan posted p1 n1 (p1\<lparr>barrier_up := 1\<rparr>) n3"
      if "MPI_Send E n1 (rank p1) (parent_rank (tree p1)) CIRCLE_TAG_BARRIER (Bytes []) = Inr n3" for n3
      using silent_then_net [OF silent_update(2) [OF inv1] mpi_comm.side_send [OF comm that]] by simp
    have s2: "silent E chan posted p1 n1 p2 n2 \<and> queue p2 = queue p1"
      using rp inv1 silent_update(2) [OF inv1] sent by (auto simp: barrier_report_def outcome split: if_splits)
    then have inv2: "proc_inv E p2" by (simp add: silent_def)
    from run False c rp obtain full n3 where rl: "barrier_released E p2 n2 = Inr (full, n3)"
      by (auto simp: CIRCLE_barrier_test_def outcome)
    have sd: "side chan posted (rank p2) n2 n3"
    proof -
      obtain po n0 where pr: "mpi_iprobe E n2 (rank p2) (parent_rank (tree p2)) CIRCLE_TAG_BARRIER = (po, n0)" by fastforce
      note sp = mpi_comm.side_probe [OF comm pr, of "rank p2"]
      then show ?thesis
        using rl pr mpi_comm.side_recv [OF comm] side_trans [OF sp]
        by (auto simp: barrier_released_def outcome recv_eqs split: if_splits option.splits)
    qed
    have s3: "silent E chan posted p2 n2 p' n' \<and> queue p' = queue p2"
    proof (cases full)
      case True
      then have ch: "send_children E (tree p2) n3 (rank p2) CIRCLE_TAG_BARRIER (Bytes []) = Inr n'"
          and p': "p' = p2\<lparr>barrier_started := 0, barrier_up := 0, barrier_replies := 0\<rparr>"
        using run False c rp rl by (auto simp: CIRCLE_barrier_test_def outcome)
      have "side chan posted (rank p2) n2 n'" using side_trans [OF sd side_children [OF comm ch]] by simp
      then show ?thesis
        unfolding p' using inv2 by (simp add: silent_def same_wave_def wave_part_def proc_inv_def idle_def)
    next
      case False
      then have "p' = p2" "n' = n3" using run \<open>barrier_started p \<noteq> 0\<close> c rp rl by (auto simp: CIRCLE_barrier_test_def)
      then show ?thesis using silent_net [OF inv2 sd] by simp
    qed
    show ?thesis using s1 s2 s3 silent_trans by (metis (no_types))
  qed
  then show "silent E chan posted p n p' n'" "queue p' = queue p" by simp_all
qed

lemma abort_post_side:
  assumes comm: "mpi_comm E chan posted" and run: "abort_post E me peer (i, reqs, n) = Inr (i', reqs', n')"
  shows "side chan posted me n n'"
proof -
  obtain r n1 where a: "mpi_irecv E n me peer CIRCLE_TAG_ABORT_REPLY = (r, n1)" by fastforce
  obtain r2 n2 where b: "mpi_isend E n1 me peer CIRCLE_TAG_ABORT_REQUEST (Bytes []) = (r2, n2)" by fastforce
  have "n' = n2" using run a b by (auto simp: abort_post_def outcome)
  then show ?thesis
    using side_trans [OF mpi_comm.side_irecv [OF comm a] mpi_comm.side_isend [OF comm b]] by simp
qed

lemma abort_posts_side:
  assumes comm: "mpi_comm E chan posted"
    and "for_list (abort_post E me) cs (i, reqs, n) = Inr (i', reqs', n')"
  shows "side chan posted me n n'"
  using assms(2)
proof (induction cs arbitrary: i reqs n)
  case (Cons c cs)
  then obtain i1 reqs1 n1 where f: "abort_post E me c (i, reqs, n) = Inr (i1, reqs1, n1)"
      "for_list (abort_post E me) cs (i1, reqs1, n1) = Inr (i', reqs', n')" by (auto simp: outcome)
  show ?case by (rule side_trans [OF abort_post_side [OF comm f(1)] Cons.IH [OF f(2)]])
qed simp

lemma abort_start_silent:
  assumes comm: "mpi_comm E chan posted" and inv: "proc_inv E p"
    and run: "CIRCLE_abort_start E p n cleanup = Inr (p', n')"
  shows "silent E chan posted p n p' n'" and "queue p' = queue p"
proof -
  have "side chan posted (rank p) n n' \<and> same_wave p p' \<and> queue p' = queue p \<and> CIRCLE_ABORT_FLAG p' = 1 \<and> proc_inv E p'
    \<and> work_requested p' = work_requested p \<and> work_requested_rank p' = work_requested_rank p"
  proof (cases "abort_state p \<noteq> 0 \<or> cleanup")
    case True
    then have "CIRCLE_abort_start E p n cleanup = Inr (if abort_state p \<noteq> 0 then p\<lparr>CIRCLE_ABORT_FLAG := 1\<rparr>
        else p\<lparr>CIRCLE_ABORT_FLAG := 1, abort_state := 1\<rparr>, n)"
      by (simp add: CIRCLE_abort_start_def Let_def)
    with run have "n' = n" "p' = (if abort_state p \<noteq> 0 then p\<lparr>CIRCLE_ABORT_FLAG := 1\<rparr>
        else p\<lparr>CIRCLE_ABORT_FLAG := 1, abort_state := 1\<rparr>)" by simp_all
    then show ?thesis using inv by (auto simp: same_wave_def wave_part_def proc_inv_def)
  next
    case False
    then have chain: "andThen (if parent_rank (tree p) \<noteq> MPI_PROC_NULL E then abort_post E (rank p) (parent_rank (tree p)) (0, abort_req p, n)
        else Inr (0, abort_req p, n)) (\<lambda>s. andThen (child_list (tree p)) (\<lambda>cs.
        andThen (for_list (abort_post E (rank p)) cs s) (\<lambda>(i, reqs, n).
        Inr (if i > 0 then p\<lparr>CIRCLE_ABORT_FLAG := 1, abort_state := 1, abort_req := reqs, abort_outstanding := 1\<rparr>
             else p\<lparr>CIRCLE_ABORT_FLAG := 1, abort_state := 1, abort_req := reqs\<rparr>, n)))) = Inr (p', n')"
      using run by (simp add: CIRCLE_abort_start_def Let_def cong: if_cong)
    obtain s cs r where steps: "(if parent_rank (tree p) \<noteq> MPI_PROC_NULL E
        then abort_post E (rank p) (parent_rank (tree p)) (0, abort_req p, n) else Inr (0, abort_req p, n)) = Inr s"
      "for_list (abort_post E (rank p)) cs s = Inr r"
      "(case r of (i, reqs, n) \<Rightarrow>
        (Inr :: _ \<Rightarrow> _ result) (if i > 0 then p\<lparr>CIRCLE_ABORT_FLAG := 1, abort_state := 1, abort_req := reqs, abort_outstanding := 1\<rparr>
             else p\<lparr>CIRCLE_ABORT_FLAG := 1, abort_state := 1, abort_req := reqs\<rparr>, n)) = Inr (p', n')"
      using chain by (elim andThen_InrE) (rule that)
    obtain i reqs n1 i2 reqs2 n2 where sr: "s = (i, reqs, n1)" "r = (i2, reqs2, n2)" by (metis prod_cases3)
    from steps sr have
      a: "(if parent_rank (tree p) \<noteq> MPI_PROC_NULL E then abort_post E (rank p) (parent_rank (tree p)) (0, abort_req p, n)
           else Inr (0, abort_req p, n)) = Inr (i, reqs, n1)"
      and b: "for_list (abort_post E (rank p)) cs (i, reqs, n1) = Inr (i2, reqs2, n')"
      and p': "p' = (if i2 > 0 then p\<lparr>CIRCLE_ABORT_FLAG := 1, abort_state := 1, abort_req := reqs2, abort_outstanding := 1\<rparr>
             else p\<lparr>CIRCLE_ABORT_FLAG := 1, abort_state := 1, abort_req := reqs2\<rparr>)"
      by simp_all
    have "side chan posted (rank p) n n1"
      using a abort_post_side [OF comm, of "rank p" "parent_rank (tree p)" 0] by (auto split: if_splits)
    from side_trans [OF this abort_posts_side [OF comm b]] p' inv show ?thesis
      by (auto simp: same_wave_def wave_part_def proc_inv_def)
  qed
  then show "silent E chan posted p n p' n'" "queue p' = queue p" by (simp_all add: silent_def idle_def)
qed

lemma abort_check_silent:
  assumes comm: "mpi_comm E chan posted" and inv: "proc_inv E p" and ok: "net_ok posted n"
    and run: "CIRCLE_abort_check E p n cleanup = Inr (p', n')"
  shows "silent E chan posted p n p' n'" and "queue p' = queue p"
proof -
  from run obtain p1 n1 where a: "(if CIRCLE_ABORT_FLAG p \<noteq> 0 then CIRCLE_abort_start E p n cleanup else Inr (p, n)) = Inr (p1, n1)"
    by (auto simp: CIRCLE_abort_check_def outcome)
  have s1: "silent E chan posted p n p1 n1" "queue p1 = queue p"
    using a abort_start_silent [OF comm inv] inv by (auto split: if_splits)
  obtain po n2 where pr: "mpi_iprobe E n1 (rank p1) (MPI_ANY_SOURCE E) CIRCLE_TAG_ABORT_REQUEST = (po, n2)" by fastforce
  note inv1 = silent_inv [OF s1(1)]
  note s2 = silent_net [OF inv1 mpi_comm.side_probe [OF comm pr]]
  obtain p3 n3 where b: "(case (po, n2) of (None, n) \<Rightarrow> Inr (p1, n) | (Some status, n) \<Rightarrow>
      andThen (recv_empty E n (rank p1) (MPI_SOURCE status) CIRCLE_TAG_ABORT_REQUEST) (\<lambda>n.
      andThen (MPI_Send E n (rank p1) (MPI_SOURCE status) CIRCLE_TAG_ABORT_REPLY (Bytes [])) (\<lambda>n.
      CIRCLE_abort_start E p1 n cleanup))) = Inr (p3, n3)"
    using run a pr by (auto simp: CIRCLE_abort_check_def outcome)
  have s3: "silent E chan posted p1 n2 p3 n3" "queue p3 = queue p1"
  proof -
    have "silent E chan posted p1 n2 p3 n3 \<and> queue p3 = queue p1"
    proof (cases po)
      case (Some status)
      with b obtain n4 n5 where r: "recv_empty E n2 (rank p1) (MPI_SOURCE status) CIRCLE_TAG_ABORT_REQUEST = Inr n4"
        and sd: "MPI_Send E n4 (rank p1) (MPI_SOURCE status) CIRCLE_TAG_ABORT_REPLY (Bytes []) = Inr n5"
        and st: "CIRCLE_abort_start E p1 n5 cleanup = Inr (p3, n3)"
        by (auto simp: outcome)
      have "side chan posted (rank p1) n2 n4" using r mpi_comm.side_recv [OF comm] by (simp add: recv_eqs)
      from side_trans [OF this mpi_comm.side_send [OF comm sd]]
      have "silent E chan posted p1 n2 p1 n5" using silent_net [OF inv1] by simp
      from silent_trans [OF this abort_start_silent(1) [OF comm inv1 st]] abort_start_silent(2) [OF comm inv1 st]
      show ?thesis by simp
    qed (use b inv1 in simp)
    then show "silent E chan posted p1 n2 p3 n3" "queue p3 = queue p1" by simp_all
  qed
  note s13 = silent_trans [OF silent_trans [OF s1(1) s2] s3(1)]
  note inv3 = silent_inv [OF s13]
  have "silent E chan posted p3 n3 p' n' \<and> queue p' = queue p3"
  proof (cases "abort_outstanding p3 \<noteq> 0")
    case True
    then obtain reqs where pre: "arr_prefix (abort_req p3) (abort_num_req p3) = Inr reqs"
      using run a pr b by (auto simp: CIRCLE_abort_check_def outcome)
    obtain flag reqs' n4 where t: "MPI_Testall E n3 reqs = (flag, reqs', n4)" by (metis prod_cases3)
    define r2 where "r2 = map_option (\<lambda>rs. reqs' @ drop (length reqs') rs) (abort_req p3)"
    have p': "n' = n4" "p' = (if flag then p3\<lparr>abort_req := r2, abort_outstanding := 0\<rparr> else p3\<lparr>abort_req := r2\<rparr>)"
      using run a pr b True pre t by (auto simp: CIRCLE_abort_check_def Let_def r2_def)
    have "side chan posted (rank p3) n3 n'"
      using mpi_comm.side_testall [OF comm t silent_net_ok [OF s13 ok]] p'(1) by simp
    then show ?thesis unfolding p'(2) using inv3 by (auto simp: silent_def same_wave_def wave_part_def proc_inv_def idle_def)
  qed (use run a pr b inv3 in \<open>auto simp: CIRCLE_abort_check_def\<close>)
  then show "silent E chan posted p n p' n'" "queue p' = queue p"
    using silent_trans [OF s13] s3(2) s1(2) by auto
qed

lemma reduce_callbacks_silent:
  assumes inv: "proc_inv E p" and ample: "mem_ample E"
  shows "run_reduce_op E p inbuf insize = Inr p' \<Longrightarrow> silent E chan posted p n p' n"
    and "run_reduce_init E p = Inr p' \<Longrightarrow> silent E chan posted p n p' n"
    and "run_reduce_fini E p = Inr p' \<Longrightarrow> silent E chan posted p n p' n"
  using inv silent_callback [OF _ _ inv ample, of _ p' chan posted n] proc_invD(4) [OF inv]
  by (auto simp: run_reduce_op_def run_reduce_init_def run_reduce_fini_def input_ok_def split: option.splits)

lemma recv_user_data_side:
  assumes comm: "mpi_comm E chan posted" and run: "recv_user_data E n me child sz = Inr (inbuf, insize, n')"
  shows "side chan posted i n n'"
  using run mpi_comm.side_recv [OF comm, of n me child CIRCLE_TAG_REDUCE]
  by (auto simp: recv_user_data_def Let_def outcome recv_eqs split: if_splits)

lemma reduce_child_silent:
  assumes comm: "mpi_comm E chan posted" and inv: "proc_inv E p" and ample: "mem_ample E"
    and run: "reduce_child E child (p, n) = Inr (p', n')"
  shows "silent E chan posted p n p' n'"
proof -
  obtain po n1 where pr: "mpi_iprobe E n (rank p) child CIRCLE_TAG_REDUCE = (po, n1)" by fastforce
  note sp = mpi_comm.side_probe [OF comm pr, of "rank p"]
  show ?thesis
  proof (cases po)
    case None
    then show ?thesis using run pr silent_net [OF inv sp] by (simp add: reduce_child_def)
  next
    case (Some status)
    then obtain valid cnt sz n2 where r: "recv_long_longs3 E n1 (rank p) child CIRCLE_TAG_REDUCE = Inr ((valid, cnt, sz), n2)"
      using run pr by (auto simp: reduce_child_def outcome)
    then have "side chan posted (rank p) n1 n2" using mpi_comm.side_recv [OF comm] by (simp add: recv_eqs)
    note sd = side_trans [OF sp this]
    obtain v tot b where rb: "reduce_buf p = (v, tot, b)" by (metis prod_cases3)
    define p1 where "p1 = p\<lparr>reduce_replies := reduce_replies p + 1\<rparr>"
    have s1: "silent E chan posted p n p1 n2"
      unfolding p1_def by (rule silent_then_net [OF silent_update(9) [OF inv] sd])
    note inv1 = silent_inv [OF s1]
    have rk: "rank p1 = rank p" "reduce_buf p1 = (v, tot, b)" by (simp_all add: p1_def rb)
    have "silent E chan posted p1 n2 p' n'"
    proof (cases "valid = MSG_INVALID")
      case True
      then have "p' = p1\<lparr>reduce_buf := (MSG_INVALID, tot, b)\<rparr>" "n' = n2"
        using run pr Some r rb by (simp_all add: reduce_child_def Let_def p1_def)
      then show ?thesis using silent_update(8) [OF inv1] by simp
    next
      case False
      define p2 where "p2 = p1\<lparr>reduce_buf := (v, tot + cnt, b)\<rparr>"
      have "andThen (recv_user_data E n2 (rank p2) child sz) (\<lambda>(inbuf, insize, n).
          if v = MSG_VALID then andThen (run_reduce_op E p2 inbuf insize) (\<lambda>p. Inr (p, n)) else Inr (p2, n)) = Inr (p', n')"
        using run pr Some r rb False by (simp add: reduce_child_def Let_def p1_def p2_def cong: if_cong)
      then obtain inbuf insize n3 where
        ud: "recv_user_data E n2 (rank p2) child sz = Inr (inbuf, insize, n3)"
        and fin: "(if v = MSG_VALID then andThen (run_reduce_op E p2 inbuf insize) (\<lambda>p. (Inr :: _ \<Rightarrow> _ result) (p, n3)) else Inr (p2, n3)) = Inr (p', n')"
        by (elim andThen_InrE) (auto split: prod.splits)
      have s2: "silent E chan posted p1 n2 p2 n3"
        unfolding p2_def using silent_then_net [OF silent_update(8) [OF inv1]] recv_user_data_side [OF comm ud] by blast
      have "silent E chan posted p2 n3 p' n'"
        using fin reduce_callbacks_silent(1) [OF silent_inv [OF s2] ample] silent_inv [OF s2]
        by (auto simp: outcome split: if_splits)
      then show ?thesis by (rule silent_trans [OF s2])
    qed
    then show ?thesis by (rule silent_trans [OF s1])
  qed
qed

lemma reduce_send_parent_silent:
  assumes comm: "mpi_comm E chan posted" and inv: "proc_inv E p"
    and run: "reduce_send_parent E p n with_data = Inr (p', n')"
  shows "silent E chan posted p n p' n'"
proof -
  obtain v tot b where rb: "reduce_buf p = (v, tot, b)" by (metis prod_cases3)
  define bt where "bt = to_int32 (reduce_buf_size (input p))"
  obtain n1 where p': "p' = p\<lparr>reduce_buf := (v, tot, bt)\<rparr>"
      "MPI_Send E n (rank p) (parent_rank (tree p)) CIRCLE_TAG_REDUCE (LongLongs [v, tot, bt]) = Inr n1"
      "n' = n1 \<or> (\<exists>data. MPI_Send E n1 (rank p) (parent_rank (tree p)) CIRCLE_TAG_REDUCE (Bytes data) = Inr n')"
    using run rb by (auto simp: reduce_send_parent_def Let_def outcome bt_def [symmetric] split: if_splits)
  have "side chan posted (rank p) n n1" using mpi_comm.side_send [OF comm p'(2)] by simp
  then have "side chan posted (rank p) n n'"
    using p'(3) side_trans [OF _ mpi_comm.side_send [OF comm]] by fastforce
  then show ?thesis unfolding p'(1) using silent_then_net [OF silent_update(8) [OF inv]] by blast
qed

lemma reduce_finish_silent:
  assumes comm: "mpi_comm E chan posted" and inv: "proc_inv E p" and ample: "mem_ample E"
    and run: "reduce_finish E p n cnt = Inr (p', n')"
  shows "silent E chan posted p n p' n'"
proof -
  obtain v tot b where rb: "reduce_buf p = (v, tot, b)" by (metis prod_cases3)
  define p1 where "p1 = p\<lparr>reduce_buf := (v, tot + cnt, b)\<rparr>"
  have s1: "silent E chan posted p n p1 n" unfolding p1_def by (rule silent_update(8) [OF inv])
  note inv1 = silent_inv [OF s1]
  have "andThen (if parent_rank (tree p1) \<noteq> MPI_PROC_NULL E then reduce_send_parent E p1 n (v = MSG_VALID)
         else if v = MSG_VALID then andThen (run_reduce_fini E p1) (\<lambda>p. Inr (p, n)) else Inr (p1, n))
       (\<lambda>(p, n). Inr (p\<lparr>reduce_outstanding := 0\<rparr>, n)) = Inr (p', n')"
    using run rb by (simp add: reduce_finish_def Let_def p1_def cong: if_cong)
  then obtain p2 where
    a: "(if parent_rank (tree p1) \<noteq> MPI_PROC_NULL E then reduce_send_parent E p1 n (v = MSG_VALID)
         else if v = MSG_VALID then andThen (run_reduce_fini E p1) (\<lambda>p. Inr (p, n)) else Inr (p1, n)) = Inr (p2, n')"
    and p': "p' = p2\<lparr>reduce_outstanding := 0\<rparr>"
    by (elim andThen_InrE) (auto split: prod.splits)
  have s2: "silent E chan posted p1 n p2 n'"
    using a reduce_send_parent_silent [OF comm inv1] reduce_callbacks_silent(3) [OF inv1 ample] inv1
    by (auto simp: outcome split: if_splits)
  show ?thesis unfolding p'
    by (rule silent_trans [OF silent_trans [OF s1 s2] silent_update(10) [OF silent_inv [OF s2]]])
qed

lemma reduce_due_side:
  assumes comm: "mpi_comm E chan posted" and run: "reduce_due E p n cleanup = Inr (start, time, n')"
  shows "side chan posted i n n'"
proof -
  obtain now n1 where w: "mpi_wtime E n = (now, n1)" by fastforce
  note sw = mpi_comm.side_wtime [OF comm w, of i]
  obtain po n2 where pr: "mpi_iprobe E n1 (rank p) (parent_rank (tree p)) CIRCLE_TAG_REDUCE = (po, n2)" by fastforce
  note sp = side_trans [OF sw mpi_comm.side_probe [OF comm pr]]
  show ?thesis
  proof (cases po)
    case None
    then show ?thesis using run w pr sw sp by (auto simp: reduce_due_def split: if_splits)
  next
    case (Some status)
    show ?thesis
    proof (cases "n' = n1")
      case False
      then have "recv_empty E n2 (rank p) (parent_rank (tree p)) CIRCLE_TAG_REDUCE = Inr n'"
        using run w pr Some by (auto simp: reduce_due_def outcome split: if_splits)
      then have "side chan posted i n2 n'" using mpi_comm.side_recv [OF comm] by (simp add: recv_eqs)
      then show ?thesis by (rule side_trans [OF sp])
    qed (use sw in simp)
  qed
qed

lemma reduce_check_silent:
  assumes comm: "mpi_comm E chan posted" and inv: "proc_inv E p" and ok: "net_ok posted n" and ample: "mem_ample E"
    and run: "CIRCLE_reduce_check E p n cnt cleanup = Inr (p', n')"
  shows "silent E chan posted p n p' n'"
proof (cases "reduce_outstanding p \<noteq> 0")
  case True
  then obtain cs p1 n1 where l: "for_list (reduce_child E) cs (p, n) = Inr (p1, n1)"
    and f: "(if reduce_replies p1 = children (tree p1) then reduce_finish E p1 n1 cnt else Inr (p1, n1)) = Inr (p', n')"
    using run by (auto simp: CIRCLE_reduce_check_def outcome)
  have s1: "silent E chan posted p n p1 n1"
    by (rule for_list_silent [OF l inv ok]) (rule reduce_child_silent [OF comm _ ample])
  have "silent E chan posted p1 n1 p' n'"
    using f reduce_finish_silent [OF comm silent_inv [OF s1] ample] silent_inv [OF s1] by (auto split: if_splits)
  then show ?thesis by (rule silent_trans [OF s1])
next
  case False
  then obtain start now n1 where d: "reduce_due E p n cleanup = Inr (start, now, n1)"
    using run by (auto simp: CIRCLE_reduce_check_def outcome)
  note s0 = silent_net [OF inv reduce_due_side [OF comm d]]
  obtain v tot b where rb: "reduce_buf p = (v, tot, b)" by (metis prod_cases3)
  consider (late) "start" "cleanup" "parent_rank (tree p) \<noteq> MPI_PROC_NULL E" | (go) "start" "\<not> cleanup"
    | (stay) "p' = p" "n' = n1"
    using run False d by (auto simp: CIRCLE_reduce_check_def split: if_splits)
  then show ?thesis
  proof cases
    case late
    then have p': "p' = p\<lparr>reduce_buf := (MSG_INVALID, tot, b)\<rparr>"
        "MPI_Send E n1 (rank p) (parent_rank (tree p)) CIRCLE_TAG_REDUCE (LongLongs [MSG_INVALID, tot, b]) = Inr n'"
      using run False d rb by (auto simp: CIRCLE_reduce_check_def outcome)
    have "silent E chan posted p n1 p' n'"
      unfolding p'(1) using silent_then_net [OF silent_update(8) [OF inv] mpi_comm.side_send [OF comm p'(2)]] by simp
    then show ?thesis by (rule silent_trans [OF s0])
  next
    case go
    define p1 where "p1 = p\<lparr>reduce_time_last := now, reduce_outstanding := 1, reduce_replies := 0, reduce_buf := (MSG_VALID, 0, 0)\<rparr>"
    from go run False d have i: "run_reduce_init E p1 = Inr p'"
      and c: "send_children E (tree p') n1 (rank p') CIRCLE_TAG_REDUCE (Bytes []) = Inr n'"
      by (auto simp: CIRCLE_reduce_check_def p1_def outcome)
    have s1: "silent E chan posted p n1 p1 n1"
      using inv by (simp add: p1_def silent_def same_wave_def wave_part_def proc_inv_def idle_def)
    note s2 = silent_trans [OF s1 reduce_callbacks_silent(2) [OF silent_inv [OF s1] ample i]]
    have "rank p' = rank p" using s2 same_waveD(1) by (auto simp: silent_def)
    then have "silent E chan posted p n1 p' n'" using silent_then_net [OF s2] side_children [OF comm c] by simp
    then show ?thesis by (rule silent_trans [OF s0])
  next
    case stay
    then show ?thesis using s0 by simp
  qed
qed

text \<open>A callback that may add work, while no answer to a work request is awaited.\<close>

lemma callback_inv:
  assumes run: "run_callback E cb p = Inr p'" and ok: "cb_ok (CIRCLE_MAX_STRING_LEN E) True cb"
    and inv: "proc_inv E p" and ample: "mem_ample E" and idle: "work_requested p = 0"
  shows "proc_inv E p'" and "same_wave p p'"
proof -
  note o = run_callback_only [OF run] and u = run_callback_step [OF run ok proc_invD(1) [OF inv] ample]
  have "sends_wf p'" using proc_invD(2) [OF inv] unfolding sends_wf_def only_user_same [OF o] .
  then show "proc_inv E p'"
    using inv u o idle input_ok_settings [of "input p'" "input p"] only_user_same [OF o]
    by (auto simp: proc_inv_def user_step_def only_user_def)
  show "same_wave p p'" by (rule same_wave_user [OF o])
qed

lemma process_silent:
  assumes run: "run_process E p = Inr p'" and busy: "\<not> idle p" and inv: "proc_inv E p" and ample: "mem_ample E"
  shows "silent E chan posted p n p' n"
proof -
  from run obtain f where f: "process_cb (input p) = Some f" "run_callback E (f (user p)) p = Inr p'"
    by (auto simp: run_process_def split: option.splits)
  then have ok: "cb_ok (CIRCLE_MAX_STRING_LEN E) True (f (user p))" using proc_invD(4) [OF inv] by (simp add: input_ok_def)
  have "work_requested p = 0" using busy proc_invD(3) [OF inv] by (auto simp: idle_def)
  from callback_inv [OF f(2) ok inv ample this] only_user_same [OF run_callback_only [OF f(2)]] busy
  show ?thesis by (simp add: silent_def)
qed

end
