(* ===== verification/Init.thy ===== *)
theory Init
  imports Effects
begin

text \<open>
  The state \<open>CIRCLE_init_local_state\<close> leaves, in closed form, and the facts about it from which the
  invariants of the other theories start.
\<close>

unbundle bit_operations_syntax

definition initial ::
  "('n, 'z) mpi_scheme \<Rightarrow> int \<Rightarrow> int \<Rightarrow> 'u proc \<Rightarrow> int \<Rightarrow> 32 word \<Rightarrow> real \<Rightarrow> CIRCLE_tree_state_st \<Rightarrow> 'u proc" where
  "initial E i ranks p0 np s now t =
     (let num = 2 * (children t + (if parent_rank t \<noteq> MPI_PROC_NULL E then 1 else 0));
          period = real_of_int (reduce_period (input p0))
      in p0\<lparr>rank := i, comm_size := ranks, token_is_local := (if i = 0 then 1 else 0),
        token_src := (i - 1 + ranks) smod ranks, token_dest := (i + 1 + ranks) smod ranks,
        token_proc := WHITE, token_buf := BLACK, token_send_req := MPI_REQUEST_NULL,
        offsets_count := str_count (queue p0), offsets_recv_buf := malloc_arr E (\<lambda>_. 0) 4 (nat (str_count (queue p0))),
        requestors := malloc_arr E (\<lambda>_. 0) 4 (nat ranks), next_processor := np, seed := s,
        work_requested := 0, work_request_req := MPI_REQUEST_NULL,
        send_count := 0, send_capacity := 0, send_reqs := None, send_bufs := None,
        term_tree_enabled := (if options (input p0) AND CIRCLE_TERM_TREE \<noteq> 0 then 1 else 0),
        tree := t, reduce_enabled := (if period > 0 then 1 else 0), reduce_time_last := now,
        reduce_time_interval := period, reduce_outstanding := 0,
        barrier_started := 0, barrier_up := 0, barrier_replies := 0,
        work_outstanding := 0, term_flag := 1, term_up := 0, term_replies := 0,
        abort_state := 0, abort_outstanding := 0, abort_num_req := num,
        abort_req := malloc_arr E (\<lambda>_. MPI_REQUEST_NULL) 8 (nat num),
        local_objects_processed := 0, local_work_requested := 0, local_no_work_received := 0\<rparr>)"

lemma init_local_state_result:
  assumes run: "CIRCLE_init_local_state E i ranks p0 n0 = Inr (p, n)" and r: "0 \<le> i" "i < ranks"
    and k: "0 < k" "tree_width (input p0) = k" and small: "ranks * k \<le> INT32_MAX" and ample: "mem_ample E"
    and rand: "\<And>s. 0 \<le> fst (rand_r E s)"
  shows "\<exists>np s now t. p = initial E i ranks p0 np s now t
    \<and> (if ranks > 1 then 0 \<le> np \<and> np < ranks \<and> np \<noteq> i else np = MPI_PROC_NULL E)
    \<and> children t = int (length (tree_kids k ranks i)) \<and> child_list t = Inr (tree_kids k ranks i)
    \<and> parent_rank t = (if i = 0 then MPI_PROC_NULL E else tree_parent k i)"
proof -
  define st1 where "st1 = p0\<lparr>rank := i, comm_size := ranks, token_is_local := (if i = 0 then 1 else 0),
      token_src := (i - 1 + ranks) smod ranks, token_dest := (i + 1 + ranks) smod ranks,
      token_proc := WHITE, token_buf := BLACK, token_send_req := MPI_REQUEST_NULL,
      offsets_count := str_count (queue p0), offsets_recv_buf := malloc_arr E (\<lambda>_. 0) 4 (nat (str_count (queue p0))),
      requestors := malloc_arr E (\<lambda>_. 0) 4 (nat ranks), seed := word_of_int i\<rparr>"
  obtain t where tr: "CIRCLE_tree_init E n0 i ranks k = Inr (t, n0)" "children t = int (length (tree_kids k ranks i))"
      "child_list t = Inr (tree_kids k ranks i)" "parent_rank t = (if i = 0 then MPI_PROC_NULL E else tree_parent k i)"
    using tree_init_result [of k i ranks E n0] k r rank_product_bound [OF r(2) k(1) small] ample by auto
  from run r obtain st2 where g: "CIRCLE_get_next_proc E st1 = Inr st2"
    by (auto simp: CIRCLE_init_local_state_def Let_def st1_def outcome split: if_splits)
  note gn = get_next_proc_run [OF g rand]
  obtain np s where st2: "st2 = st1\<lparr>next_processor := np, seed := s\<rparr>" using gn(1) by blast
  have np: "if ranks > 1 then 0 \<le> np \<and> np < ranks \<and> np \<noteq> i else np = MPI_PROC_NULL E"
    using gn(2) by (auto simp: st2 st1_def split: if_splits)
  obtain now n1 where w: "mpi_wtime E n0 = (now, n1)" by fastforce
  have mem: "malloc_arr E (\<lambda>_. MPI_REQUEST_NULL) 8 m = Some (map (\<lambda>_. MPI_REQUEST_NULL) [0..<m])" for m
    using ample by (simp add: malloc_arr_def)
  have "p = initial E i ranks p0 np s now t"
    using run r g [unfolded st1_def] tr(1) w k(2)
    by (simp add: CIRCLE_init_local_state_def Let_def initial_def st2 st1_def mem cong: if_cong)
  with np tr show ?thesis by blast
qed

lemma init_local_state_run:
  assumes run: "CIRCLE_init_local_state E i ranks p0 n0 = Inr (p, n)" and r: "0 \<le> i" "i < ranks"
    and k: "0 < k" "tree_width (input p0) = k" and small: "ranks * k \<le> INT32_MAX" and ample: "mem_ample E"
    and rand: "\<And>s. 0 \<le> fst (rand_r E s)"
  shows "rank p = i" "comm_size p = ranks" "tree_ok E k ranks p" "sends_wf p" "work_requested p = 0"
    "0 \<le> next_processor p \<or> next_processor p = MPI_PROC_NULL E" "queue p = queue p0" "input p = input p0"
    "term_tree_enabled p = (if options (input p0) AND CIRCLE_TERM_TREE \<noteq> 0 then 1 else 0)"
    "work_outstanding p = 0" "term_flag p = 1" "term_up p = 0" "term_replies p = 0"
    "token_is_local p = (if i = 0 then 1 else 0)" "token_proc p = WHITE" "token_send_req p = MPI_REQUEST_NULL"
    "token_src p = (i - 1) mod ranks" "token_dest p = (i + 1) mod ranks"
    "barrier_started p = 0" "barrier_up p = 0" "barrier_replies p = 0"
    "CIRCLE_ABORT_FLAG p = CIRCLE_ABORT_FLAG p0" "abort_state p = 0" "abort_outstanding p = 0"
    "abort_num_req p = 2 * (children (tree p) + (if parent_rank (tree p) \<noteq> MPI_PROC_NULL E then 1 else 0))"
    "abort_req p = Some (replicate (nat (abort_num_req p)) MPI_REQUEST_NULL)"
    "reduce_outstanding p = 0" "send_count p = 0" "local_objects_processed p = 0"
    "reduce_enabled p = (if reduce_period (input p0) > 0 then 1 else 0)" "work_request_req p = MPI_REQUEST_NULL"
    "if ranks > 1 then 0 \<le> next_processor p \<and> next_processor p < ranks \<and> next_processor p \<noteq> i
     else next_processor p = MPI_PROC_NULL E" "user p = user p0"
    "map_option length (requestors p) = Some (nat ranks)"
proof -
  have sm: "(i - 1 + ranks) smod ranks = (i - 1) mod ranks" "(i + 1 + ranks) smod ranks = (i + 1) mod ranks"
    using r by (simp_all add: smod_nonneg)
  obtain np s now t where p: "p = initial E i ranks p0 np s now t"
    and np: "if ranks > 1 then 0 \<le> np \<and> np < ranks \<and> np \<noteq> i else np = MPI_PROC_NULL E"
    and t: "children t = int (length (tree_kids k ranks i))" "child_list t = Inr (tree_kids k ranks i)"
      "parent_rank t = (if i = 0 then MPI_PROC_NULL E else tree_parent k i)"
    using init_local_state_result [OF run r k small ample rand] by blast
  show "rank p = i" "comm_size p = ranks" "tree_ok E k ranks p" "sends_wf p" "work_requested p = 0"
    "0 \<le> next_processor p \<or> next_processor p = MPI_PROC_NULL E" "queue p = queue p0" "input p = input p0"
    "term_tree_enabled p = (if options (input p0) AND CIRCLE_TERM_TREE \<noteq> 0 then 1 else 0)"
    "work_outstanding p = 0" "term_flag p = 1" "term_up p = 0" "term_replies p = 0"
    "token_is_local p = (if i = 0 then 1 else 0)" "token_proc p = WHITE" "token_send_req p = MPI_REQUEST_NULL"
    "token_src p = (i - 1) mod ranks" "token_dest p = (i + 1) mod ranks"
    "barrier_started p = 0" "barrier_up p = 0" "barrier_replies p = 0"
    "CIRCLE_ABORT_FLAG p = CIRCLE_ABORT_FLAG p0" "abort_state p = 0" "abort_outstanding p = 0"
    "abort_num_req p = 2 * (children (tree p) + (if parent_rank (tree p) \<noteq> MPI_PROC_NULL E then 1 else 0))"
    "abort_req p = Some (replicate (nat (abort_num_req p)) MPI_REQUEST_NULL)"
    "reduce_outstanding p = 0" "send_count p = 0" "local_objects_processed p = 0"
    "reduce_enabled p = (if reduce_period (input p0) > 0 then 1 else 0)" "work_request_req p = MPI_REQUEST_NULL"
    "if ranks > 1 then 0 \<le> next_processor p \<and> next_processor p < ranks \<and> next_processor p \<noteq> i
     else next_processor p = MPI_PROC_NULL E" "user p = user p0"
    "map_option length (requestors p) = Some (nat ranks)"
    unfolding p using np t ample
    by (auto simp: initial_def Let_def tree_ok_def sends_wf_def sm malloc_arr_def mem_ample_def map_replicate_const
        split: if_splits)
qed

lemma run_create_only:
  assumes "run_create E p = Inr p'"
  shows "only_user p p'"
  using assms run_callback_only by (auto simp: run_create_def split: if_splits option.splits)

lemma run_create_queue_wf:
  assumes run: "run_create E p = Inr p'" and ok: "input_ok (CIRCLE_MAX_STRING_LEN E) (input p)"
    and wf: "queue_wf E (queue p)" and ample: "mem_ample E"
  shows "queue_wf E (queue p')"
proof (cases "p' = p")
  case False
  then obtain f where f: "create_cb (input p) = Some f" "run_callback E (f (user p)) p = Inr p'"
    using run by (auto simp: run_create_def split: if_splits option.splits)
  have "cb_ok (CIRCLE_MAX_STRING_LEN E) True (f (user p))" using ok f(1) by (simp add: input_ok_def)
  from run_callback_step [OF f(2) this wf ample] show ?thesis by (simp add: user_step_def)
qed (use wf in simp)

section \<open>An example\<close>

text \<open>Two ranks in a binary tree.\<close>

definition demo_input :: "unit CIRCLE_input_st" where
  "demo_input = \<lparr>create_cb = Some CB_return, process_cb = Some CB_return, reduce_init_cb = None, reduce_op_cb = None,
     reduce_fini_cb = None, user_reduce_buf = None, reduce_buf_size = 0, reduce_period = 0,
     options = 10, tree_width = 2\<rparr>"

definition demo_init :: "CIRCLE_internal_queue_t \<Rightarrow> int \<Rightarrow> unit proc" where
  "demo_init q i = (small_proc 2 i q)\<lparr>input := demo_input\<rparr>"

definition demo_proc :: "CIRCLE_internal_queue_t \<Rightarrow> int \<Rightarrow> unit proc" where
  "demo_proc q i = (case CIRCLE_init_local_state fifo_mpi i 2 (demo_init q i) (quiet_net 2) of
     Inr (p, n) \<Rightarrow> p | Inl _ \<Rightarrow> demo_init q i)"

lemma demo_inits:
  "\<not> isl (CIRCLE_init_local_state fifo_mpi 0 2 (demo_init (small_queue\<lparr>count := 0\<rparr>) 0) (quiet_net 2))"
  "\<not> isl (CIRCLE_init_local_state fifo_mpi 0 2 (demo_init small_queue 0) (quiet_net 2))"
  "\<not> isl (CIRCLE_init_local_state fifo_mpi 1 2 (demo_init (small_queue\<lparr>count := 0\<rparr>) 1) (quiet_net 2))"
  by code_simp+

lemma demo_proc_init:
  assumes "\<not> isl (CIRCLE_init_local_state fifo_mpi i 2 (demo_init q i) (quiet_net 2))"
  shows "\<exists>n. CIRCLE_init_local_state fifo_mpi i 2 (demo_init q i) (quiet_net 2) = Inr (demo_proc q i, n)"
  using assms by (cases "CIRCLE_init_local_state fifo_mpi i 2 (demo_init q i) (quiet_net 2)") (auto simp: demo_proc_def)

lemma demo_init_fields [simp]:
  "queue (demo_init q i) = q" "input (demo_init q i) = demo_input" "CIRCLE_ABORT_FLAG (demo_init q i) = 0"
  by (simp_all add: demo_init_def small_proc_def)

text \<open>Both without work.\<close>

definition idle_pair :: "int \<Rightarrow> unit proc" where
  "idle_pair = demo_proc (small_queue\<lparr>count := 0\<rparr>)"

lemma idle_pair_init:
  assumes "i \<in> {0..<2}"
  shows "\<exists>n. CIRCLE_init_local_state fifo_mpi i 2 (demo_init (small_queue\<lparr>count := 0\<rparr>) i) (quiet_net 2) = Inr (idle_pair i, n)"
proof -
  from assms have "i = 0 \<or> i = 1" by auto
  then show ?thesis
    using demo_proc_init [OF demo_inits(1)] demo_proc_init [OF demo_inits(3)] unfolding idle_pair_def by blast
qed

lemma idle_pair_run:
  assumes "i \<in> {0..<2}"
  shows "rank (idle_pair i) = i" "tree_ok fifo_mpi 2 2 (idle_pair i)" "barrier_started (idle_pair i) = 0"
    "barrier_up (idle_pair i) = 0" "barrier_replies (idle_pair i) = 0" "CIRCLE_ABORT_FLAG (idle_pair i) = 0"
proof -
  obtain n where "CIRCLE_init_local_state fifo_mpi i 2 (demo_init (small_queue\<lparr>count := 0\<rparr>) i) (quiet_net 2) = Inr (idle_pair i, n)"
    using idle_pair_init [OF assms] by blast
  note r = init_local_state_run [OF this, of 2]
  show "rank (idle_pair i) = i" "tree_ok fifo_mpi 2 2 (idle_pair i)" "barrier_started (idle_pair i) = 0"
    "barrier_up (idle_pair i) = 0" "barrier_replies (idle_pair i) = 0" "CIRCLE_ABORT_FLAG (idle_pair i) = 0"
    using r(1,3,19-22) assms by (simp_all add: demo_input_def INT32_MAX_def)
qed

text \<open>A program whose \<open>process_cb\<close> takes one item off the queue and drops it.\<close>

definition consume :: "unit \<Rightarrow> unit callback" where
  "consume u = CB_dequeue (Some 8) (\<lambda>rc s. CB_return u)"

definition consumer_input :: "int \<Rightarrow> unit CIRCLE_input_st" where
  "consumer_input opts = \<lparr>create_cb = Some CB_return, process_cb = Some consume, reduce_init_cb = None,
     reduce_op_cb = None, reduce_fini_cb = None, user_reduce_buf = None, reduce_buf_size = 0, reduce_period = 0,
     options = opts, tree_width = 64\<rparr>"

lemma consume_progress:
  assumes "queue_wf fifo_mpi (queue p)" and "0 < count (queue p)"
  shows "\<exists>p'. run_callback fifo_mpi (consume (user p)) p = Inr p' \<and> count (queue p') = count (queue p) - 1"
proof -
  from pop_nonempty [OF assms, of 8] obtain q where
    "CIRCLE_internal_queue_pop (Some (queue p)) (Some 8) = Inr (0, Some (last (items (queue p))), Some q)"
    "count q = count (queue p) - 1" by auto
  then show ?thesis by (simp add: consume_def CIRCLE_dequeue_def)
qed

section \<open>Property\<close>

text \<open>
  C31. The state the initialisation leaves is well formed. When \<open>CIRCLE_init_local_state\<close> returns, for any rank,
  number of ranks and tree width and whatever the structure held before, the process satisfies the invariant the handlers
  rely on, its tree is its place in the tree of all ranks, every request slot of an abort is there and null, it holds the white
  token exactly if its rank is 0, its neighbours on the ring are the ranks before and after it, and
  the process it will ask for work is another rank, or none when it is alone.
\<close>

theorem init_local_state_ok:
  assumes "CIRCLE_init_local_state E i ranks p0 n0 = Inr (p, n)" and "0 \<le> i" and "i < ranks"
    and "0 < tree_width (input p0)" and "ranks * tree_width (input p0) \<le> INT32_MAX" and "mem_ample E"
    and "\<And>s. 0 \<le> fst (rand_r E s)" and "queue_wf E (queue p0)" and "input_ok (CIRCLE_MAX_STRING_LEN E) (input p0)"
  shows "proc_inv E p \<and> rank p = i \<and> comm_size p = ranks \<and> tree_ok E (tree_width (input p0)) ranks p
    \<and> abort_req p = Some (replicate (nat (abort_num_req p)) MPI_REQUEST_NULL)
    \<and> (token_is_local p \<noteq> 0 \<longleftrightarrow> i = 0) \<and> token_proc p = WHITE \<and> token_send_req p = MPI_REQUEST_NULL
    \<and> token_src p = (i - 1) mod ranks \<and> token_dest p = (i + 1) mod ranks
    \<and> (if ranks > 1 then 0 \<le> next_processor p \<and> next_processor p < ranks \<and> next_processor p \<noteq> i
       else next_processor p = MPI_PROC_NULL E)"
proof -
  note r = init_local_state_run [OF assms(1-4) refl assms(5-7)]
  have "proc_inv E p" using r(4-8) assms(8,9) by (simp add: proc_inv_def)
  moreover have "token_is_local p \<noteq> 0 \<longleftrightarrow> i = 0" using r(14) by simp
  ultimately show ?thesis using r(1-3,15-18,26,32) by blast
qed

theorem init_local_state_ok_witness:
  "proc_inv fifo_mpi (idle_pair 1) \<and> token_is_local (idle_pair 1) = 0 \<and> token_src (idle_pair 1) = 0 \<and> 0 \<le> next_processor (idle_pair 1) \<and> next_processor (idle_pair 1) < 2
     \<and> next_processor (idle_pair 1) \<noteq> 1"
proof -
  obtain n where run: "CIRCLE_init_local_state fifo_mpi 1 2 (demo_init (small_queue\<lparr>count := 0\<rparr>) 1) (quiet_net 2) = Inr (idle_pair 1, n)"
    using idle_pair_init [of 1] by auto
  show ?thesis
    using init_local_state_ok [OF run] idle_queue_fifo by (simp add: demo_input_def INT32_MAX_def input_ok_def)
qed

end
