(* ===== verification/Wave.thy ===== *)
theory Wave
  imports Tree
begin

text \<open>
  An abstract specification of termination detection by repeated allreduce over a tree, free of
  message formats and data structures: each process is idle or not, counts the work it has sent
  and not yet seen acknowledged, and takes part in waves of flags that rise to the root and
  results that fall back. The invariant \<open>wave_inv\<close> formalises the argument in the comments of
  \<^verbatim>\<open>worker.c\<close> and \<^verbatim>\<open>token.c\<close>: a process leaves only when every process is idle and no work is under
  way. Theory \<open>System\<close> shows that the handlers of the program refine these steps.
\<close>

unbundle bit_operations_syntax

section \<open>States and steps\<close>

text \<open>
  \<open>w_rise c\<close> and \<open>w_fall c\<close> are the messages on the edge between \<open>c\<close> and its parent, in the two
  directions; \<open>w_work i j\<close> counts work messages from \<open>i\<close> to \<open>j\<close> not yet received and \<open>w_ack i j\<close>
  receipts from \<open>i\<close> to \<open>j\<close> not yet received.
\<close>

record wave =
  w_idle :: "int \<Rightarrow> bool"
  w_out :: "int \<Rightarrow> int"
  w_work :: "int \<Rightarrow> int \<Rightarrow> nat"
  w_ack :: "int \<Rightarrow> int \<Rightarrow> nat"
  w_up :: "int \<Rightarrow> bool"
  w_replies :: "int \<Rightarrow> int"
  w_flag :: "int \<Rightarrow> int"
  w_rise :: "int \<Rightarrow> int list"
  w_fall :: "int \<Rightarrow> int list"
  w_left :: "int \<Rightarrow> bool"

text \<open>Process \<open>i\<close> forwards a result to its children.\<close>

definition fall_to :: "int list \<Rightarrow> int \<Rightarrow> (int \<Rightarrow> int list) \<Rightarrow> int \<Rightarrow> int list" where
  "fall_to cs v f c = (if c \<in> set cs then f c @ [v] else f c)"

inductive wave_step :: "int \<Rightarrow> (int \<Rightarrow> int list) \<Rightarrow> wave \<Rightarrow> wave \<Rightarrow> bool" for ranks kids where
  process: "i \<in> {0..<ranks} \<Longrightarrow> \<not> w_idle s i \<Longrightarrow> wave_step ranks kids s (s\<lparr>w_idle := (w_idle s)(i := b)\<rparr>)"
| halt: "i \<in> {0..<ranks} \<Longrightarrow> wave_step ranks kids s (s\<lparr>w_idle := (w_idle s)(i := True)\<rparr>)"
| ship: "i \<in> {0..<ranks} \<Longrightarrow> j \<in> {0..<ranks} \<Longrightarrow> \<not> w_idle s i \<Longrightarrow>
    wave_step ranks kids s (s\<lparr>w_idle := (w_idle s)(i := b), w_out := (w_out s)(i := w_out s i + 1),
      w_work := (w_work s)(i := (w_work s i)(j := Suc (w_work s i j)))\<rparr>)"
| take: "i \<in> {0..<ranks} \<Longrightarrow> j \<in> {0..<ranks} \<Longrightarrow> w_work s j i = Suc m \<Longrightarrow>
    wave_step ranks kids s (s\<lparr>w_idle := (w_idle s)(i := b), w_work := (w_work s)(j := (w_work s j)(i := m)),
      w_ack := (w_ack s)(i := (w_ack s i)(j := Suc (w_ack s i j)))\<rparr>)"
| acked: "i \<in> {0..<ranks} \<Longrightarrow> j \<in> {0..<ranks} \<Longrightarrow> w_ack s j i = Suc m \<Longrightarrow>
    wave_step ranks kids s (s\<lparr>w_ack := (w_ack s)(j := (w_ack s j)(i := m)),
      w_out := (w_out s)(i := w_out s i - 1), w_flag := (w_flag s)(i := 0)\<rparr>)"
| absorb: "i \<in> {0..<ranks} \<Longrightarrow> c \<in> set (kids i) \<Longrightarrow> w_rise s c = x # xs \<Longrightarrow> \<not> w_left s i \<Longrightarrow>
    wave_step ranks kids s (s\<lparr>w_rise := (w_rise s)(c := xs), w_flag := (w_flag s)(i := w_flag s i AND x),
      w_replies := (w_replies s)(i := w_replies s i + 1)\<rparr>)"
| contribute: "i \<in> {0..<ranks} \<Longrightarrow> i \<noteq> 0 \<Longrightarrow> w_idle s i \<Longrightarrow> w_out s i \<le> 0 \<Longrightarrow> \<not> w_up s i \<Longrightarrow>
    w_replies s i = int (length (kids i)) \<Longrightarrow> \<not> w_left s i \<Longrightarrow>
    wave_step ranks kids s (s\<lparr>w_rise := (w_rise s)(i := w_rise s i @ [w_flag s i]),
      w_flag := (w_flag s)(i := 1), w_up := (w_up s)(i := True)\<rparr>)"
| deliver: "i \<in> {0..<ranks} \<Longrightarrow> i \<noteq> 0 \<Longrightarrow> w_up s i \<Longrightarrow> w_fall s i = v # vs \<Longrightarrow> \<not> w_left s i \<Longrightarrow>
    wave_step ranks kids s (s\<lparr>w_fall := fall_to (kids i) v ((w_fall s)(i := vs)), w_up := (w_up s)(i := False),
      w_replies := (w_replies s)(i := 0), w_left := (w_left s)(i := v \<noteq> 0)\<rparr>)"
| decide: "0 < ranks \<Longrightarrow> w_idle s 0 \<Longrightarrow> w_out s 0 \<le> 0 \<Longrightarrow> \<not> w_up s 0 \<Longrightarrow>
    w_replies s 0 = int (length (kids 0)) \<Longrightarrow> \<not> w_left s 0 \<Longrightarrow>
    wave_step ranks kids s (s\<lparr>w_fall := fall_to (kids 0) (w_flag s 0) (w_fall s), w_flag := (w_flag s)(0 := 1),
      w_replies := (w_replies s)(0 := 0), w_left := (w_left s)(0 := w_flag s 0 \<noteq> 0)\<rparr>)"

section \<open>The invariant\<close>

text \<open>A child whose flag its parent has taken and whose result has not been sent.\<close>

definition counted :: "wave \<Rightarrow> int \<Rightarrow> bool" where
  "counted s c \<longleftrightarrow> w_up s c \<and> w_rise s c = [] \<and> w_fall s c = []"

text \<open>The four states of an edge.\<close>

definition edge_ok :: "(int \<Rightarrow> int) \<Rightarrow> wave \<Rightarrow> int \<Rightarrow> bool" where
  "edge_ok parent s c \<longleftrightarrow> counted s c
     \<or> (\<not> w_up s (parent c) \<and>
         (\<not> w_up s c \<and> w_rise s c = [] \<and> w_fall s c = []
          \<or> w_up s c \<and> w_rise s c \<in> {[0], [1]} \<and> w_fall s c = []
          \<or> w_up s c \<and> w_rise s c = [] \<and> w_fall s c \<in> {[0], [1]}))"

text \<open>
  The processes whose flag is part of the wave under way: those who have sent it, unless the
  result of that wave is already on its way down to them.
\<close>

inductive_set fresh :: "int \<Rightarrow> (int \<Rightarrow> int) \<Rightarrow> wave \<Rightarrow> int set" for ranks parent s where
  rising: "0 < c \<Longrightarrow> c < ranks \<Longrightarrow> w_up s c \<Longrightarrow> w_rise s c \<noteq> [] \<Longrightarrow> c \<in> fresh ranks parent s"
| joined: "0 < c \<Longrightarrow> c < ranks \<Longrightarrow> counted s c \<Longrightarrow> \<not> w_up s (parent c) \<Longrightarrow> c \<in> fresh ranks parent s"
| below: "0 < c \<Longrightarrow> c < ranks \<Longrightarrow> counted s c \<Longrightarrow> parent c \<in> fresh ranks parent s \<Longrightarrow> c \<in> fresh ranks parent s"

text \<open>The wave under way cannot end with 1.\<close>

definition doomed :: "int \<Rightarrow> (int \<Rightarrow> int) \<Rightarrow> wave \<Rightarrow> bool" where
  "doomed ranks parent s \<longleftrightarrow>
     (\<exists>p \<in> {0..<ranks}. p \<notin> fresh ranks parent s \<and> (w_flag s p = 0 \<or> (\<exists>j \<in> {0..<ranks}. w_ack s j p > 0)))
     \<or> (\<exists>c \<in> fresh ranks parent s. w_rise s c = [0])"

definition quiet :: "int \<Rightarrow> wave \<Rightarrow> bool" where
  "quiet ranks s \<longleftrightarrow> (\<forall>i \<in> {0..<ranks}. w_idle s i \<and> w_out s i = 0)"

definition wave_inv :: "int \<Rightarrow> (int \<Rightarrow> int) \<Rightarrow> (int \<Rightarrow> int list) \<Rightarrow> wave \<Rightarrow> bool" where
  "wave_inv ranks parent kids s \<longleftrightarrow>
     \<not> w_up s 0
     \<and> (\<forall>i \<in> {0..<ranks}. w_flag s i \<in> {0, 1}
          \<and> w_replies s i = int (card {c \<in> set (kids i). counted s c})
          \<and> w_out s i = (\<Sum>j \<in> {0..<ranks}. int (w_work s i j) + int (w_ack s j i)))
     \<and> (\<forall>c \<in> {0<..<ranks}. edge_ok parent s c)
     \<and> (doomed ranks parent s \<or> (\<forall>i \<in> fresh ranks parent s. w_idle s i \<and> w_out s i = 0))
     \<and> ((\<exists>i \<in> {0..<ranks}. w_left s i \<or> 1 \<in> set (w_fall s i)) \<longrightarrow> quiet ranks s)"

lemma wave_invE:
  assumes "wave_inv ranks parent kids s"
  shows "\<not> w_up s 0" and "\<And>i. i \<in> {0..<ranks} \<Longrightarrow> w_flag s i = 0 \<or> w_flag s i = 1"
    and "\<And>i. i \<in> {0..<ranks} \<Longrightarrow> w_replies s i = int (card {c \<in> set (kids i). counted s c})"
    and "\<And>i. i \<in> {0..<ranks} \<Longrightarrow> w_out s i = (\<Sum>j \<in> {0..<ranks}. int (w_work s i j) + int (w_ack s j i))"
    and "\<And>c. 0 < c \<Longrightarrow> c < ranks \<Longrightarrow> edge_ok parent s c"
    and "doomed ranks parent s \<or> (\<forall>i \<in> fresh ranks parent s. w_idle s i \<and> w_out s i = 0)"
    and "\<And>i. i \<in> {0..<ranks} \<Longrightarrow> w_left s i \<or> 1 \<in> set (w_fall s i) \<Longrightarrow> quiet ranks s"
  using assms by (auto simp: wave_inv_def)

text \<open>The steps that leave the wave alone leave its participants alone.\<close>

lemma fresh_sub:
  assumes "x \<in> fresh ranks parent s'" and "w_up s' = w_up s" and "w_rise s' = w_rise s"
    and "w_fall s' = w_fall s"
  shows "x \<in> fresh ranks parent s"
  using assms(1)
proof induction
  case (rising c)
  then show ?case using fresh.rising [of c ranks s parent] assms(2-4) by simp
next
  case (joined c)
  then show ?case using fresh.joined [of c ranks s parent] assms(2-4) by (simp add: counted_def)
next
  case (below c)
  then show ?case using fresh.below [of c ranks s parent] assms(2-4) by (simp add: counted_def)
qed

lemma fresh_cong:
  assumes "w_up s' = w_up s" and "w_rise s' = w_rise s" and "w_fall s' = w_fall s"
  shows "fresh ranks parent s' = fresh ranks parent s"
  using fresh_sub [of _ ranks parent s' s] fresh_sub [of _ ranks parent s s'] assms by auto

section \<open>Steps that do not touch the wave\<close>

lemma out_zero:
  assumes "wave_inv ranks parent kids s" and "i \<in> {0..<ranks}" and "w_out s i \<le> 0" and "j \<in> {0..<ranks}"
  shows "w_out s i = 0" and "w_work s i j = 0" and "w_ack s j i = 0"
proof -
  let ?f = "\<lambda>j. int (w_work s i j) + int (w_ack s j i)"
  have o: "w_out s i = sum ?f {0..<ranks}" using wave_invE(4) [OF assms(1,2)] .
  then have "sum ?f {0..<ranks} = 0" using assms(3) sum_nonneg [of "{0..<ranks}" ?f] by simp
  then have "?f j = 0" using assms(4) by (subst (asm) sum_nonneg_eq_0_iff) auto
  with o \<open>sum ?f {0..<ranks} = 0\<close> show "w_out s i = 0" "w_work s i j = 0" "w_ack s j i = 0" by auto
qed

text \<open>
  What remains to be shown of the invariant when a step keeps the messages of the wave, the
  replies and who has left.
\<close>

lemma wave_inv_keep:
  assumes inv: "wave_inv ranks parent kids s"
    and same: "w_up s' = w_up s" "w_rise s' = w_rise s" "w_fall s' = w_fall s" "w_replies s' = w_replies s"
      "w_left s' = w_left s"
    and flag: "\<And>i. i \<in> {0..<ranks} \<Longrightarrow> w_flag s' i = 0 \<or> w_flag s' i = 1"
    and out: "\<And>i. i \<in> {0..<ranks} \<Longrightarrow> w_out s' i = (\<Sum>j \<in> {0..<ranks}. int (w_work s' i j) + int (w_ack s' j i))"
    and doom: "doomed ranks parent s' \<or> (\<forall>i \<in> fresh ranks parent s. w_idle s' i \<and> w_out s' i = 0)"
    and qt: "quiet ranks s \<Longrightarrow> quiet ranks s'"
  shows "wave_inv ranks parent kids s'"
proof -
  have c: "counted s' = counted s" using same by (auto simp: counted_def)
  have e: "edge_ok parent s' = edge_ok parent s" using same c by (auto simp: edge_ok_def)
  show ?thesis
    using inv flag out doom qt unfolding wave_inv_def c e same fresh_cong [OF same(1-3)] by auto
qed

lemma doomed_keep:
  assumes "w_up s' = w_up s" and "w_rise s' = w_rise s" and "w_fall s' = w_fall s"
    and "doomed ranks parent s"
    and "\<And>p. p \<in> {0..<ranks} \<Longrightarrow> p \<notin> fresh ranks parent s \<Longrightarrow>
      w_flag s p = 0 \<or> (\<exists>j \<in> {0..<ranks}. w_ack s j p > 0) \<Longrightarrow>
      w_flag s' p = 0 \<or> (\<exists>j \<in> {0..<ranks}. w_ack s' j p > 0)"
  shows "doomed ranks parent s'"
proof -
  have fr: "fresh ranks parent s' = fresh ranks parent s" by (rule fresh_cong [OF assms(1-3)])
  from assms(4) consider
      p where "p \<in> {0..<ranks}" "p \<notin> fresh ranks parent s" "w_flag s p = 0 \<or> (\<exists>j \<in> {0..<ranks}. w_ack s j p > 0)"
    | c where "c \<in> fresh ranks parent s" "w_rise s c = [0]"
    unfolding doomed_def by blast
  then show ?thesis
  proof cases
    case 1
    from assms(5) [OF this] 1 show ?thesis unfolding doomed_def fr by blast
  next
    case 2
    then show ?thesis unfolding doomed_def fr assms(2) by blast
  qed
qed

lemma process_keeps:
  assumes inv: "wave_inv ranks parent kids s" and i: "i \<in> {0..<ranks}" "\<not> w_idle s i"
  shows "wave_inv ranks parent kids (s\<lparr>w_idle := (w_idle s)(i := b)\<rparr>)"
proof (rule wave_inv_keep [OF inv])
  show "doomed ranks parent (s\<lparr>w_idle := (w_idle s)(i := b)\<rparr>) \<or>
    (\<forall>j \<in> fresh ranks parent s. w_idle (s\<lparr>w_idle := (w_idle s)(i := b)\<rparr>) j
      \<and> w_out (s\<lparr>w_idle := (w_idle s)(i := b)\<rparr>) j = 0)"
    using wave_invE(6) [OF inv] i doomed_keep [of "s\<lparr>w_idle := (w_idle s)(i := b)\<rparr>" s ranks parent] by auto
qed (use wave_invE [OF inv] i in \<open>auto simp: quiet_def\<close>)

lemma halt_keeps:
  assumes inv: "wave_inv ranks parent kids s"
  shows "wave_inv ranks parent kids (s\<lparr>w_idle := (w_idle s)(i := True)\<rparr>)"
proof (rule wave_inv_keep [OF inv])
  show "doomed ranks parent (s\<lparr>w_idle := (w_idle s)(i := True)\<rparr>) \<or>
    (\<forall>j \<in> fresh ranks parent s. w_idle (s\<lparr>w_idle := (w_idle s)(i := True)\<rparr>) j
      \<and> w_out (s\<lparr>w_idle := (w_idle s)(i := True)\<rparr>) j = 0)"
    using wave_invE(6) [OF inv] doomed_keep [of "s\<lparr>w_idle := (w_idle s)(i := True)\<rparr>" s ranks parent] by auto
qed (use wave_invE [OF inv] in \<open>auto simp: quiet_def\<close>)

text \<open>Changing one entry of a table of counters changes the sum over its row by the difference.\<close>

lemma sum_update:
  fixes f g :: "int \<Rightarrow> int"
  assumes "j \<in> {0..<ranks}" and "\<And>x. x \<in> {0..<ranks} \<Longrightarrow> x \<noteq> j \<Longrightarrow> g x = f x"
  shows "sum g {0..<ranks} = sum f {0..<ranks} + (g j - f j)"
proof -
  have "sum g ({0..<ranks} - {j}) = sum f ({0..<ranks} - {j})" using assms(2) by (intro sum.cong) auto
  then show ?thesis using sum.remove [of "{0..<ranks}" j f] sum.remove [of "{0..<ranks}" j g] assms(1) by simp
qed

lemma ship_keeps:
  fixes b :: bool
  assumes inv: "wave_inv ranks parent kids s" and i: "i \<in> {0..<ranks}" "\<not> w_idle s i" and j: "j \<in> {0..<ranks}"
  defines "s' \<equiv> s\<lparr>w_idle := (w_idle s)(i := b), w_out := (w_out s)(i := w_out s i + 1),
      w_work := (w_work s)(i := (w_work s i)(j := Suc (w_work s i j)))\<rparr>"
  shows "wave_inv ranks parent kids s'"
proof (rule wave_inv_keep [OF inv])
  fix x assume x: "x \<in> {0..<ranks}"
  show "w_out s' x = (\<Sum>y \<in> {0..<ranks}. int (w_work s' x y) + int (w_ack s' y x))"
  proof (cases "x = i")
    case True
    then show ?thesis
      using wave_invE(4) [OF inv i(1)] j sum_update [of j ranks "\<lambda>y. int (w_work s' i y) + int (w_ack s' y i)"
          "\<lambda>y. int (w_work s i y) + int (w_ack s y i)"] by (simp add: s'_def)
  qed (use wave_invE(4) [OF inv x] in \<open>simp add: s'_def\<close>)
next
  show "doomed ranks parent s' \<or> (\<forall>x \<in> fresh ranks parent s. w_idle s' x \<and> w_out s' x = 0)"
    using wave_invE(6) [OF inv] i doomed_keep [of s' s ranks parent] by (auto simp: s'_def)
qed (use wave_invE [OF inv] i in \<open>auto simp: quiet_def s'_def\<close>)

lemma take_keeps:
  fixes b :: bool
  assumes inv: "wave_inv ranks parent kids s" and i: "i \<in> {0..<ranks}" and j: "j \<in> {0..<ranks}"
    and m: "w_work s j i = Suc m"
  defines "s' \<equiv> s\<lparr>w_idle := (w_idle s)(i := b), w_work := (w_work s)(j := (w_work s j)(i := m)),
      w_ack := (w_ack s)(i := (w_ack s i)(j := Suc (w_ack s i j)))\<rparr>"
  shows "wave_inv ranks parent kids s'"
proof (rule wave_inv_keep [OF inv])
  have busy: "w_out s j > 0" using out_zero(2) [OF inv j _ i] m by fastforce
  fix x assume x: "x \<in> {0..<ranks}"
  show "w_out s' x = (\<Sum>y \<in> {0..<ranks}. int (w_work s' x y) + int (w_ack s' y x))"
  proof (cases "x = j")
    case True
    then show ?thesis
      using wave_invE(4) [OF inv j] i m sum_update [of i ranks "\<lambda>y. int (w_work s' j y) + int (w_ack s' y j)"
          "\<lambda>y. int (w_work s j y) + int (w_ack s y j)"] by (simp add: s'_def)
  next
    case False
    have "(\<Sum>y \<in> {0..<ranks}. int (w_work s' x y) + int (w_ack s' y x))
        = (\<Sum>y \<in> {0..<ranks}. int (w_work s x y) + int (w_ack s y x))"
      using False by (intro sum.cong) (auto simp: s'_def)
    then show ?thesis using wave_invE(4) [OF inv x] by (simp add: s'_def)
  qed
next
  have busy: "w_out s j > 0" using out_zero(2) [OF inv j _ i] m by fastforce
  show "doomed ranks parent s' \<or> (\<forall>x \<in> fresh ranks parent s. w_idle s' x \<and> w_out s' x = 0)"
  proof (cases "doomed ranks parent s")
    case True
    then have "doomed ranks parent s'" by (rule doomed_keep [rotated 3]) (auto simp: s'_def)
    then show ?thesis ..
  next
    case False
    with wave_invE(6) [OF inv] busy have "j \<notin> fresh ranks parent s" by auto
    then have "j \<notin> fresh ranks parent s'" using fresh_cong [of s' s] by (simp add: s'_def)
    moreover have "w_ack s' i j > 0" by (simp add: s'_def)
    ultimately show ?thesis using i j unfolding doomed_def by blast
  qed
  show "quiet ranks s'" if "quiet ranks s" using that busy j by (auto simp: quiet_def)
qed (use wave_invE [OF inv] in \<open>auto simp: s'_def\<close>)

lemma acked_keeps:
  assumes inv: "wave_inv ranks parent kids s" and i: "i \<in> {0..<ranks}" and j: "j \<in> {0..<ranks}"
    and m: "w_ack s j i = Suc m"
  defines "s' \<equiv> s\<lparr>w_ack := (w_ack s)(j := (w_ack s j)(i := m)),
      w_out := (w_out s)(i := w_out s i - 1), w_flag := (w_flag s)(i := 0)\<rparr>"
  shows "wave_inv ranks parent kids s'"
proof (rule wave_inv_keep [OF inv])
  fix x assume x: "x \<in> {0..<ranks}"
  show "w_out s' x = (\<Sum>y \<in> {0..<ranks}. int (w_work s' x y) + int (w_ack s' y x))"
  proof (cases "x = i")
    case True
    then show ?thesis
      using wave_invE(4) [OF inv i] j m sum_update [of j ranks "\<lambda>y. int (w_work s' i y) + int (w_ack s' y i)"
          "\<lambda>y. int (w_work s i y) + int (w_ack s y i)"] by (simp add: s'_def)
  next
    case False
    have "(\<Sum>y \<in> {0..<ranks}. int (w_work s' x y) + int (w_ack s' y x))
        = (\<Sum>y \<in> {0..<ranks}. int (w_work s x y) + int (w_ack s y x))"
      using False by (intro sum.cong) (auto simp: s'_def)
    then show ?thesis using wave_invE(4) [OF inv x] False by (simp add: s'_def)
  qed
next
  have busy: "w_out s i > 0" using out_zero(3) [OF inv i _ j] m by fastforce
  have fr: "fresh ranks parent s' = fresh ranks parent s" by (rule fresh_cong) (simp_all add: s'_def)
  show "doomed ranks parent s' \<or> (\<forall>x \<in> fresh ranks parent s. w_idle s' x \<and> w_out s' x = 0)"
  proof (cases "i \<in> fresh ranks parent s")
    case True
    then have "doomed ranks parent s" using wave_invE(6) [OF inv] busy by auto
    then have "doomed ranks parent s'"
      by (rule doomed_keep [rotated 3]) (use True in \<open>auto simp: s'_def\<close>)
    then show ?thesis ..
  next
    case False
    then have "doomed ranks parent s'" using i fr unfolding doomed_def by (auto simp: s'_def)
    then show ?thesis ..
  qed
  show "quiet ranks s'" if "quiet ranks s" using that busy i by (auto simp: quiet_def)
qed (use wave_invE [OF inv] in \<open>auto simp: s'_def\<close>)

section \<open>Steps of the wave\<close>

lemma fresh_up: "x \<in> fresh ranks parent s \<Longrightarrow> w_up s x"
  by (induction rule: fresh.induct) (auto simp: counted_def)

lemma edge_cases [consumes 1, case_names counted idle rising falling]:
  assumes "edge_ok parent s c"
  obtains "counted s c"
    | "\<not> w_up s (parent c)" "\<not> w_up s c" "w_rise s c = []" "w_fall s c = []"
    | x where "\<not> w_up s (parent c)" "w_up s c" "w_rise s c = [x]" "w_fall s c = []" "x = 0 \<or> x = 1"
    | v where "\<not> w_up s (parent c)" "w_up s c" "w_rise s c = []" "w_fall s c = [v]" "v = 0 \<or> v = 1"
  using assms unfolding edge_ok_def by blast

text \<open>Rebuilding the invariant after a step of the wave, which keeps who is idle and what is owed.\<close>

lemma wave_inv_wave:
  assumes inv: "wave_inv ranks parent kids s"
    and same: "w_idle s' = w_idle s" "w_out s' = w_out s" "w_work s' = w_work s" "w_ack s' = w_ack s"
    and root: "\<not> w_up s' 0"
    and flag: "\<And>i. i \<in> {0..<ranks} \<Longrightarrow> w_flag s' i = 0 \<or> w_flag s' i = 1"
    and replies: "\<And>i. i \<in> {0..<ranks} \<Longrightarrow> w_replies s' i = int (card {c \<in> set (kids i). counted s' c})"
    and edge: "\<And>c. 0 < c \<Longrightarrow> c < ranks \<Longrightarrow> edge_ok parent s' c"
    and doom: "doomed ranks parent s' \<or> (\<forall>i \<in> fresh ranks parent s'. w_idle s i \<and> w_out s i = 0)"
    and qt: "\<And>i. i \<in> {0..<ranks} \<Longrightarrow> w_left s' i \<or> 1 \<in> set (w_fall s' i) \<Longrightarrow> quiet ranks s"
  shows "wave_inv ranks parent kids s'"
proof -
  have "quiet ranks s' = quiet ranks s" by (simp add: quiet_def same)
  moreover have "quiet ranks s" if "\<exists>i \<in> {0..<ranks}. w_left s' i \<or> 1 \<in> set (w_fall s' i)"
    using that qt by blast
  ultimately show ?thesis
    using wave_invE(4) [OF inv] root flag replies edge doom unfolding wave_inv_def same by auto
qed

context rank_tree
begin

lemma kid_unique:
  assumes "i \<in> {0..<ranks}" and "j \<in> {0..<ranks}" and "c \<in> set (kids i)" and "c \<in> set (kids j)"
  shows "i = j"
  using assms kids_iff [of i c] kids_iff [of j c] by auto

text \<open>A node that has heard from as many children as it has, has heard from each.\<close>

lemma all_counted:
  assumes inv: "wave_inv ranks parent kids s" and i: "i \<in> {0..<ranks}"
    and full: "w_replies s i = int (length (kids i))" and c: "c \<in> set (kids i)"
  shows "counted s c"
proof -
  have "card {c \<in> set (kids i). counted s c} = card (set (kids i))"
    using wave_invE(3) [OF inv i] full distinct_card [OF kids_distinct [of i]] by simp
  then have "{c \<in> set (kids i). counted s c} = set (kids i)" by (intro card_subset_eq) auto
  then show ?thesis using c by blast
qed

lemma absorb_fresh:
  assumes inv: "wave_inv ranks parent kids s" and i: "i \<in> {0..<ranks}" and c: "c \<in> set (kids i)"
    and x: "w_rise s c = x # xs"
  defines "s' \<equiv> s\<lparr>w_rise := (w_rise s)(c := xs), w_flag := (w_flag s)(i := w_flag s i AND x),
      w_replies := (w_replies s)(i := w_replies s i + 1)\<rparr>"
  shows "fresh ranks parent s' = fresh ranks parent s"
proof -
  from c i have pc: "0 < c" "c < ranks" "parent c = i" using kids_iff [of i c] by auto
  from wave_invE(5) [OF inv pc(1,2)] x
  have e: "xs = []" "x = 0 \<or> x = 1" "w_up s c" "w_fall s c = []" "\<not> w_up s i"
    by (cases rule: edge_cases; simp add: counted_def pc)+
  have cnt: "counted s' d \<longleftrightarrow> d = c \<or> counted s d" for d
    using e x by (auto simp: counted_def s'_def)
  have up: "w_up s' = w_up s" by (simp add: s'_def)
  have sub: "y \<in> fresh ranks parent s" if "y \<in> fresh ranks parent s'" for y
    using that
  proof induction
    case (rising d)
    then show ?case using fresh.rising [of d ranks s parent] e by (cases "d = c") (auto simp: s'_def)
  next
    case (joined d)
    then show ?case using fresh.rising [of d ranks s parent] fresh.joined [of d ranks s parent] e x
      by (cases "d = c") (auto simp: cnt up)
  next
    case (below d)
    then show ?case using fresh.rising [of d ranks s parent] fresh.below [of d ranks s parent] e x
      by (cases "d = c") (auto simp: cnt)
  qed
  have sup: "y \<in> fresh ranks parent s'" if "y \<in> fresh ranks parent s" for y
    using that
  proof induction
    case (rising d)
    then show ?case using fresh.rising [of d ranks s' parent] fresh.joined [of d ranks s' parent] e pc cnt
      by (cases "d = c") (auto simp: s'_def)
  next
    case (joined d)
    then show ?case using fresh.joined [of d ranks s' parent] cnt by (auto simp: up)
  next
    case (below d)
    then show ?case using fresh.below [of d ranks s' parent] cnt by auto
  qed
  show ?thesis using sub sup by blast
qed

lemma absorb_keeps:
  assumes inv: "wave_inv ranks parent kids s" and i: "i \<in> {0..<ranks}" and c: "c \<in> set (kids i)"
    and x: "w_rise s c = x # xs"
  defines "s' \<equiv> s\<lparr>w_rise := (w_rise s)(c := xs), w_flag := (w_flag s)(i := w_flag s i AND x),
      w_replies := (w_replies s)(i := w_replies s i + 1)\<rparr>"
  shows "wave_inv ranks parent kids s'"
proof -
  from c i have pc: "0 < c" "c < ranks" "parent c = i" using kids_iff [of i c] by auto
  from wave_invE(5) [OF inv pc(1,2)] x
  have e: "xs = []" "x = 0 \<or> x = 1" "w_up s c" "w_fall s c = []" "\<not> w_up s i"
    by (cases rule: edge_cases; simp add: counted_def pc)+
  have cnt: "counted s' d \<longleftrightarrow> d = c \<or> counted s d" for d
    using e x by (auto simp: counted_def s'_def)
  have up: "w_up s' = w_up s" by (simp add: s'_def)
  have fr: "fresh ranks parent s' = fresh ranks parent s" unfolding s'_def by (rule absorb_fresh [OF inv i c x])
  have doom: "doomed ranks parent s'" if "doomed ranks parent s"
  proof -
    have out: "i \<notin> fresh ranks parent s" using fresh_up [of i ranks parent s] e by blast
    from that consider
        p where "p \<in> {0..<ranks}" "p \<notin> fresh ranks parent s" "w_flag s p = 0 \<or> (\<exists>j \<in> {0..<ranks}. w_ack s j p > 0)"
      | d where "d \<in> fresh ranks parent s" "w_rise s d = [0]"
      unfolding doomed_def by blast
    then show ?thesis
    proof cases
      case 1
      then show ?thesis unfolding doomed_def fr by (intro disjI1 bexI [of _ p]) (auto simp: s'_def)
    next
      case 2
      then show ?thesis
        using out i x e unfolding doomed_def fr by (cases "d = c") (auto simp: s'_def)
    qed
  qed
  show ?thesis
  proof (rule wave_inv_wave [OF inv])
    fix j assume j: "j \<in> {0..<ranks}"
    show "w_flag s' j = 0 \<or> w_flag s' j = 1" using wave_invE(2) [OF inv j] e by (auto simp: s'_def)
    have nc: "\<not> counted s c" using x by (simp add: counted_def)
    show "w_replies s' j = int (card {d \<in> set (kids j). counted s' d})"
    proof (cases "j = i")
      case True
      have "{d \<in> set (kids i). counted s' d} = insert c {d \<in> set (kids i). counted s d}" using cnt c by blast
      then show ?thesis using True wave_invE(3) [OF inv j] nc by (simp add: s'_def)
    next
      case False
      then have "{d \<in> set (kids j). counted s' d} = {d \<in> set (kids j). counted s d}"
        using cnt kid_unique [OF i j c] by auto
      then show ?thesis using False wave_invE(3) [OF inv j] by (simp add: s'_def)
    qed
    show "quiet ranks s" if "w_left s' j \<or> 1 \<in> set (w_fall s' j)"
      using that wave_invE(7) [OF inv j] by (simp add: s'_def)
  next
    fix d assume "0 < d" "d < ranks"
    from wave_invE(5) [OF inv this] show "edge_ok parent s' d"
      using cnt by (auto simp: edge_ok_def s'_def)
  next
    show "doomed ranks parent s' \<or> (\<forall>i \<in> fresh ranks parent s'. w_idle s i \<and> w_out s i = 0)"
      using wave_invE(6) [OF inv] doom fr by blast
  qed (use wave_invE(1) [OF inv] in \<open>simp_all add: s'_def\<close>)
qed

lemma contribute_fresh:
  assumes inv: "wave_inv ranks parent kids s" and i: "i \<in> {0..<ranks}" "i \<noteq> 0"
    and idle: "w_idle s i" "w_out s i \<le> 0" "\<not> w_up s i" and full: "w_replies s i = int (length (kids i))"
  defines "s' \<equiv> s\<lparr>w_rise := (w_rise s)(i := w_rise s i @ [w_flag s i]),
      w_flag := (w_flag s)(i := 1), w_up := (w_up s)(i := True)\<rparr>"
  shows "fresh ranks parent s' = insert i (fresh ranks parent s)"
proof -
  from i have pi: "0 < i" "i < ranks" "parent i \<noteq> i" using parent_below [of i] by auto
  from wave_invE(5) [OF inv pi(1,2)] idle(3)
  have e: "w_rise s i = []" "w_fall s i = []" "\<not> w_up s (parent i)"
    by (cases rule: edge_cases; simp add: counted_def)+
  have fl: "w_flag s i = 0 \<or> w_flag s i = 1" using wave_invE(2) [OF inv i(1)] .
  have cnt: "counted s' d \<longleftrightarrow> counted s d" for d
    using e idle(3) by (auto simp: counted_def s'_def)
  have up: "w_up s' = (w_up s)(i := True)" and rise: "w_rise s' = (w_rise s)(i := [w_flag s i])"
    and fall: "w_fall s' = w_fall s" using e by (simp_all add: s'_def)
  have ni: "\<not> counted s i" "i \<notin> fresh ranks parent s"
    using idle(3) fresh_up [of i ranks parent s] by (auto simp: counted_def)
  have here: "i \<in> fresh ranks parent s'" using pi by (intro fresh.rising) (auto simp: s'_def)
  have sub: "y = i \<or> y \<in> fresh ranks parent s" if "y \<in> fresh ranks parent s'" for y
    using that
  proof induction
    case (rising d)
    then show ?case using fresh.rising [of d ranks s parent] by (cases "d = i") (auto simp: s'_def)
  next
    case (joined d)
    then show ?case using fresh.joined [of d ranks s parent] by (auto simp: cnt up split: if_splits)
  next
    case (below d)
    then show ?case using fresh.joined [of d ranks s parent] fresh.below [of d ranks s parent] idle(3)
      by (auto simp: cnt)
  qed
  have sup: "y \<in> fresh ranks parent s'" if "y \<in> fresh ranks parent s" for y
    using that
  proof induction
    case (rising d)
    then show ?case using fresh.rising [of d ranks s' parent] by (auto simp: s'_def)
  next
    case (joined d)
    then show ?case using fresh.joined [of d ranks s' parent] fresh.below [of d ranks s' parent] here cnt
      by (cases "parent d = i") (auto simp: up)
  next
    case (below d)
    then show ?case using fresh.below [of d ranks s' parent] cnt by auto
  qed
  show ?thesis using sub sup here by blast
qed

lemma contribute_keeps:
  assumes inv: "wave_inv ranks parent kids s" and i: "i \<in> {0..<ranks}" "i \<noteq> 0"
    and idle: "w_idle s i" "w_out s i \<le> 0" "\<not> w_up s i" and full: "w_replies s i = int (length (kids i))"
  defines "s' \<equiv> s\<lparr>w_rise := (w_rise s)(i := w_rise s i @ [w_flag s i]),
      w_flag := (w_flag s)(i := 1), w_up := (w_up s)(i := True)\<rparr>"
  shows "wave_inv ranks parent kids s'"
proof -
  from i have pi: "0 < i" "i < ranks" "parent i \<noteq> i" using parent_below [of i] by auto
  from wave_invE(5) [OF inv pi(1,2)] idle(3)
  have e: "w_rise s i = []" "w_fall s i = []" "\<not> w_up s (parent i)"
    by (cases rule: edge_cases; simp add: counted_def)+
  have fl: "w_flag s i = 0 \<or> w_flag s i = 1" using wave_invE(2) [OF inv i(1)] .
  have cnt: "counted s' d \<longleftrightarrow> counted s d" for d
    using e idle(3) by (auto simp: counted_def s'_def)
  have up: "w_up s' = (w_up s)(i := True)" and rise: "w_rise s' = (w_rise s)(i := [w_flag s i])"
    and fall: "w_fall s' = w_fall s" using e by (simp_all add: s'_def)
  have ni: "\<not> counted s i" "i \<notin> fresh ranks parent s"
    using idle(3) fresh_up [of i ranks parent s] by (auto simp: counted_def)
  have here: "i \<in> fresh ranks parent s'" using pi by (intro fresh.rising) (auto simp: s'_def)
  have fr: "fresh ranks parent s' = insert i (fresh ranks parent s)" unfolding s'_def by (rule contribute_fresh [OF inv i idle full])
  have doom: "doomed ranks parent s'" if "doomed ranks parent s"
  proof -
    from that consider
        p where "p \<in> {0..<ranks}" "p \<notin> fresh ranks parent s" "w_flag s p = 0 \<or> (\<exists>j \<in> {0..<ranks}. w_ack s j p > 0)"
      | d where "d \<in> fresh ranks parent s" "w_rise s d = [0]"
      unfolding doomed_def by blast
    then show ?thesis
    proof cases
      case 1
      show ?thesis
      proof (cases "p = i")
        case True
        with 1 out_zero(3) [OF inv i(1) idle(2)] have "w_flag s i = 0" by auto
        then show ?thesis using e unfolding doomed_def fr by (auto simp: s'_def)
      next
        case False
        then show ?thesis
          using 1 unfolding doomed_def fr by (intro disjI1 bexI [of _ p]) (auto simp: s'_def)
      qed
    next
      case 2
      moreover from 2 ni(2) have "d \<noteq> i" by blast
      ultimately show ?thesis unfolding doomed_def fr by (intro disjI2 bexI [of _ d]) (auto simp: s'_def)
    qed
  qed
  show ?thesis
  proof (rule wave_inv_wave [OF inv])
    fix j assume j: "j \<in> {0..<ranks}"
    show "w_flag s' j = 0 \<or> w_flag s' j = 1" using wave_invE(2) [OF inv j] by (auto simp: s'_def)
    show "w_replies s' j = int (card {d \<in> set (kids j). counted s' d})"
      using wave_invE(3) [OF inv j] by (simp add: cnt) (simp add: s'_def)
    show "quiet ranks s" if "w_left s' j \<or> 1 \<in> set (w_fall s' j)"
      using that wave_invE(7) [OF inv j] by (simp add: s'_def)
  next
    fix d assume d: "0 < d" "d < ranks"
    show "edge_ok parent s' d"
    proof (cases "parent d = i")
      case True
      then have "counted s d" using all_counted [OF inv i(1) full, of d] kids_iff [of i d] d i by auto
      then show ?thesis by (simp add: edge_ok_def cnt)
    next
      case False
      then show ?thesis
        using wave_invE(5) [OF inv d] e fl pi(3) by (cases "d = i") (auto simp: edge_ok_def cnt up rise fall)
    qed
  next
    show "doomed ranks parent s' \<or> (\<forall>i \<in> fresh ranks parent s'. w_idle s i \<and> w_out s i = 0)"
      using wave_invE(6) [OF inv] doom idle(1) out_zero(1) [OF inv i(1) idle(2) i(1)] unfolding fr by auto
  qed (use wave_invE(1) [OF inv] i in \<open>simp_all add: s'_def\<close>)
qed

lemma deliver_fresh:
  assumes inv: "wave_inv ranks parent kids s" and i: "i \<in> {0..<ranks}" "i \<noteq> 0"
    and up: "w_up s i" and v: "w_fall s i = v # vs"
  defines "s' \<equiv> s\<lparr>w_fall := fall_to (kids i) v ((w_fall s)(i := vs)), w_up := (w_up s)(i := False),
      w_replies := (w_replies s)(i := 0), w_left := (w_left s)(i := v \<noteq> 0)\<rparr>"
  shows "fresh ranks parent s' = fresh ranks parent s"
proof -
  from i have pi: "0 < i" "i < ranks" "parent i \<noteq> i" "i \<notin> set (kids i)"
    using parent_below [of i] kids_iff [of i i] by auto
  from wave_invE(5) [OF inv pi(1,2)] v
  have e: "vs = []" "v = 0 \<or> v = 1" "w_rise s i = []" "\<not> w_up s (parent i)"
    by (cases rule: edge_cases; simp add: counted_def)+
  have kc: "counted s d" if "d \<in> set (kids i)" for d
  proof -
    have "0 < d" "d < ranks" "parent d = i" using that i kids_iff [of i d] by auto
    from wave_invE(5) [OF inv this(1,2)] show ?thesis by (cases rule: edge_cases) (simp_all add: \<open>parent d = i\<close> up)
  qed
  have up': "w_up s' = (w_up s)(i := False)" and rise: "w_rise s' = w_rise s" by (simp_all add: s'_def)
  have fall: "w_fall s' d = (if d = i then [] else if d \<in> set (kids i) then [v] else w_fall s d)" for d
    using kc [of d] pi e(1) by (auto simp: s'_def fall_to_def counted_def)
  have cnt: "counted s' d \<longleftrightarrow> counted s d \<and> d \<notin> set (kids i)" for d
    using v by (cases "d = i") (auto simp: counted_def up' rise fall)
  have ni: "i \<notin> fresh ranks parent s" using e v by (auto elim: fresh.cases simp: counted_def)
  have sub: "y \<in> fresh ranks parent s" if "y \<in> fresh ranks parent s'" for y
    using that
  proof induction
    case (rising d)
    then show ?case using fresh.rising [of d ranks s parent] by (auto simp: up' rise split: if_splits)
  next
    case (joined d)
    then have "parent d \<noteq> i" using kids_iff [of i d] i cnt by auto
    with joined show ?case using fresh.joined [of d ranks s parent] by (auto simp: cnt up' split: if_splits)
  next
    case (below d)
    then show ?case using fresh.below [of d ranks s parent] by (auto simp: cnt)
  qed
  have sup: "y \<in> fresh ranks parent s'" if "y \<in> fresh ranks parent s" for y
    using that
  proof induction
    case (rising d)
    then show ?case using fresh.rising [of d ranks s' parent] e by (cases "d = i") (auto simp: up' rise)
  next
    case (joined d)
    then have "d \<notin> set (kids i)" using kids_iff [of i d] i up by auto
    with joined show ?case using fresh.joined [of d ranks s' parent] by (auto simp: cnt up')
  next
    case (below d)
    then have "d \<notin> set (kids i)" using kids_iff [of i d] i ni by auto
    with below show ?case using fresh.below [of d ranks s' parent] by (auto simp: cnt)
  qed
  show ?thesis using sub sup by blast
qed

lemma deliver_keeps:
  assumes inv: "wave_inv ranks parent kids s" and i: "i \<in> {0..<ranks}" "i \<noteq> 0"
    and up: "w_up s i" and v: "w_fall s i = v # vs"
  defines "s' \<equiv> s\<lparr>w_fall := fall_to (kids i) v ((w_fall s)(i := vs)), w_up := (w_up s)(i := False),
      w_replies := (w_replies s)(i := 0), w_left := (w_left s)(i := v \<noteq> 0)\<rparr>"
  shows "wave_inv ranks parent kids s'"
proof -
  from i have pi: "0 < i" "i < ranks" "parent i \<noteq> i" "i \<notin> set (kids i)"
    using parent_below [of i] kids_iff [of i i] by auto
  from wave_invE(5) [OF inv pi(1,2)] v
  have e: "vs = []" "v = 0 \<or> v = 1" "w_rise s i = []" "\<not> w_up s (parent i)"
    by (cases rule: edge_cases; simp add: counted_def)+
  have kc: "counted s d" if "d \<in> set (kids i)" for d
  proof -
    have "0 < d" "d < ranks" "parent d = i" using that i kids_iff [of i d] by auto
    from wave_invE(5) [OF inv this(1,2)] show ?thesis by (cases rule: edge_cases) (simp_all add: \<open>parent d = i\<close> up)
  qed
  have up': "w_up s' = (w_up s)(i := False)" and rise: "w_rise s' = w_rise s" by (simp_all add: s'_def)
  have fall: "w_fall s' d = (if d = i then [] else if d \<in> set (kids i) then [v] else w_fall s d)" for d
    using kc [of d] pi e(1) by (auto simp: s'_def fall_to_def counted_def)
  have cnt: "counted s' d \<longleftrightarrow> counted s d \<and> d \<notin> set (kids i)" for d
    using v by (cases "d = i") (auto simp: counted_def up' rise fall)
  have ni: "i \<notin> fresh ranks parent s" using e v by (auto elim: fresh.cases simp: counted_def)
  have fr: "fresh ranks parent s' = fresh ranks parent s" unfolding s'_def by (rule deliver_fresh [OF inv i up v])
  have doom: "doomed ranks parent s' = doomed ranks parent s" unfolding doomed_def fr by (simp add: s'_def)
  show ?thesis
  proof (rule wave_inv_wave [OF inv])
    fix j assume j: "j \<in> {0..<ranks}"
    show "w_flag s' j = 0 \<or> w_flag s' j = 1" using wave_invE(2) [OF inv j] by (auto simp: s'_def)
    show "w_replies s' j = int (card {d \<in> set (kids j). counted s' d})"
    proof (cases "j = i")
      case True
      then have "{d \<in> set (kids j). counted s' d} = {}" using cnt by auto
      then show ?thesis using True by (simp only: card.empty) (simp add: s'_def)
    next
      case False
      then have "{d \<in> set (kids j). counted s' d} = {d \<in> set (kids j). counted s d}"
        using cnt kid_unique [OF i(1) j] by auto
      then show ?thesis using False wave_invE(3) [OF inv j] by (simp add: s'_def)
    qed
    show "quiet ranks s" if "w_left s' j \<or> 1 \<in> set (w_fall s' j)"
      using that wave_invE(7) [OF inv j] wave_invE(7) [OF inv i(1)] v e(2) unfolding fall
      by (auto simp: s'_def split: if_splits)
  next
    fix d assume d: "0 < d" "d < ranks"
    show "edge_ok parent s' d"
    proof (cases "d = i \<or> parent d = i")
      case True
      then show ?thesis
        using kids_iff [of i d] d i kc [of d] e pi(3) by (auto simp: edge_ok_def up' rise fall counted_def)
    next
      case False
      then have "d \<notin> set (kids i)" using kids_iff [of i d] i by auto
      then show ?thesis
        using False wave_invE(5) [OF inv d] by (simp add: edge_ok_def cnt up' rise fall)
    qed
  next
    show "doomed ranks parent s' \<or> (\<forall>i \<in> fresh ranks parent s'. w_idle s i \<and> w_out s i = 0)"
      using wave_invE(6) [OF inv] doom fr by blast
  qed (use wave_invE(1) [OF inv] i in \<open>simp_all add: s'_def\<close>)
qed

text \<open>When the root has heard from all its children, every other process is part of the wave.\<close>

lemma root_full:
  assumes inv: "wave_inv ranks parent kids s" and full: "w_replies s 0 = int (length (kids 0))"
    and c: "0 < c" "c < ranks"
  shows "counted s c" and "c \<in> fresh ranks parent s"
proof -
  have base: "c = 0 \<or> counted s c" if "0 \<le> c" "c < ranks" for c
    using that
  proof (induction rule: from_root)
    case (kid c)
    then have r: "0 \<in> {0..<ranks}" by auto
    show ?case
    proof (cases "parent c = 0")
      case True
      then show ?thesis using all_counted [OF inv r full] kids_iff [of 0 c] kid by auto
    next
      case False
      then have "w_up s (parent c)" using kid by (simp add: counted_def)
      with wave_invE(5) [OF inv kid(1,2)] show ?thesis by (cases rule: edge_cases) simp_all
    qed
  qed simp
  have all: "counted s c" if "0 < c" "c < ranks" for c using that base [of c] by simp
  then show "counted s c" using c by blast
  have "c = 0 \<or> c \<in> fresh ranks parent s" if "0 \<le> c" "c < ranks"
    using that
  proof (induction rule: from_root)
    case (kid c)
    then show ?case
      using fresh.joined [of c ranks s parent] fresh.below [of c ranks s parent] all [OF kid(1,2)]
        wave_invE(1) [OF inv] by auto
  qed simp
  then show "c \<in> fresh ranks parent s" using c by simp
qed

lemma decide_keeps:
  assumes inv: "wave_inv ranks parent kids s" and r: "0 < ranks"
    and idle: "w_idle s 0" "w_out s 0 \<le> 0" and full: "w_replies s 0 = int (length (kids 0))"
  defines "s' \<equiv> s\<lparr>w_fall := fall_to (kids 0) (w_flag s 0) (w_fall s), w_flag := (w_flag s)(0 := 1),
      w_replies := (w_replies s)(0 := 0), w_left := (w_left s)(0 := w_flag s 0 \<noteq> 0)\<rparr>"
  shows "wave_inv ranks parent kids s'"
proof -
  have z: "0 \<in> {0..<ranks}" using r by simp
  note all = root_full [OF inv full]
  have up: "w_up s' = w_up s" and rise: "w_rise s' = w_rise s" by (simp_all add: s'_def)
  have kid: "d \<in> set (kids 0) \<longleftrightarrow> 0 < d \<and> d < ranks \<and> parent d = 0" for d using kids_iff [of 0 d] r by simp
  have fall: "w_fall s' d = (if d \<in> set (kids 0) then [w_flag s 0] else w_fall s d)" for d
    using all(1) [of d] kid by (auto simp: s'_def fall_to_def counted_def)
  have cnt: "counted s' d \<longleftrightarrow> counted s d \<and> d \<notin> set (kids 0)" for d
    by (auto simp: counted_def up rise fall)
  have none: "y \<notin> fresh ranks parent s'" for y
  proof
    assume "y \<in> fresh ranks parent s'"
    then show False
    proof induction
      case (rising c)
      then show ?case using all(1) [of c] by (simp add: rise counted_def)
    next
      case (joined c)
      then have "parent c \<noteq> 0" using cnt kid by auto
      then have "0 < parent c" "parent c < ranks" using parent_below joined(1,2) by fastforce+
      with joined show ?case using all(1) [of "parent c"] by (simp add: up counted_def)
    qed
  qed
  have fl: "w_flag s 0 = 0 \<or> w_flag s 0 = 1" using wave_invE(2) [OF inv z] .
  have qt: "quiet ranks s" if one: "w_flag s 0 \<noteq> 0"
  proof -
    have "\<not> doomed ranks parent s"
    proof
      assume "doomed ranks parent s"
      then consider p where "p \<in> {0..<ranks}" "p \<notin> fresh ranks parent s"
          "w_flag s p = 0 \<or> (\<exists>j \<in> {0..<ranks}. w_ack s j p > 0)"
        | d where "d \<in> fresh ranks parent s" "w_rise s d = [0]"
        unfolding doomed_def by blast
      then show False
      proof cases
        case 1
        then have "p = 0" using all(2) [of p] by force
        with 1 one out_zero(3) [OF inv z idle(2)] show False by auto
      next
        case 2
        then have "0 < d" "d < ranks" by (auto elim: fresh.cases)
        with all(1) [of d] 2 show False by (simp add: counted_def)
      qed
    qed
    with wave_invE(6) [OF inv] all(2) have "w_idle s c \<and> w_out s c = 0" if "0 < c" "c < ranks" for c
      using that by blast
    then show ?thesis using idle out_zero(1) [OF inv z idle(2) z] unfolding quiet_def
      by (metis atLeastLessThan_iff order_le_less)
  qed
  show ?thesis
  proof (rule wave_inv_wave [OF inv])
    fix j assume j: "j \<in> {0..<ranks}"
    show "w_flag s' j = 0 \<or> w_flag s' j = 1" using wave_invE(2) [OF inv j] by (auto simp: s'_def)
    show "w_replies s' j = int (card {d \<in> set (kids j). counted s' d})"
    proof (cases "j = 0")
      case True
      then have "{d \<in> set (kids j). counted s' d} = {}" using cnt by auto
      then show ?thesis using True by (simp only: card.empty) (simp add: s'_def)
    next
      case False
      then have "{d \<in> set (kids j). counted s' d} = {d \<in> set (kids j). counted s d}"
        using cnt kid_unique [OF z j] by auto
      then show ?thesis using False wave_invE(3) [OF inv j] by (simp add: s'_def)
    qed
    show "quiet ranks s" if "w_left s' j \<or> 1 \<in> set (w_fall s' j)"
      using that wave_invE(7) [OF inv j] wave_invE(7) [OF inv z] qt fl unfolding fall
      by (auto simp: s'_def split: if_splits)
  next
    fix d assume d: "0 < d" "d < ranks"
    show "edge_ok parent s' d"
      using all(1) [OF d] d kid [of d] fl wave_invE(1) [OF inv]
      by (auto simp: edge_ok_def up rise fall counted_def)
  qed (use none wave_invE(1) [OF inv] in \<open>auto simp: s'_def\<close>)
qed

text \<open>A node that a result is on its way to has heard from all its children.\<close>

lemma falling_full:
  assumes inv: "wave_inv ranks parent kids s" and i: "0 < i" "i < ranks" and f: "w_fall s i \<noteq> []"
  shows "w_replies s i = int (length (kids i))"
proof -
  have up: "w_up s i" using wave_invE(5) [OF inv i] f by (cases rule: edge_cases) (simp_all add: counted_def)
  have "counted s c" if "c \<in> set (kids i)" for c
  proof -
    have "0 < c" "c < ranks" "parent c = i" using that i kids_iff [of i c] by auto
    from wave_invE(5) [OF inv this(1,2)] show ?thesis by (cases rule: edge_cases) (simp_all add: \<open>parent c = i\<close> up)
  qed
  then have "{c \<in> set (kids i). counted s c} = set (kids i)" by blast
  then show ?thesis using wave_invE(3) [OF inv, of i] i distinct_card [OF kids_distinct [of i]] by simp
qed

text \<open>The invariant holds in every state the steps lead to.\<close>

lemma wave_step_keeps: "wave_step ranks kids s s' \<Longrightarrow> wave_inv ranks parent kids s \<Longrightarrow> wave_inv ranks parent kids s'"
  by (induction rule: wave_step.induct)
    (auto intro: process_keeps halt_keeps ship_keeps take_keeps acked_keeps absorb_keeps contribute_keeps
      deliver_keeps decide_keeps)

lemma wave_steps_keep:
  "(wave_step ranks kids)\<^sup>*\<^sup>* s s' \<Longrightarrow> wave_inv ranks parent kids s \<Longrightarrow> wave_inv ranks parent kids s'"
  by (induction rule: rtranclp_induct) (auto intro: wave_step_keeps)

text \<open>The start: nothing has been sent and nobody has taken part in a wave.\<close>

lemma wave_start_inv:
  assumes "\<And>i. i \<in> {0..<ranks} \<Longrightarrow> w_out s i = 0 \<and> \<not> w_up s i \<and> w_replies s i = 0 \<and> w_flag s i = 1 \<and> \<not> w_left s i"
    and "\<And>i j. w_work s i j = 0 \<and> w_ack s i j = 0" and "\<And>i. w_rise s i = [] \<and> w_fall s i = []"
    and "0 < ranks"
  shows "wave_inv ranks parent kids s"
proof -
  have up: "\<not> w_up s i" if "i \<in> {0..<ranks}" for i using assms(1) that by blast
  have "x \<notin> fresh ranks parent s" for x
  proof
    assume x: "x \<in> fresh ranks parent s"
    then have "x \<in> {0..<ranks}" by (auto elim: fresh.cases)
    with up fresh_up [OF x] show False by blast
  qed
  moreover have "edge_ok parent s c" if "0 < c" "c < ranks" for c
    using up [of c] up [of "parent c"] parent_below [OF that] that assms(3) by (auto simp: edge_ok_def)
  moreover have "\<not> counted s c" if "c \<in> set (kids i)" "i \<in> {0..<ranks}" for c i
    using up [of c] kids_iff [of i c] that by (auto simp: counted_def)
  then have "{c \<in> set (kids i). counted s c} = {}" if "i \<in> {0..<ranks}" for i using that by blast
  ultimately show ?thesis using assms by (auto simp: wave_inv_def)
qed

end

end
