(* ===== verification/System.thy ===== *)
theory System
  imports Init Wave
begin

text \<open>
  All processes together. A step of the system is one call of the work loop made by one process (in
  \<open>move\<close>, with the condition under which the loop makes it), so the steps interleave the calls
  of the processes in every order; a whole pass of either loop is a sequence of such moves. The
  system refines the abstract termination protocol of theory \<open>Wave\<close>, and that the
  termination detection by the tree is safe follows: when the first process leaves its main loop
  no work is queued, except at processes that are aborting, and none is under way.
\<close>

unbundle bit_operations_syntax

section \<open>The abstraction\<close>

definition term_vals :: "payload list \<Rightarrow> int list" where
  "term_vals = map (\<lambda>m. case m of Ints [v] \<Rightarrow> v | _ \<Rightarrow> 0)"

lemma term_vals_simps [simp]:
  "term_vals [] = []" "term_vals (Ints [v] # ms) = v # term_vals ms" "term_vals (xs @ ys) = term_vals xs @ term_vals ys"
  "term_vals ms = [] \<longleftrightarrow> ms = []"
  by (simp_all add: term_vals_def)

text \<open>The state of the protocol that processes \<open>ps\<close> and channels \<open>c\<close> stand for.\<close>

definition wave_of :: "int \<Rightarrow> (int \<Rightarrow> 'u proc) \<Rightarrow> (channel \<Rightarrow> payload list) \<Rightarrow> (int \<Rightarrow> bool) \<Rightarrow> wave" where
  "wave_of k ps c left = \<lparr>w_idle = (\<lambda>i. idle (ps i)), w_out = (\<lambda>i. work_outstanding (ps i)),
     w_work = (\<lambda>i j. length (batches (c (i, j, CIRCLE_TAG_WORK_REPLY)))),
     w_ack = (\<lambda>i j. length (c (i, j, CIRCLE_TAG_WORK_RECEIPT))),
     w_up = (\<lambda>i. term_up (ps i) \<noteq> 0), w_replies = (\<lambda>i. term_replies (ps i)), w_flag = (\<lambda>i. term_flag (ps i)),
     w_rise = (\<lambda>i. term_vals (c (i, tree_parent k i, CIRCLE_TAG_TERM))),
     w_fall = (\<lambda>i. term_vals (c (tree_parent k i, i, CIRCLE_TAG_TERM))), w_left = left\<rparr>"

text \<open>Termination messages travel along the edges of the tree.\<close>

definition edges_ok :: "int \<Rightarrow> int \<Rightarrow> (channel \<Rightarrow> payload list) \<Rightarrow> bool" where
  "edges_ok k ranks c \<longleftrightarrow> (\<forall>s d. c (s, d, CIRCLE_TAG_TERM) \<noteq> [] \<longrightarrow>
     0 < s \<and> s < ranks \<and> d = tree_parent k s \<or> 0 < d \<and> d < ranks \<and> s = tree_parent k d)"

definition glob ::
  "('n, 'z) mpi_scheme \<Rightarrow> ('n \<Rightarrow> channel \<Rightarrow> payload list) \<Rightarrow> ('n \<Rightarrow> channel set) \<Rightarrow> int \<Rightarrow> int \<Rightarrow>
     (int \<Rightarrow> 'u proc) \<Rightarrow> 'n \<Rightarrow> (int \<Rightarrow> bool) \<Rightarrow> bool" where
  "glob E chan posted k ranks ps n left \<longleftrightarrow>
     (\<forall>i \<in> {0..<ranks}. rank (ps i) = i \<and> local_ok E chan posted k ranks (ps i) n)
     \<and> edges_ok k ranks (chan n)
     \<and> wave_inv ranks (tree_parent k) (tree_kids k ranks) (wave_of k ps (chan n) left)"

section \<open>Effects are steps of the protocol\<close>

lemma glob_proc:
  assumes "glob E chan posted k ranks ps n left" and "i \<in> {0..<ranks}"
  shows "rank (ps i) = i" "local_ok E chan posted k ranks (ps i) n"
  using assms by (simp_all add: glob_def)

text \<open>Changes of one process that the protocol does not see, or sees as processing an item.\<close>

lemma silent_step:
  assumes i: "i \<in> {0..<ranks}" and sw: "same_wave (ps i) p'" and id: "idle (ps i) \<longrightarrow> idle p'"
    and ch: "\<And>j d. batches (c' (j, d, CIRCLE_TAG_WORK_REPLY)) = batches (c (j, d, CIRCLE_TAG_WORK_REPLY))"
      "\<And>j d. c' (j, d, CIRCLE_TAG_WORK_RECEIPT) = c (j, d, CIRCLE_TAG_WORK_RECEIPT)"
      "\<And>j d. c' (j, d, CIRCLE_TAG_TERM) = c (j, d, CIRCLE_TAG_TERM)"
  shows "(wave_step ranks kids)\<^sup>*\<^sup>* (wave_of k ps c left) (wave_of k (ps(i := p')) c' left)"
proof -
  note same = same_waveD [OF sw]
  have eq: "wave_of k (ps(i := p')) c' left
      = (wave_of k ps c left)\<lparr>w_idle := (w_idle (wave_of k ps c left))(i := idle p')\<rparr>"
    using same ch by (auto simp: wave_of_def fun_eq_iff)
  show ?thesis
  proof (cases "idle (ps i)")
    case True
    then have "wave_of k (ps(i := p')) c' left = wave_of k ps c left"
      using id unfolding eq by (simp add: wave_of_def fun_upd_idem)
    then show ?thesis by simp
  next
    case False
    then show ?thesis unfolding eq
      by (intro r_into_rtranclp wave_step.process [OF i]) (simp add: wave_of_def)
  qed
qed

lemma ship_step:
  assumes i: "i \<in> {0..<ranks}" and d: "d \<in> {0..<ranks}" and busy: "\<not> idle (ps i)"
    and sw: "same_wave ((ps i)\<lparr>work_outstanding := work_outstanding (ps i) + 1\<rparr>) p'"
    and msg: "work_msg mx ws xs bs" and ok: "replies_ok mx (c (i, d, CIRCLE_TAG_WORK_REPLY))"
    and c': "c' = put (put c (i, d, CIRCLE_TAG_WORK_REPLY) (Ints xs)) (i, d, CIRCLE_TAG_WORK_REPLY) (Bytes bs)"
  shows "wave_step ranks kids (wave_of k ps c left) (wave_of k (ps(i := p')) c' left)"
proof -
  let ?s = "wave_of k ps c left"
  note same = same_waveD [OF sw, simplified]
  have b: "batches (c' (j, e, CIRCLE_TAG_WORK_REPLY)) = (if (j, e) = (i, d)
      then batches (c (i, d, CIRCLE_TAG_WORK_REPLY)) @ [ws] else batches (c (j, e, CIRCLE_TAG_WORK_REPLY)))" for j e
    using batches_append [OF ok] replies_ok_work(2) [OF msg] by (auto simp: c' put_apply)
  have "wave_of k (ps(i := p')) c' left = ?s\<lparr>w_idle := (w_idle ?s)(i := idle p'), w_out := (w_out ?s)(i := w_out ?s i + 1),
      w_work := (w_work ?s)(i := (w_work ?s i)(d := Suc (w_work ?s i d)))\<rparr>"
    using same b by (auto simp: wave_of_def fun_eq_iff) (auto simp: c' put_apply)
  then show ?thesis using wave_step.ship [OF i d, of ?s kids "idle p'"] busy by (simp add: wave_of_def)
qed

lemma take_step:
  assumes i: "i \<in> {0..<ranks}" and d: "d \<in> {0..<ranks}" and sw: "same_wave (ps i) p'"
    and msg: "work_msg mx ws xs bs" and ok: "replies_ok mx (c (d, i, CIRCLE_TAG_WORK_REPLY))"
    and c: "c (d, i, CIRCLE_TAG_WORK_REPLY) = Ints xs # Bytes bs # ms"
    and c': "c' = put (c((d, i, CIRCLE_TAG_WORK_REPLY) := ms)) (i, d, CIRCLE_TAG_WORK_RECEIPT) (Bytes [])"
  shows "wave_step ranks kids (wave_of k ps c left) (wave_of k (ps(i := p')) c' left)"
proof -
  let ?s = "wave_of k ps c left"
  note same = same_waveD [OF sw]
  have b: "batches (c (d, i, CIRCLE_TAG_WORK_REPLY)) = ws # batches ms"
    using replies_ok_taken(2) [OF msg] ok unfolding c by blast
  have w: "w_work ?s d i = Suc (length (batches ms))" using b by (simp add: wave_of_def)
  have "wave_of k (ps(i := p')) c' left = ?s\<lparr>w_idle := (w_idle ?s)(i := idle p'),
      w_work := (w_work ?s)(d := (w_work ?s d)(i := length (batches ms))),
      w_ack := (w_ack ?s)(i := (w_ack ?s i)(d := Suc (w_ack ?s i d)))\<rparr>"
    using same by (auto simp: wave_of_def fun_eq_iff c' put_apply)
  then show ?thesis using wave_step.take [OF i d w, of kids "idle p'"] by simp
qed

lemma acked_step:
  assumes i: "i \<in> {0..<ranks}" and d: "d \<in> {0..<ranks}" and c: "c (d, i, CIRCLE_TAG_WORK_RECEIPT) = m # ms"
  shows "wave_step ranks kids (wave_of k ps c left)
    (wave_of k (ps(i := (ps i)\<lparr>work_outstanding := work_outstanding (ps i) - 1, term_flag := 0\<rparr>))
      (c((d, i, CIRCLE_TAG_WORK_RECEIPT) := ms)) left)"
proof -
  let ?s = "wave_of k ps c left"
  have w: "w_ack ?s d i = Suc (length ms)" using c by (simp add: wave_of_def)
  have "wave_of k (ps(i := (ps i)\<lparr>work_outstanding := work_outstanding (ps i) - 1, term_flag := 0\<rparr>))
      (c((d, i, CIRCLE_TAG_WORK_RECEIPT) := ms)) left
    = ?s\<lparr>w_ack := (w_ack ?s)(d := (w_ack ?s d)(i := length ms)), w_out := (w_out ?s)(i := w_out ?s i - 1),
        w_flag := (w_flag ?s)(i := 0)\<rparr>"
    by (auto simp: wave_of_def fun_eq_iff idle_def)
  then show ?thesis using wave_step.acked [OF i d w, of kids] by simp
qed

text \<open>A termination message to a parent that still waits for children comes from a child.\<close>

lemma absorb_source:
  assumes k: "0 < k" and inv: "wave_inv ranks (tree_parent k) (tree_kids k ranks) (wave_of k ps c left)"
    and edges: "edges_ok k ranks c" and i: "i \<in> {0..<ranks}" and c: "c (d, i, CIRCLE_TAG_TERM) = m # ms"
    and less: "term_replies (ps i) < int (length (tree_kids k ranks i))"
  shows "d \<in> set (tree_kids k ranks i)"
proof -
  from edges c consider "0 < d" "d < ranks" "i = tree_parent k d" | "0 < i" "i < ranks" "d = tree_parent k i"
    unfolding edges_ok_def by (metis list.distinct(1))
  then show ?thesis
  proof cases
    case 1
    then show ?thesis using tree_facts(2) [OF k, of i ranks d] i by auto
  next
    case 2
    then have "w_fall (wave_of k ps c left) i \<noteq> []" using c by (simp add: wave_of_def)
    from rank_tree.falling_full [OF tree_facts(3) [OF k] inv 2(1,2) this] less show ?thesis by (simp add: wave_of_def)
  qed
qed

lemma absorb_step:
  assumes k: "0 < k" and i: "i \<in> {0..<ranks}" and d: "d \<in> set (tree_kids k ranks i)"
    and c: "c (d, i, CIRCLE_TAG_TERM) = Ints [v] # ms" and nl: "\<not> left i"
  shows "wave_step ranks (tree_kids k ranks) (wave_of k ps c left)
    (wave_of k (ps(i := (ps i)\<lparr>term_flag := term_flag (ps i) AND v, term_replies := term_replies (ps i) + 1\<rparr>))
      (c((d, i, CIRCLE_TAG_TERM) := ms)) left)"
proof -
  let ?s = "wave_of k ps c left"
  have pd: "0 < d" "d < ranks" "tree_parent k d = i" using tree_facts(2) [OF k, of i ranks d] i d by auto
  have ne: "\<not> (tree_parent k j = d \<and> j = i)" for j using no_two_cycle [OF k pd(1,2)] pd(3) by auto
  have w: "w_rise ?s d = v # term_vals ms" using c pd(3) by (simp add: wave_of_def)
  have "wave_of k (ps(i := (ps i)\<lparr>term_flag := term_flag (ps i) AND v, term_replies := term_replies (ps i) + 1\<rparr>))
      (c((d, i, CIRCLE_TAG_TERM) := ms)) left
    = ?s\<lparr>w_rise := (w_rise ?s)(d := term_vals ms), w_flag := (w_flag ?s)(i := w_flag ?s i AND v),
        w_replies := (w_replies ?s)(i := w_replies ?s i + 1)\<rparr>"
    using pd(3) ne by (auto simp: wave_of_def fun_eq_iff idle_def)
  then show ?thesis using wave_step.absorb [where kids = "tree_kids k ranks", OF i d w] nl by (simp add: wave_of_def)
qed

lemma contribute_step:
  assumes k: "0 < k" and i: "i \<in> {0..<ranks}" "i \<noteq> 0" and idle: "idle (ps i)" "work_outstanding (ps i) \<le> 0" "term_up (ps i) = 0"
    and full: "term_replies (ps i) = int (length (tree_kids k ranks i))" and nl: "\<not> left i"
  shows "wave_step ranks (tree_kids k ranks) (wave_of k ps c left)
    (wave_of k (ps(i := (ps i)\<lparr>term_flag := 1, term_up := 1\<rparr>))
      (put c (i, tree_parent k i, CIRCLE_TAG_TERM) (Ints [term_flag (ps i)])) left)"
proof -
  let ?s = "wave_of k ps c left"
  have "\<not> (tree_parent k j = i \<and> j = tree_parent k i)" for j using no_two_cycle [OF k, of i ranks] i by auto
  then have "wave_of k (ps(i := (ps i)\<lparr>term_flag := 1, term_up := 1\<rparr>))
      (put c (i, tree_parent k i, CIRCLE_TAG_TERM) (Ints [term_flag (ps i)])) left
    = ?s\<lparr>w_rise := (w_rise ?s)(i := w_rise ?s i @ [w_flag ?s i]), w_flag := (w_flag ?s)(i := 1),
        w_up := (w_up ?s)(i := True)\<rparr>"
    by (auto simp: wave_of_def fun_eq_iff idle_def put_apply)
  then show ?thesis
    using wave_step.contribute [where kids = "tree_kids k ranks", OF i, of ?s] idle full nl by (simp add: wave_of_def)
qed

text \<open>A result sent to the children of \<open>i\<close> is seen by exactly them.\<close>

lemma fan_fall:
  assumes k: "0 < k" and i: "i \<in> {0..<ranks}"
  shows "fan c i (tree_kids k ranks i) CIRCLE_TAG_TERM m (tree_parent k j, j, CIRCLE_TAG_TERM)
      = (if j \<in> set (tree_kids k ranks i) then c (tree_parent k j, j, CIRCLE_TAG_TERM) @ [m]
         else c (tree_parent k j, j, CIRCLE_TAG_TERM))"
    and "fan c i (tree_kids k ranks i) CIRCLE_TAG_TERM m (j, tree_parent k j, CIRCLE_TAG_TERM)
      = c (j, tree_parent k j, CIRCLE_TAG_TERM)"
proof -
  have kid: "e \<in> set (tree_kids k ranks i) \<longleftrightarrow> 0 < e \<and> e < ranks \<and> tree_parent k e = i" for e
    using tree_facts(2) [OF k, of i ranks e] i by simp
  show "fan c i (tree_kids k ranks i) CIRCLE_TAG_TERM m (tree_parent k j, j, CIRCLE_TAG_TERM)
      = (if j \<in> set (tree_kids k ranks i) then c (tree_parent k j, j, CIRCLE_TAG_TERM) @ [m]
         else c (tree_parent k j, j, CIRCLE_TAG_TERM))" by (auto simp: fan_def kid)
  have "tree_parent k i \<notin> set (tree_kids k ranks i)"
  proof
    assume "tree_parent k i \<in> set (tree_kids k ranks i)"
    with kid have p: "0 < tree_parent k i" "tree_parent k i < ranks" "tree_parent k (tree_parent k i) = i" by auto
    have "tree_parent k i < 0" if "i = 0" using that k by (simp add: tree_parent_def pos_imp_zdiv_neg_iff)
    then have "0 < i" using p(1) i by (cases "i = 0") auto
    then show False using no_two_cycle [OF k, of i ranks] i p(3) by simp
  qed
  then show "fan c i (tree_kids k ranks i) CIRCLE_TAG_TERM m (j, tree_parent k j, CIRCLE_TAG_TERM)
      = c (j, tree_parent k j, CIRCLE_TAG_TERM)" by (auto simp: fan_def)
qed

lemma deliver_step:
  assumes k: "0 < k" and i: "i \<in> {0..<ranks}" "i \<noteq> 0" and up: "term_up (ps i) \<noteq> 0"
    and c: "c (tree_parent k i, i, CIRCLE_TAG_TERM) = Ints [v] # ms"
    and c': "c' = fan (c((tree_parent k i, i, CIRCLE_TAG_TERM) := ms)) i (tree_kids k ranks i) CIRCLE_TAG_TERM (Ints [v])" and nl: "\<not> left i"
  shows "wave_step ranks (tree_kids k ranks) (wave_of k ps c left)
    (wave_of k (ps(i := (ps i)\<lparr>term_up := 0, term_replies := 0\<rparr>)) c' (left(i := v \<noteq> 0)))"
proof -
  let ?s = "wave_of k ps c left"
  have ne: "\<not> (j = tree_parent k i \<and> tree_parent k j = i)" for j using no_two_cycle [OF k, of i ranks] i by auto
  have w: "w_fall ?s i = v # term_vals ms" using c by (simp add: wave_of_def)
  have o: "c' (j, e, t) = c (j, e, t)" if "t \<noteq> CIRCLE_TAG_TERM" for j e t using that by (simp add: c' fan_def)
  have r: "c' (j, tree_parent k j, CIRCLE_TAG_TERM) = c (j, tree_parent k j, CIRCLE_TAG_TERM)" for j
    using ne [of j] by (auto simp: c' fan_fall [OF k i(1)])
  have f: "term_vals (c' (tree_parent k j, j, CIRCLE_TAG_TERM))
      = fall_to (tree_kids k ranks i) v ((w_fall ?s)(i := term_vals ms)) j" for j
    by (simp add: c' fan_fall [OF k i(1)] fall_to_def wave_of_def)
  have "wave_of k (ps(i := (ps i)\<lparr>term_up := 0, term_replies := 0\<rparr>)) c' (left(i := v \<noteq> 0))
    = ?s\<lparr>w_fall := fall_to (tree_kids k ranks i) v ((w_fall ?s)(i := term_vals ms)), w_up := (w_up ?s)(i := False),
        w_replies := (w_replies ?s)(i := 0), w_left := (w_left ?s)(i := v \<noteq> 0)\<rparr>"
    using o r f [unfolded wave_of_def] by (auto simp: wave_of_def fun_eq_iff idle_def)
  then show ?thesis
    using wave_step.deliver [where kids = "tree_kids k ranks", OF i _ w] up nl by (simp add: wave_of_def)
qed

lemma decide_step:
  assumes k: "0 < k" and r: "0 < ranks" and idle: "idle (ps 0)" "work_outstanding (ps 0) \<le> 0" "term_up (ps 0) = 0"
    and full: "term_replies (ps 0) = int (length (tree_kids k ranks 0))"
    and c': "c' = fan c 0 (tree_kids k ranks 0) CIRCLE_TAG_TERM (Ints [term_flag (ps 0)])" and nl: "\<not> left 0"
  shows "wave_step ranks (tree_kids k ranks) (wave_of k ps c left)
    (wave_of k (ps(0 := (ps 0)\<lparr>term_flag := 1, term_up := 0, term_replies := 0\<rparr>)) c'
      (left(0 := term_flag (ps 0) \<noteq> 0)))"
proof -
  let ?s = "wave_of k ps c left"
  have z: "0 \<in> {0..<ranks}" using r by simp
  have o: "c' (j, e, t) = c (j, e, t)" if "t \<noteq> CIRCLE_TAG_TERM" for j e t using that by (simp add: c' fan_def)
  have f: "term_vals (c' (tree_parent k j, j, CIRCLE_TAG_TERM))
      = fall_to (tree_kids k ranks 0) (term_flag (ps 0)) (w_fall ?s) j" for j
    by (simp add: c' fan_fall [OF k z] fall_to_def wave_of_def)
  have "wave_of k (ps(0 := (ps 0)\<lparr>term_flag := 1, term_up := 0, term_replies := 0\<rparr>)) c' (left(0 := term_flag (ps 0) \<noteq> 0))
    = ?s\<lparr>w_fall := fall_to (tree_kids k ranks 0) (w_flag ?s 0) (w_fall ?s), w_flag := (w_flag ?s)(0 := 1),
        w_replies := (w_replies ?s)(0 := 0), w_left := (w_left ?s)(0 := w_flag ?s 0 \<noteq> 0)\<rparr>"
    using o f [unfolded wave_of_def] idle(3) by (auto simp: wave_of_def fun_eq_iff idle_def c' fan_fall(2) [OF k z])
  then show ?thesis
    using wave_step.decide [where kids = "tree_kids k ranks", OF r, of ?s] idle full nl by (simp add: wave_of_def)
qed

lemma effect_edges:
  assumes eff: "effect E chan posted k ranks u (p, n, l) (p', n', l')" and k: "0 < k" and r: "rank p \<in> {0..<ranks}"
    and edges: "edges_ok k ranks (chan n)"
  shows "edges_ok k ranks (chan n')"
proof -
  have old: "chan n (s, d, CIRCLE_TAG_TERM) \<noteq> [] \<longrightarrow>
     0 < s \<and> s < ranks \<and> d = tree_parent k s \<or> 0 < d \<and> d < ranks \<and> s = tree_parent k d" for s d
    using edges by (simp add: edges_ok_def)
  have kid: "d \<in> set (tree_kids k ranks (rank p)) \<Longrightarrow> 0 < d \<and> d < ranks \<and> rank p = tree_parent k d" for d
    using tree_facts(2) [OF k, of "rank p" ranks d] r by auto
  show ?thesis
    unfolding edges_ok_def
  proof (intro allI)
    fix s d
    show "chan n' (s, d, CIRCLE_TAG_TERM) \<noteq> [] \<longrightarrow>
     0 < s \<and> s < ranks \<and> d = tree_parent k s \<or> 0 < d \<and> d < ranks \<and> s = tree_parent k d"
      using eff
    proof cases
      case contribute
      then show ?thesis using old [of s d] r by (auto simp: put_apply)
    next
      case (deliver v ms)
      then show ?thesis using old [of s d] kid [of d] by (auto simp: fan_def split: if_splits)
    next
      case decide
      then show ?thesis using old [of s d] kid [of d] by (auto simp: fan_def split: if_splits)
    qed (use old [of s d] in \<open>auto simp: silent_def side_def put_apply split: if_splits\<close>)
  qed
qed

lemma effect_steps:
  assumes eff: "effect E chan posted k ranks u (ps i, n, left i) (p', n', l')" and k: "0 < k" and i: "i \<in> {0..<ranks}"
    and gl: "glob E chan posted k ranks ps n left"
  shows "(wave_step ranks (tree_kids k ranks))\<^sup>*\<^sup>* (wave_of k ps (chan n) left)
    (wave_of k (ps(i := p')) (chan n') (left(i := l')))"
proof -
  note me = glob_proc [OF gl i]
  note lok = local_okD [OF me(2)]
  have kids: "children (tree (ps i)) = int (length (tree_kids k ranks i))" using tree_okD(2) [OF lok(6)] me(1) by simp
  have inv: "wave_inv ranks (tree_parent k) (tree_kids k ranks) (wave_of k ps (chan n) left)"
    and edges: "edges_ok k ranks (chan n)" using gl by (simp_all add: glob_def)
  have sil: ?thesis if "same_wave (ps i) p'" "idle (ps i) \<longrightarrow> idle p'" "l' = left i"
      "\<And>j d. batches (chan n' (j, d, CIRCLE_TAG_WORK_REPLY)) = batches (chan n (j, d, CIRCLE_TAG_WORK_REPLY))"
      "\<And>j d. chan n' (j, d, CIRCLE_TAG_WORK_RECEIPT) = chan n (j, d, CIRCLE_TAG_WORK_RECEIPT)"
      "\<And>j d. chan n' (j, d, CIRCLE_TAG_TERM) = chan n (j, d, CIRCLE_TAG_TERM)"
  proof -
    have "left(i := l') = left" using that(3) by auto
    then show ?thesis
      using silent_step [where ps = ps and c = "chan n" and c' = "chan n'" and left = left and k = k and kids = "tree_kids k ranks",
          OF i that(1,2,4-6)] by simp
  qed
  show ?thesis
    using eff
  proof cases
    case quiet
    then show ?thesis by (intro sil) (simp_all add: silent_def side_def)
  next
    case user
    then show ?thesis by (intro sil) (simp_all add: silent_def side_def)
  next
    case (ask d)
    then show ?thesis by (intro sil) (simp_all add: put_apply idle_def)
  next
    case (hear d m ms)
    then show ?thesis by (intro sil) simp_all
  next
    case (refuse v d)
    have "idle p' = idle (ps i)" using refuse by (simp add: idle_def)
    moreover have "batches (chan n' (j, e, CIRCLE_TAG_WORK_REPLY)) = batches (chan n (j, e, CIRCLE_TAG_WORK_REPLY))" for j e
      using refuse batches_append [OF lok(5) [of j e]] by (auto simp: put_apply)
    ultimately show ?thesis
      using refuse by (intro sil) (simp_all add: put_apply)
  next
    case (ship d ws xs bs)
    note st = ship_step [where ps = ps and c = "chan n" and c' = "chan n'" and left = left and k = k and kids = "tree_kids k ranks",
        OF i ship(2,3,5,6) lok(5) [of i d] ship(8) [unfolded me(1)]]
    then show ?thesis using ship(1) by auto
  next
    case (refused d v ms)
    have "batches (chan n' (j, e, CIRCLE_TAG_WORK_REPLY)) = batches (chan n (j, e, CIRCLE_TAG_WORK_REPLY))" for j e
      using refused by simp
    then show ?thesis
      using refused by (intro sil) simp_all
  next
    case (take d xs bs ms ws)
    note st = take_step [where ps = ps and c = "chan n" and c' = "chan n'" and left = left and k = k and kids = "tree_kids k ranks",
        OF i take(2,6,4) lok(5) [of d i] take(3) [unfolded me(1)] take(8) [unfolded me(1)]]
    then show ?thesis using take(1) by auto
  next
    case (acked d m ms)
    have "chan n (d, i, CIRCLE_TAG_WORK_RECEIPT) = m # ms" using acked me(1) by simp
    from acked_step [where c = "chan n" and left = left and k = k and ps = ps and kids = "tree_kids k ranks", OF i acked(3) this]
    show ?thesis using acked me(1) by auto
  next
    case (absorb d v ms)
    have c: "chan n (d, i, CIRCLE_TAG_TERM) = Ints [v] # ms" using absorb me(1) by simp
    have "d \<in> set (tree_kids k ranks i)"
      by (rule absorb_source [OF k inv edges i c]) (use absorb kids in simp)
    note st = absorb_step [where c = "chan n" and left = left and ps = ps, OF k i this c]
    have "\<not> left i" "l' = left i" using absorb by simp_all
    then have "left(i := l') = left" by (simp add: fun_upd_idem)
    then show ?thesis using st absorb me(1) by auto
  next
    case contribute
    then have "\<not> left i" "l' = left i" by simp_all
    then have "left(i := l') = left" by (simp add: fun_upd_idem)
    with contribute_step [where c = "chan n" and left = left and ps = ps, OF k i] contribute me(1) kids
    show ?thesis by auto
  next
    case (deliver v ms)
    from deliver_step [where c = "chan n" and c' = "chan n'" and left = left and ps = ps, OF k i] deliver me(1)
    show ?thesis by auto
  next
    case decide
    then have "i = 0" "0 < ranks" using me(1) i by auto
    with decide_step [where c = "chan n" and c' = "chan n'" and left = left and ps = ps, OF k] decide kids me(1)
    show ?thesis by auto
  qed
qed

lemma effect_glob:
  assumes eff: "effect E chan posted k ranks u (ps i, n, left i) (p', n', l')" and k: "0 < k" and i: "i \<in> {0..<ranks}"
    and gl: "glob E chan posted k ranks ps n left"
  shows "glob E chan posted k ranks (ps(i := p')) n' (left(i := l'))"
proof -
  note me = glob_proc [OF gl i]
  note lok = effect_local_ok [OF eff me(2)]
  have "rank ((ps(i := p')) j) = j \<and> local_ok E chan posted k ranks ((ps(i := p')) j) n'" if j: "j \<in> {0..<ranks}" for j
    using glob_proc [OF gl j] lok effect_proc(1) [OF eff] me(1) by (auto simp: local_ok_def)
  moreover have "edges_ok k ranks (chan n')"
    using effect_edges [OF eff k] i me(1) gl by (simp add: glob_def)
  moreover have "wave_inv ranks (tree_parent k) (tree_kids k ranks) (wave_of k (ps(i := p')) (chan n') (left(i := l')))"
    using rank_tree.wave_steps_keep [OF tree_facts(3) [OF k] effect_steps [OF eff k i gl]] gl by (simp add: glob_def)
  ultimately show ?thesis by (simp add: glob_def)
qed

lemma effects_simulate:
  assumes eff: "effects E chan posted k ranks u (ps i, n, left i) (p', n', l')" and k: "0 < k" and i: "i \<in> {0..<ranks}"
    and gl: "glob E chan posted k ranks ps n left"
  shows "(wave_step ranks (tree_kids k ranks))\<^sup>*\<^sup>* (wave_of k ps (chan n) left)
      (wave_of k (ps(i := p')) (chan n') (left(i := l')))"
    and "glob E chan posted k ranks (ps(i := p')) n' (left(i := l'))"
proof -
  have "(wave_step ranks (tree_kids k ranks))\<^sup>*\<^sup>* (wave_of k ps (chan n) left)
      (wave_of k (ps(i := fst c)) (chan (fst (snd c))) (left(i := snd (snd c))))
    \<and> glob E chan posted k ranks (ps(i := fst c)) (fst (snd c)) (left(i := snd (snd c)))"
    if "effects E chan posted k ranks u (ps i, n, left i) c" for c
    using that
  proof (induction rule: rtranclp_induct)
    case (step c c')
    obtain q m b q' m' b' where c: "c = (q, m, b)" "c' = (q', m', b')" by (metis prod_cases3)
    have e: "effect E chan posted k ranks u ((ps(i := q)) i, m, (left(i := b)) i) (q', m', b')" using step(2) c by simp
    have g: "glob E chan posted k ranks (ps(i := q)) m (left(i := b))"
      using step(3) by (simp only: c fst_conv snd_conv)
    note st = effect_steps [OF e k i g, unfolded fun_upd_upd] and gl' = effect_glob [OF e k i g, unfolded fun_upd_upd]
    from rtranclp_trans [OF conjunct1 [OF step(3), unfolded c fst_conv snd_conv] st] gl'
    show ?case by (simp only: c fst_conv snd_conv simp_thms)
  qed (use gl in simp)
  from this [OF eff] show "(wave_step ranks (tree_kids k ranks))\<^sup>*\<^sup>* (wave_of k ps (chan n) left)
      (wave_of k (ps(i := p')) (chan n') (left(i := l')))"
    "glob E chan posted k ranks (ps(i := p')) n' (left(i := l'))" by simp_all
qed

section \<open>The calls of the work loop\<close>

text \<open>
  One call of the work loop with the test that guards it. \<open>cleanup\<close> is the second of the two loops. The
  last component says whether the process leaves the loop.
\<close>

datatype action = Serve | Receipts | Reap | Check_abort | Reduction | Request | Item | Detect | Barrier | Drain_token

inductive move ::
  "('n, 'z) mpi_scheme \<Rightarrow> bool \<Rightarrow> action \<Rightarrow> 'u proc \<Rightarrow> 'n \<Rightarrow> 'u proc \<Rightarrow> 'n \<Rightarrow> bool \<Rightarrow> bool" for E cleanup where
  serve: "CIRCLE_workreq_check E p n cleanup = Inr (p', n') \<Longrightarrow> move E cleanup Serve p n p' n' False"
| receipts: "\<not> cleanup \<Longrightarrow> CIRCLE_workreceipt_check E p n = Inr (p', n') \<Longrightarrow> move E cleanup Receipts p n p' n' False"
| reap: "CIRCLE_worksend_check E p n = Inr (p', n', released) \<Longrightarrow> move E cleanup Reap p n p' n' False"
| check_abort: "CIRCLE_abort_check E p n cleanup = Inr (p', n') \<Longrightarrow> move E cleanup Check_abort p n p' n' False"
| reduction: "reduce_progress E p n cleanup = Inr (p', n') \<Longrightarrow> move E cleanup Reduction p n p' n' False"
| request: "cleanup \<or> count (queue p) = 0 \<Longrightarrow> CIRCLE_request_work E p n cleanup = Inr (rc, p', n') \<Longrightarrow>
    move E cleanup Request p n p' n' False"
| item: "\<not> cleanup \<Longrightarrow> count (queue p) > 0 \<and> CIRCLE_ABORT_FLAG p = 0 \<Longrightarrow>
    work_or_terminate E p n = Inr (leave, p', n') \<Longrightarrow> move E cleanup Item p n p' n' leave"
| detect: "\<not> cleanup \<Longrightarrow> \<not> (count (queue p) > 0 \<and> CIRCLE_ABORT_FLAG p = 0) \<Longrightarrow>
    work_or_terminate E p n = Inr (leave, p', n') \<Longrightarrow> move E cleanup Detect p n p' n' leave"
| barrier: "cleanup \<Longrightarrow> CIRCLE_barrier_test E (if nothing_outstanding p then CIRCLE_barrier_start p else p) n = Inr (rc, p', n') \<Longrightarrow>
    move E cleanup Barrier p n p' n' (rc \<noteq> 0)"
| drain_token: "cleanup \<Longrightarrow> token_drain E p n = Inr (p', n') \<Longrightarrow> move E cleanup Drain_token p n p' n' False"

text \<open>Moves that stay in the loop, any number of them.\<close>

definition stay :: "('n, 'z) mpi_scheme \<Rightarrow> bool \<Rightarrow> 'u proc \<times> 'n \<Rightarrow> 'u proc \<times> 'n \<Rightarrow> bool" where
  "stay E cleanup s s' \<longleftrightarrow> (\<exists>a. move E cleanup a (fst s) (snd s) (fst s') (snd s') False)"

lemma stay_intros:
  "move E cleanup a p n p' n' False \<Longrightarrow> (stay E cleanup)\<^sup>*\<^sup>* (p', n') s \<Longrightarrow> (stay E cleanup)\<^sup>*\<^sup>* (p, n) s"
  by (rule converse_rtranclp_into_rtranclp) (auto simp: stay_def)

text \<open>A pass of the main loop is a sequence of moves, of which only the last may leave the loop.\<close>

lemma work_iteration_moves:
  assumes "work_iteration E p n = Inr (leave, p', n')"
  shows "\<exists>p1 n1 a. (stay E False)\<^sup>*\<^sup>* (p, n) (p1, n1) \<and> move E False a p1 n1 p' n' leave"
proof -
  from assms obtain p1 n1 p2 n2 p3 n3 rel p4 n4 p5 n5 p6 n6 where
    m: "CIRCLE_workreq_check E p n False = Inr (p1, n1)" "CIRCLE_workreceipt_check E p1 n1 = Inr (p2, n2)"
      "CIRCLE_worksend_check E p2 n2 = Inr (p3, n3, rel)" "CIRCLE_abort_check E p3 n3 False = Inr (p4, n4)"
      "reduce_progress E p4 n4 False = Inr (p5, n5)"
      "(if count (queue p5) = 0 then andThen (CIRCLE_request_work E p5 n5 False) (\<lambda>(rc, p, n). (Inr :: _ \<Rightarrow> _ result) (p, n))
        else Inr (p5, n5)) = Inr (p6, n6)"
      "work_or_terminate E p6 n6 = Inr (leave, p', n')"
    unfolding work_iteration_def andThen_eq_Inr split_paired_Ex prod.case by (elim exE conjE) (rule that)
  have "(stay E False)\<^sup>*\<^sup>* (p5, n5) (p6, n6)"
  proof (cases "count (queue p5) = 0")
    case True
    then obtain rc where "CIRCLE_request_work E p5 n5 False = Inr (rc, p6, n6)" using m(6) by (auto simp: outcome)
    with True have "move E False Request p5 n5 p6 n6 False" by (intro move.request) simp_all
    then show ?thesis by (rule stay_intros) simp
  qed (use m(6) in simp)
  then have "(stay E False)\<^sup>*\<^sup>* (p, n) (p6, n6)"
    by (intro stay_intros [OF move.serve [OF m(1)]] stay_intros [OF move.receipts [OF _ m(2)]]
        stay_intros [OF move.reap [OF m(3)]] stay_intros [OF move.check_abort [OF m(4)]]
        stay_intros [OF move.reduction [OF m(5)]]) simp
  moreover have "\<exists>a. move E False a p6 n6 p' n' leave"
    using move.item [OF _ _ m(7), of False] move.detect [OF _ _ m(7), of False] by blast
  ultimately show ?thesis by blast
qed

text \<open>
  A pass of the cleanup loop: the barrier lets the process leave, or it is followed by the other calls.
\<close>

lemma cleanup_iteration_moves:
  assumes "cleanup_iteration E p n = Inr (leave, p', n')"
  shows "if leave then move E True Barrier p n p' n' True else (stay E True)\<^sup>*\<^sup>* (p, n) (p', n')"
proof -
  let ?p = "if nothing_outstanding p then CIRCLE_barrier_start p else p"
  from assms obtain rc p1 n1 where b: "CIRCLE_barrier_test E ?p n = Inr (rc, p1, n1)"
    by (auto simp: cleanup_iteration_def Let_def andThen_eq_Inr)
  note mb = move.barrier [OF _ b, of True, simplified]
  show ?thesis
  proof (cases "rc = 0")
    case False
    then show ?thesis using assms b mb by (simp add: cleanup_iteration_def Let_def)
  next
    case True
    with assms b obtain p2 n2 p3 n3 rel p4 n4 r5 p5 n5 p6 n6 where
      m: "CIRCLE_workreq_check E p1 n1 True = Inr (p2, n2)" "CIRCLE_worksend_check E p2 n2 = Inr (p3, n3, rel)"
        "reduce_progress E p3 n3 True = Inr (p4, n4)" "CIRCLE_request_work E p4 n4 True = Inr (r5, p5, n5)"
        "CIRCLE_abort_check E p5 n5 True = Inr (p6, n6)" "token_drain E p6 n6 = Inr (p', n')" "\<not> leave"
      by (auto simp: cleanup_iteration_def Let_def andThen_eq_Inr)
    have "(stay E True)\<^sup>*\<^sup>* (p1, n1) (p', n')"
      by (intro stay_intros [OF move.serve [OF m(1)]] stay_intros [OF move.reap [OF m(2)]]
          stay_intros [OF move.reduction [OF m(3)]] stay_intros [OF move.request [OF _ m(4)]]
          stay_intros [OF move.check_abort [OF m(5)]] stay_intros [OF move.drain_token [OF _ m(6)]]) simp_all
    moreover have "move E True Barrier p n p1 n1 False" using mb True by simp
    ultimately show ?thesis using stay_intros m(7) by fastforce
  qed
qed

section \<open>The system\<close>

datatype phase = Working | Draining | Finished

record ('u, 'n) system =
  procs :: "int \<Rightarrow> 'u proc"
  net :: 'n
  phase :: "int \<Rightarrow> phase"

inductive sys_step ::
  "('n, 'z) mpi_scheme \<Rightarrow> int \<Rightarrow> action \<Rightarrow> ('u, 'n) system \<Rightarrow> ('u, 'n) system \<Rightarrow> bool" for E ranks where
  work: "i \<in> {0..<ranks} \<Longrightarrow> phase s i = Working \<Longrightarrow> move E False a (procs s i) (net s) p' n' leave \<Longrightarrow>
    sys_step E ranks a s (s\<lparr>procs := (procs s)(i := p'), net := n',
      phase := (phase s)(i := if leave then Draining else Working)\<rparr>)"
| drain: "i \<in> {0..<ranks} \<Longrightarrow> phase s i = Draining \<Longrightarrow> move E True a (procs s i) (net s) p' n' leave \<Longrightarrow>
    sys_step E ranks a s (s\<lparr>procs := (procs s)(i := p'), net := n',
      phase := (phase s)(i := if leave then Finished else Draining)\<rparr>)"

inductive reach ::
  "('n, 'z) mpi_scheme \<Rightarrow> int \<Rightarrow> ('u, 'n) system \<Rightarrow> ('u, 'n) system \<Rightarrow> bool" for E ranks s where
  start: "reach E ranks s s"
| step: "reach E ranks s s' \<Longrightarrow> sys_step E ranks a s' s'' \<Longrightarrow> reach E ranks s s''"

text \<open>
  The start of a run with termination by the tree: nothing has been sent, and each process is what
  \<open>CIRCLE_init_local_state\<close> and the create callback leave, from a well-formed queue and callbacks that
  respect the interface.
\<close>

definition started :: "('n, 'z) mpi_scheme \<Rightarrow> int \<Rightarrow> int \<Rightarrow> int \<Rightarrow> 'u proc \<Rightarrow> bool" where
  "started E k ranks i p \<longleftrightarrow> (\<exists>p0 n0 p1 n1. queue_wf E (queue p0)
     \<and> input_ok (CIRCLE_MAX_STRING_LEN E) (input p0) \<and> tree_width (input p0) = k
     \<and> options (input p0) AND CIRCLE_TERM_TREE \<noteq> 0
     \<and> CIRCLE_init_local_state E i ranks p0 n0 = Inr (p1, n1) \<and> run_create E p1 = Inr p)"

definition sys_start ::
  "('n, 'z) mpi_scheme \<Rightarrow> ('n \<Rightarrow> channel \<Rightarrow> payload list) \<Rightarrow> ('n \<Rightarrow> channel set) \<Rightarrow> int \<Rightarrow> int \<Rightarrow> ('u, 'n) system \<Rightarrow> bool" where
  "sys_start E chan posted k ranks s \<longleftrightarrow> (\<forall>i \<in> {0..<ranks}. started E k ranks i (procs s i) \<and> phase s i = Working)
     \<and> (\<forall>key. chan (net s) key = []) \<and> posted (net s) = {}"

text \<open>What the environment provides: the MPI library, memory, a generator of non-negative numbers.\<close>

definition env_ok :: "('n, 'z) mpi_scheme \<Rightarrow> ('n \<Rightarrow> channel \<Rightarrow> payload list) \<Rightarrow> ('n \<Rightarrow> channel set) \<Rightarrow> bool" where
  "env_ok E chan posted \<longleftrightarrow> mpi_comm E chan posted \<and> mem_ample E
     \<and> int (CIRCLE_MAX_STRING_LEN E) \<le> INT32_MAX \<and> (\<forall>s. 0 \<le> fst (rand_r E s))"

definition left_loop :: "('u, 'n) system \<Rightarrow> int \<Rightarrow> bool" where
  "left_loop s i \<longleftrightarrow> phase s i \<noteq> Working"

definition sys_inv ::
  "('n, 'z) mpi_scheme \<Rightarrow> ('n \<Rightarrow> channel \<Rightarrow> payload list) \<Rightarrow> ('n \<Rightarrow> channel set) \<Rightarrow> int \<Rightarrow> int \<Rightarrow> ('u, 'n) system \<Rightarrow> bool" where
  "sys_inv E chan posted k ranks s \<longleftrightarrow> glob E chan posted k ranks (procs s) (net s) (left_loop s)"

text \<open>Whether user code may run in a call.\<close>

definition calls_user :: "action \<Rightarrow> bool" where
  "calls_user a \<longleftrightarrow> a = Item \<or> a = Reduction"

lemma move_effects:
  assumes env: "env_ok E chan posted" and nl: "cleanup \<or> \<not> l" and k: "0 < k" and ok: "local_ok E chan posted k ranks p n"
    and root: "rank p = 0 \<longrightarrow> term_up p = 0" and mv: "move E cleanup a p n p' n' leave"
  shows "effects E chan posted k ranks (calls_user a) (p, n, l) (p', n', l \<or> (\<not> cleanup \<and> leave))"
proof -
  have comm: "mpi_comm E chan posted" and ample: "mem_ample E" and mx: "int (CIRCLE_MAX_STRING_LEN E) \<le> INT32_MAX"
    and rand: "\<And>s. 0 \<le> fst (rand_r E s)" using env by (simp_all add: env_ok_def)
  note lok = local_okD [OF ok]
  show ?thesis
    using mv
  proof cases
    case serve
    then show ?thesis using serve_effects [OF comm ok ample mx rand] by simp
  next
    case receipts
    then show ?thesis using receipt_effects [OF comm _ ok] by simp
  next
    case (reap released)
    from worksend_check_silent [OF comm lok(1,3) reap(3)] worksend_check_run(1) [OF proc_invD(2) [OF lok(1)] reap(3)]
    have "effect E chan posted k ranks (calls_user a) (p, n, l) (p', n', l)"
      by (intro effect.quiet) (simp_all add: only_sends_proc)
    then show ?thesis using reap by auto
  next
    case check_abort
    from abort_check_silent [OF comm lok(1,3) check_abort(3)]
    have "effect E chan posted k ranks (calls_user a) (p, n, l) (p', n', l)" by (intro effect.quiet) simp_all
    then show ?thesis using check_abort by auto
  next
    case reduction
    show ?thesis
    proof (cases "reduce_enabled p = 0")
      case True
      then show ?thesis using reduction by (simp add: reduce_progress_def)
    next
      case False
      then have "silent E chan posted p n p' n'"
        using reduction reduce_check_silent [OF comm lok(1,3) ample] by (simp add: reduce_progress_def)
      then have "effect E chan posted k ranks (calls_user a) (p, n, l) (p', n', l)"
        using reduction by (intro effect.user) (simp_all add: calls_user_def)
      then show ?thesis using reduction by auto
    qed
  next
    case (request rc)
    then show ?thesis using request_effects [OF comm ok ample _ rand] by simp
  next
    case item
    then obtain p1 j where r: "run_process E p = Inr p1" "n' = n" "p' = p1\<lparr>local_objects_processed := j\<rparr>" "\<not> leave"
      by (auto simp: work_or_terminate_def outcome)
    have "\<not> idle p" using item by (simp add: idle_def)
    note s1 = process_silent [OF r(1) this lok(1) ample]
    have "silent E chan posted p n p' n'"
      unfolding r(2,3) by (rule silent_trans [OF s1 silent_update(12) [OF silent_inv [OF s1]]])
    then have "effect E chan posted k ranks (calls_user a) (p, n, l) (p', n', l)"
      using item by (intro effect.user) (simp_all add: calls_user_def)
    then show ?thesis using r(4) by auto
  next
    case detect
    then obtain st where t: "CIRCLE_check_for_term_allreduce E p n = Inr (st, p', n')" "leave = (st = TERMINATE)"
      using lok(7) by (auto simp: work_or_terminate_def outcome)
    have "idle p" using detect queue_wf_count [OF proc_invD(1) [OF lok(1)]] by (auto simp: idle_def)
    have "\<not> l" using nl detect by simp
    from term_effects [OF comm this ok k \<open>idle p\<close> root t(1)] show ?thesis using t(2) detect by simp
  next
    case (barrier rc)
    let ?p = "if nothing_outstanding p then CIRCLE_barrier_start p else p"
    have s0: "silent E chan posted p n ?p n" "queue ?p = queue p"
      using silent_update(1) [OF lok(1)] lok(1) by (simp_all add: CIRCLE_barrier_start_def)
    note b = barrier_silent [OF comm silent_inv [OF s0(1)] barrier(4)]
    have "effect E chan posted k ranks (calls_user a) (p, n, l) (p', n', l)"
      using silent_trans [OF s0(1) b(1)] b(2) s0(2) by (intro effect.quiet) simp_all
    then show ?thesis using barrier by auto
  next
    case drain_token
    then show ?thesis using lok(7) by (simp add: token_drain_def)
  qed
qed

section \<open>The start of a run\<close>

text \<open>What \<open>CIRCLE_init_local_state\<close> sets up.\<close>

lemma started_ok:
  assumes st: "started E k ranks i p" and env: "env_ok E chan posted" and k: "0 < k" and i: "i \<in> {0..<ranks}"
    and small: "ranks * k \<le> INT32_MAX" and empty: "\<And>key. chan n key = []" "posted n = {}"
  shows "local_ok E chan posted k ranks p n" "rank p = i"
    "work_outstanding p = 0" "term_flag p = 1" "term_up p = 0" "term_replies p = 0"
proof -
  from st obtain p0 n0 p1 n1 where s: "queue_wf E (queue p0)" "input_ok (CIRCLE_MAX_STRING_LEN E) (input p0)"
      "tree_width (input p0) = k" "options (input p0) AND CIRCLE_TERM_TREE \<noteq> 0"
      "CIRCLE_init_local_state E i ranks p0 n0 = Inr (p1, n1)" "run_create E p1 = Inr p"
    unfolding started_def by blast
  have ample: "mem_ample E" and rand: "\<And>s. 0 \<le> fst (rand_r E s)" using env by (simp_all add: env_ok_def)
  have r: "0 \<le> i" "i < ranks" using i by simp_all
  note ini = init_local_state_run [OF s(5) r k s(3) small ample rand]
  have inv1: "proc_inv E p1" using ini s by (simp add: proc_inv_def)
  have p: "proc_inv E p \<and> same_wave p1 p"
  proof (cases "rank p1 = 0 \<or> options (input p1) AND CIRCLE_CREATE_GLOBAL \<noteq> 0")
    case True
    then obtain f where f: "create_cb (input p1) = Some f" "run_callback E (f (user p1)) p1 = Inr p"
      using s(6) by (auto simp: run_create_def split: option.splits)
    then have "cb_ok (CIRCLE_MAX_STRING_LEN E) True (f (user p1))" using proc_invD(4) [OF inv1] by (simp add: input_ok_def)
    from callback_inv [OF f(2) this inv1 ample ini(5)] show ?thesis by simp
  qed (use s(6) inv1 in \<open>simp add: run_create_def\<close>)
  note same = same_waveD [OF conjunct2 [OF p]]
  show "local_ok E chan posted k ranks p n"
    using p same ini s(4) i empty by (simp add: local_ok_def tree_ok_def net_ok_def sources_ok_def requests_ok_def terms_ok_def)
  show "rank p = i" "work_outstanding p = 0" "term_flag p = 1" "term_up p = 0" "term_replies p = 0"
    using same ini by simp_all
qed

lemma sys_start_inv:
  assumes st: "sys_start E chan posted k ranks s" and env: "env_ok E chan posted" and k: "0 < k" "0 < ranks"
    and small: "ranks * k \<le> INT32_MAX"
  shows "sys_inv E chan posted k ranks s"
proof -
  have empty: "chan (net s) key = []" "posted (net s) = {}" for key
    using st unfolding sys_start_def by blast+
  have ok: "local_ok E chan posted k ranks (procs s i) (net s)" "rank (procs s i) = i" "work_outstanding (procs s i) = 0"
      "term_flag (procs s i) = 1" "term_up (procs s i) = 0" "term_replies (procs s i) = 0" "phase s i = Working"
    if "i \<in> {0..<ranks}" for i
    using started_ok [OF _ env k(1) that small empty, of "procs s i"] st that by (simp_all add: sys_start_def)
  have "wave_inv ranks (tree_parent k) (tree_kids k ranks) (wave_of k (procs s) (chan (net s)) (left_loop s))"
    by (rule rank_tree.wave_start_inv [OF tree_facts(3) [OF k(1)]])
      (use ok k(2) empty in \<open>simp_all add: wave_of_def left_loop_def\<close>)
  then show ?thesis using ok empty by (simp add: sys_inv_def glob_def edges_ok_def)
qed

section \<open>The steps of the system refine the protocol\<close>

definition sys_wave :: "('n \<Rightarrow> channel \<Rightarrow> payload list) \<Rightarrow> int \<Rightarrow> ('u, 'n) system \<Rightarrow> wave" where
  "sys_wave chan k s = wave_of k (procs s) (chan (net s)) (left_loop s)"

lemma sys_step_effects:
  assumes step: "sys_step E ranks a s s'" and env: "env_ok E chan posted" and k: "0 < k"
    and inv: "sys_inv E chan posted k ranks s"
  obtains i p' l' where "i \<in> {0..<ranks}" and "s' = s\<lparr>procs := (procs s)(i := p'), net := net s', phase := phase s'\<rparr>"
    and "left_loop s' = (left_loop s)(i := l')"
    and "effects E chan posted k ranks (calls_user a) (procs s i, net s, left_loop s i) (p', net s', l')"
proof -
  have gl: "glob E chan posted k ranks (procs s) (net s) (left_loop s)" using inv by (simp add: sys_inv_def)
  have root: "rank (procs s i) = 0 \<longrightarrow> term_up (procs s i) = 0" if "i \<in> {0..<ranks}" for i
  proof -
    have "\<not> w_up (wave_of k (procs s) (chan (net s)) (left_loop s)) 0"
      using gl wave_invE(1) by (auto simp: glob_def)
    then show ?thesis using glob_proc(1) [OF gl that] by (simp add: wave_of_def)
  qed
  show thesis
    using step
  proof cases
    case (work i p' n' leave)
    from move_effects [OF env _ k glob_proc(2) [OF gl work(2)] root [OF work(2)] work(4), of "left_loop s i"]
    show thesis using work by (intro that [of i p' "left_loop s i \<or> leave"]) (auto simp: left_loop_def fun_eq_iff)
  next
    case (drain i p' n' leave)
    from move_effects [OF env _ k glob_proc(2) [OF gl drain(2)] root [OF drain(2)] drain(4), of "left_loop s i"]
    show thesis using drain by (intro that [of i p' "left_loop s i"]) (auto simp: left_loop_def fun_eq_iff)
  qed
qed

lemma sys_step_simulates:
  assumes step: "sys_step E ranks a s s'" and env: "env_ok E chan posted" and k: "0 < k"
    and inv: "sys_inv E chan posted k ranks s"
  shows "(wave_step ranks (tree_kids k ranks))\<^sup>*\<^sup>* (sys_wave chan k s) (sys_wave chan k s')"
    and "sys_inv E chan posted k ranks s'"
proof -
  obtain i p' l' where e: "i \<in> {0..<ranks}" "s' = s\<lparr>procs := (procs s)(i := p'), net := net s', phase := phase s'\<rparr>"
    "left_loop s' = (left_loop s)(i := l')"
    "effects E chan posted k ranks (calls_user a) (procs s i, net s, left_loop s i) (p', net s', l')"
    by (rule sys_step_effects [OF assms])
  have gl: "glob E chan posted k ranks (procs s) (net s) (left_loop s)" using inv by (simp add: sys_inv_def)
  have "procs s' = (procs s)(i := p')" by (subst e(2)) simp
  with effects_simulate [OF e(4) k e(1) gl] e(3) show
    "(wave_step ranks (tree_kids k ranks))\<^sup>*\<^sup>* (sys_wave chan k s) (sys_wave chan k s')"
    "sys_inv E chan posted k ranks s'" by (simp_all add: sys_wave_def sys_inv_def)
qed

lemma reach_inv:
  assumes "reach E ranks s s'" and "env_ok E chan posted" and "0 < k" and "sys_inv E chan posted k ranks s"
  shows "sys_inv E chan posted k ranks s' \<and> (wave_step ranks (tree_kids k ranks))\<^sup>*\<^sup>* (sys_wave chan k s) (sys_wave chan k s')"
  using assms(1)
proof induction
  case start
  then show ?case using assms(4) by simp
next
  case (step s' a s'')
  then show ?case using sys_step_simulates [OF step(2) assms(2,3)] by (blast intro: rtranclp_trans)
qed

section \<open>Work is neither lost nor duplicated\<close>

text \<open>All work there is: what the processes have queued and what is under way between them.\<close>

definition held :: "int \<Rightarrow> (int \<Rightarrow> 'u proc) \<Rightarrow> (channel \<Rightarrow> payload list) \<Rightarrow> string multiset" where
  "held ranks ps c = (\<Sum>i \<in> {0..<ranks}. mset (items (queue (ps i))))
     + (\<Sum>i \<in> {0..<ranks}. \<Sum>j \<in> {0..<ranks}. mset (concat (batches (c (i, j, CIRCLE_TAG_WORK_REPLY)))))"

definition work_held :: "('n \<Rightarrow> channel \<Rightarrow> payload list) \<Rightarrow> int \<Rightarrow> ('u, 'n) system \<Rightarrow> string multiset" where
  "work_held chan ranks s = held ranks (procs s) (chan (net s))"

lemma sum_single:
  fixes f g :: "int \<Rightarrow> string multiset"
  assumes "i \<in> {0..<ranks}" and "\<And>j. j \<in> {0..<ranks} \<Longrightarrow> j \<noteq> i \<Longrightarrow> g j = f j" and "g i + b = f i + a"
  shows "sum g {0..<ranks} + b = sum f {0..<ranks} + a"
proof -
  have "sum g ({0..<ranks} - {i}) = sum f ({0..<ranks} - {i})" using assms(2) by (intro sum.cong) auto
  then show ?thesis
    using assms(1,3) sum.remove [of "{0..<ranks}" i f] sum.remove [of "{0..<ranks}" i g]
    by (metis add.assoc add.commute finite_atLeastLessThan_int)
qed

lemma swap_sums:
  fixes A B A' B' a b :: "string multiset"
  assumes "A' + b = A + a" and "B' + a = B + b"
  shows "A' + B' = A + B"
proof -
  have "(A' + B') + (a + b) = (A' + b) + (B' + a)" by (simp add: ac_simps)
  also have "\<dots> = (A + a) + (B + b)" unfolding assms ..
  also have "\<dots> = (A + B) + (a + b)" by (simp add: ac_simps)
  finally show ?thesis by simp
qed

text \<open>Moving \<open>a\<close> into and \<open>b\<close> out of the messages from \<open>i\<close> to \<open>d\<close>, and the reverse at process \<open>i\<close> or \<open>d\<close>.\<close>

lemma held_moves:
  assumes i: "i \<in> {0..<ranks}" "d \<in> {0..<ranks}" "e \<in> {0..<ranks}"
    and q: "mset (items (queue p')) + b = mset (items (queue (ps e))) + a"
    and c: "\<And>x y. (x, y) \<noteq> (i, d) \<Longrightarrow> batches (c' (x, y, CIRCLE_TAG_WORK_REPLY)) = batches (c (x, y, CIRCLE_TAG_WORK_REPLY))"
    and m: "mset (concat (batches (c' (i, d, CIRCLE_TAG_WORK_REPLY)))) + a = mset (concat (batches (c (i, d, CIRCLE_TAG_WORK_REPLY)))) + b"
  shows "held ranks (ps(e := p')) c' = held ranks ps c"
proof -
  let ?q = "\<lambda>ps. \<Sum>i \<in> {0..<ranks}. mset (items (queue (ps i)))"
  let ?r = "\<lambda>c i. \<Sum>j \<in> {0..<ranks}. mset (concat (batches (c (i, j, CIRCLE_TAG_WORK_REPLY))))"
  have "?q (ps(e := p')) + b = ?q ps + a" by (rule sum_single [OF i(3)]) (use q in simp_all)
  moreover have row: "?r c' i + a = ?r c i + b" by (rule sum_single [OF i(2)]) (use c m in simp_all)
  have "sum (?r c') {0..<ranks} + a = sum (?r c) {0..<ranks} + b"
    by (rule sum_single [where f = "?r c" and g = "?r c'", OF i(1) _ row]) (use c in simp)
  ultimately show ?thesis unfolding held_def by (rule swap_sums)
qed

lemma held_same:
  assumes "items (queue p') = items (queue (ps i))"
    and "\<And>x y. batches (c' (x, y, CIRCLE_TAG_WORK_REPLY)) = batches (c (x, y, CIRCLE_TAG_WORK_REPLY))"
  shows "held ranks (ps(i := p')) c' = held ranks ps c"
proof -
  have "mset (items (queue ((ps(i := p')) j))) = mset (items (queue (ps j)))" for j using assms(1) by simp
  then show ?thesis unfolding held_def assms(2) by simp
qed

lemma effect_held:
  assumes eff: "effect E chan posted k ranks False (ps i, n, l) (p', n', l')" and i: "i \<in> {0..<ranks}"
    and ok: "local_ok E chan posted k ranks (ps i) n" and me: "rank (ps i) = i"
  shows "held ranks (ps(i := p')) (chan n') = held ranks ps (chan n)"
proof -
  note rep = local_okD(5) [OF ok]
  show ?thesis
    using eff
  proof cases
    case quiet
    then show ?thesis by (intro held_same) (simp_all add: silent_def side_def)
  next
    case (hear d m ms)
    then show ?thesis by (intro held_same) simp_all
  next
    case (refuse v d)
    have "batches (chan n' (x, y, CIRCLE_TAG_WORK_REPLY)) = batches (chan n (x, y, CIRCLE_TAG_WORK_REPLY))" for x y
      using refuse batches_append [OF rep [of x y]] by (auto simp: put_apply)
    then show ?thesis using refuse by (intro held_same) simp_all
  next
    case (ship d ws xs bs)
    have b: "batches (chan n' (x, y, CIRCLE_TAG_WORK_REPLY)) = (if (x, y) = (i, d)
        then batches (chan n (i, d, CIRCLE_TAG_WORK_REPLY)) @ [ws] else batches (chan n (x, y, CIRCLE_TAG_WORK_REPLY)))" for x y
      using batches_append [OF rep] replies_ok_work(2) [OF ship(6)] ship(8) me by (auto simp: put_apply)
    show ?thesis
      by (rule held_moves [OF i ship(2) i, where b = "mset ws" and a = "{#}"]) (use b ship(7) in simp_all)
  next
    case (refused d v ms)
    then show ?thesis by (intro held_same) simp_all
  next
    case (take d xs bs ms ws)
    have old: "batches (chan n (d, i, CIRCLE_TAG_WORK_REPLY)) = ws # batches ms"
      using replies_ok_taken(2) [OF take(4)] rep [of d i] take(3) me by simp
    have new: "chan n' (x, y, CIRCLE_TAG_WORK_REPLY) = (if (x, y) = (d, i) then ms else chan n (x, y, CIRCLE_TAG_WORK_REPLY))" for x y
      using take(8) me by (auto simp: put_apply)
    show ?thesis
      by (rule held_moves [OF take(2) i i, where a = "mset ws" and b = "{#}"]) (use old new take(7) in \<open>auto simp: add.commute\<close>)
  next
    case (absorb d v ms)
    then show ?thesis by (intro held_same) simp_all
  next
    case (deliver v ms)
    then show ?thesis by (intro held_same) (simp_all add: fan_def)
  qed (auto intro!: held_same simp: put_apply fan_def)
qed

lemma effects_held:
  assumes eff: "effects E chan posted k ranks False (ps i, n, l) (p', n', l')" and i: "i \<in> {0..<ranks}"
    and ok: "local_ok E chan posted k ranks (ps i) n" and me: "rank (ps i) = i"
  shows "held ranks (ps(i := p')) (chan n') = held ranks ps (chan n)"
proof -
  have "held ranks (ps(i := fst c)) (chan (fst (snd c))) = held ranks ps (chan n)"
    if "effects E chan posted k ranks False (ps i, n, l) c" for c
    using that
  proof (induction rule: rtranclp_induct)
    case (step c c')
    obtain q m b q' m' b' where c: "c = (q, m, b)" "c' = (q', m', b')" by (metis prod_cases3)
    note lok = effects_local_ok [OF step(1) [unfolded c] ok]
    have e: "effect E chan posted k ranks False ((ps(i := q)) i, m, b) (q', m', b')" using step(2) c by simp
    have "held ranks ((ps(i := q))(i := q')) (chan m') = held ranks (ps(i := q)) (chan m)"
      by (rule effect_held [where ps = "ps(i := q)" and i = i, OF e i]) (use lok me in simp_all)
    from trans [OF this [unfolded fun_upd_upd] step(3) [unfolded c fst_conv snd_conv]]
    show ?case unfolding c fst_conv snd_conv .
  qed simp
  from this [OF eff] show ?thesis by simp
qed

end
