(* ===== verification/Safety.thy ===== *)
theory Safety
  imports System
begin

text \<open>
  The properties of the system: the safety of termination detection, the refinement of the
  abstract protocol, the conservation of work. They are instantiated on two ranks over the
  first-in first-out network of theory MPI.
\<close>

section \<open>A small run\<close>

text \<open>
  Two ranks in a binary tree, rank 0 with the queue \<open>q\<close>. Without work, rank 1 reports and rank 0
  decides; with work at rank 0, rank 1 asks for it and rank 0 sends some.
\<close>

definition demo_start :: "CIRCLE_internal_queue_t \<Rightarrow> (unit, fifo_net) system" where
  "demo_start q = \<lparr>procs = (\<lambda>i. demo_proc (if i = 0 then q else small_queue\<lparr>count := 0\<rparr>) i), net = quiet_net 2,
     phase = (\<lambda>_. Working)\<rparr>"

lemma fifo_env_ok: "env_ok fifo_mpi f_chan fifo_posted"
  using fifo.mpi_comm_axioms by (simp add: env_ok_def INT32_MAX_def)

lemma demo_started:
  assumes ok: "\<not> isl (CIRCLE_init_local_state fifo_mpi i 2 (demo_init q i) (quiet_net 2))"
    and i: "i = 0 \<or> i = 1" and q: "queue_wf fifo_mpi q"
  shows "started fifo_mpi 2 2 i (demo_proc q i)"
proof -
  obtain p n where ini: "CIRCLE_init_local_state fifo_mpi i 2 (demo_init q i) (quiet_net 2) = Inr (p, n)"
    using ok by (cases "CIRCLE_init_local_state fifo_mpi i 2 (demo_init q i) (quiet_net 2)") auto
  then have p: "demo_proc q i = p" by (simp add: demo_proc_def)
  have di: "queue (demo_init q i) = q" "input (demo_init q i) = demo_input"
    by (simp_all add: demo_init_def small_proc_def)
  have "input p = demo_input"
    using init_local_state_run(8) [OF ini, of 2] i di(2) by (auto simp: demo_input_def INT32_MAX_def)
  moreover have "p\<lparr>user := ()\<rparr> = p" by simp
  ultimately have "run_create fifo_mpi p = Inr p" by (simp add: run_create_def demo_input_def)
  then show ?thesis
    using ini q p di unfolding started_def
    by (intro exI [of _ "demo_init q i"] exI [of _ "quiet_net 2"] exI [of _ p] exI [of _ n])
      (simp add: demo_input_def input_ok_def)
qed

lemma demo_sys_start:
  assumes "q = small_queue \<or> q = small_queue\<lparr>count := 0\<rparr>"
  shows "sys_start fifo_mpi f_chan fifo_posted 2 2 (demo_start q)"
proof -
  have "started fifo_mpi 2 2 0 (demo_proc q 0)"
    using assms demo_started [OF demo_inits(1)] demo_started [OF demo_inits(2)] small_queue_fifo idle_queue_fifo by auto
  moreover have "started fifo_mpi 2 2 1 (demo_proc (small_queue\<lparr>count := 0\<rparr>) 1)"
    using demo_started [OF demo_inits(3)] idle_queue_fifo by simp
  moreover have "i = 0 \<or> i = 1" if "i \<in> {0..<2}" for i :: int using that by auto
  ultimately have "started fifo_mpi 2 2 i (procs (demo_start q) i)" if "i \<in> {0..<2}" for i
    using that by (fastforce simp: demo_start_def)
  then show ?thesis by (simp add: sys_start_def) (simp add: demo_start_def quiet_posted)
qed

text \<open>The two runs, evaluated: each handler returns, rank 0 leaves its loop in the first.\<close>

lemma demo_detects:
  "case work_or_terminate fifo_mpi (demo_proc (small_queue\<lparr>count := 0\<rparr>) 1) (quiet_net 2) of
     Inr (l1, p1, n1) \<Rightarrow> \<not> l1 \<and> (case work_or_terminate fifo_mpi (demo_proc (small_queue\<lparr>count := 0\<rparr>) 0) n1 of
       Inr (l0, p0, n0) \<Rightarrow> l0 | Inl _ \<Rightarrow> False)
   | Inl _ \<Rightarrow> False"
  "count (queue (demo_proc (small_queue\<lparr>count := 0\<rparr>) 0)) = 0"
  "count (queue (demo_proc (small_queue\<lparr>count := 0\<rparr>) 1)) = 0"
  by code_simp+

lemma demo_serves:
  "case CIRCLE_request_work fifo_mpi (demo_proc (small_queue\<lparr>count := 0\<rparr>) 1) (quiet_net 2) False of
     Inr (rc, p1, n1) \<Rightarrow> (case CIRCLE_workreq_check fifo_mpi (demo_proc small_queue 0) n1 False of
       Inr (p0, n0) \<Rightarrow> batches (f_chan n0 (0, 1, CIRCLE_TAG_WORK_REPLY)) = [[''c'']] | Inl _ \<Rightarrow> False)
   | Inl _ \<Rightarrow> False"
  by code_simp

section \<open>Properties of the system\<close>

text \<open>
  C1. Termination detection by the tree is safe. In every state the system can reach from the start of
  a run, for every tree width and number of ranks, every interleaving of the calls of all processes and every
  program whose callbacks respect the interface: once any process has left its main loop, every
  process has an empty queue or is aborting, waits for no receipt, and has sent no work that is still
  under way.
\<close>

theorem termination_safe:
  assumes "env_ok E chan posted" and "0 < k" and "0 < ranks" and "ranks * k \<le> INT32_MAX"
    and "sys_start E chan posted k ranks s0" and "reach E ranks s0 s"
    and "i \<in> {0..<ranks}" and "phase s i \<noteq> Working" and "j \<in> {0..<ranks}"
  shows "(count (queue (procs s j)) = 0 \<or> CIRCLE_ABORT_FLAG (procs s j) \<noteq> 0)
    \<and> work_outstanding (procs s j) = 0
    \<and> (\<forall>d \<in> {0..<ranks}. batches (chan (net s) (j, d, CIRCLE_TAG_WORK_REPLY)) = [])"
proof -
  note start = sys_start_inv [OF assms(5,1-4)]
  have gl: "glob E chan posted k ranks (procs s) (net s) (left_loop s)"
    using reach_inv [OF assms(6,1,2) start] by (simp add: sys_inv_def)
  let ?w = "wave_of k (procs s) (chan (net s)) (left_loop s)"
  have inv: "wave_inv ranks (tree_parent k) (tree_kids k ranks) ?w" using gl by (simp add: glob_def)
  have "w_left ?w i" using assms(8) by (simp add: wave_of_def left_loop_def)
  from wave_invE(7) [OF inv assms(7)] this have "quiet ranks ?w" by blast
  then have q: "idle (procs s j)" "work_outstanding (procs s j) = 0" using assms(9) by (simp_all add: quiet_def wave_of_def)
  have "w_out ?w j \<le> 0" using q(2) by (simp add: wave_of_def)
  from out_zero(2) [OF inv assms(9) this] have "\<forall>d \<in> {0..<ranks}. batches (chan (net s) (j, d, CIRCLE_TAG_WORK_REPLY)) = []"
    by (simp add: wave_of_def)
  with q show ?thesis by (simp add: idle_def)
qed

theorem termination_safe_witness:
  "\<exists>s. reach fifo_mpi 2 (demo_start (small_queue\<lparr>count := 0\<rparr>)) s \<and> phase s 0 = Draining
     \<and> work_outstanding (procs s 1) = 0"
proof -
  let ?q = "small_queue\<lparr>count := 0\<rparr>" and ?s0 = "demo_start (small_queue\<lparr>count := 0\<rparr>)"
  obtain p1 n1 p0 n0 where
    r: "work_or_terminate fifo_mpi (demo_proc ?q 1) (quiet_net 2) = Inr (False, p1, n1)"
      "work_or_terminate fifo_mpi (demo_proc ?q 0) n1 = Inr (True, p0, n0)"
    using demo_detects(1) by (elim returnsE) (clarsimp elim!: returnsE)
  let ?s1 = "?s0\<lparr>procs := (procs ?s0)(1 := p1), net := n1, phase := (phase ?s0)(1 := Working)\<rparr>"
  let ?s2 = "?s1\<lparr>procs := (procs ?s1)(0 := p0), net := n0, phase := (phase ?s1)(0 := Draining)\<rparr>"
  have "sys_step fifo_mpi 2 Detect ?s0 ?s1"
    using sys_step.work [of 1 2 ?s0 fifo_mpi Detect p1 n1 False] move.detect [OF _ _ r(1), of False] demo_detects(3)
    by (simp add: demo_start_def)
  moreover have "sys_step fifo_mpi 2 Detect ?s1 ?s2"
    using sys_step.work [of 0 2 ?s1 fifo_mpi Detect p0 n0 True] move.detect [OF _ _ r(2), of False] demo_detects(2)
    by (simp add: demo_start_def)
  ultimately have reach: "reach fifo_mpi 2 ?s0 ?s2" by (blast intro: reach.intros)
  have "phase ?s2 0 = Draining" by simp
  moreover from this have "work_outstanding (procs ?s2 1) = 0"
    using termination_safe [OF fifo_env_ok _ _ _ demo_sys_start reach, of 0 1] by (simp add: INT32_MAX_def)
  ultimately show ?thesis using reach by blast
qed

text \<open>
  C4. The system refines the abstract termination protocol. Every state reachable from the start of a run is
  mapped by \<open>sys_wave\<close> to a state that the protocol \<open>wave_step\<close> reaches from the image of the start, and
  that satisfies the invariant of the protocol.
\<close>

theorem system_refines_wave:
  assumes "env_ok E chan posted" and "0 < k" and "0 < ranks" and "ranks * k \<le> INT32_MAX"
    and "sys_start E chan posted k ranks s0" and "reach E ranks s0 s"
  shows "(wave_step ranks (tree_kids k ranks))\<^sup>*\<^sup>* (sys_wave chan k s0) (sys_wave chan k s)
    \<and> wave_inv ranks (tree_parent k) (tree_kids k ranks) (sys_wave chan k s)"
  using reach_inv [OF assms(6,1,2) sys_start_inv [OF assms(5,1-4)]]
  by (simp add: sys_inv_def glob_def sys_wave_def)

theorem system_refines_wave_witness:
  "wave_inv 2 (tree_parent 2) (tree_kids 2 2) (sys_wave f_chan 2 (demo_start small_queue))"
  using system_refines_wave [OF fifo_env_ok _ _ _ demo_sys_start reach.start, of small_queue]
  by (simp add: INT32_MAX_def)

text \<open>
  C3. No work is lost or duplicated. In every reachable state, every call of the work loop other than the
  two that run user code (processing an item and reductions), made by any process, leaves the multiset of all
  items, queued at the processes or under way between them, as it was.
\<close>

theorem work_conserved:
  assumes "env_ok E chan posted" and "0 < k" and "0 < ranks" and "ranks * k \<le> INT32_MAX"
    and "sys_start E chan posted k ranks s0" and "reach E ranks s0 s"
    and "sys_step E ranks a s s'" and "a \<noteq> Item" and "a \<noteq> Reduction"
  shows "work_held chan ranks s' = work_held chan ranks s"
proof -
  have inv: "sys_inv E chan posted k ranks s"
    using reach_inv [OF assms(6,1,2) sys_start_inv [OF assms(5,1-4)]] by simp
  obtain i p' l' where e: "i \<in> {0..<ranks}" "s' = s\<lparr>procs := (procs s)(i := p'), net := net s', phase := phase s'\<rparr>"
    "effects E chan posted k ranks (calls_user a) (procs s i, net s, left_loop s i) (p', net s', l')"
    by (rule sys_step_effects [OF assms(7,1,2) inv])
  have ps: "procs s' = (procs s)(i := p')" by (subst e(2)) simp
  have "calls_user a = False" using assms(8,9) by (simp add: calls_user_def)
  with e(3) have "effects E chan posted k ranks False (procs s i, net s, left_loop s i) (p', net s', l')" by simp
  from effects_held [where ps = "procs s" and i = i, OF this e(1) glob_proc(2,1) [OF inv [unfolded sys_inv_def] e(1)]]
  show ?thesis unfolding work_held_def ps .
qed

theorem work_conserved_witness:
  "\<exists>(s :: (unit, fifo_net) system) s'. sys_step fifo_mpi 2 Serve s s' \<and> batches (f_chan (net s') (0, 1, CIRCLE_TAG_WORK_REPLY)) = [[''c'']]
     \<and> work_held f_chan 2 s' = work_held f_chan 2 s"
proof -
  let ?q = "small_queue\<lparr>count := 0\<rparr>" and ?s0 = "demo_start small_queue"
  obtain rc p1 n1 p0 n0 where
    r: "CIRCLE_request_work fifo_mpi (demo_proc ?q 1) (quiet_net 2) False = Inr (rc, p1, n1)"
      "CIRCLE_workreq_check fifo_mpi (demo_proc small_queue 0) n1 False = Inr (p0, n0)"
      "batches (f_chan n0 (0, 1, CIRCLE_TAG_WORK_REPLY)) = [[''c'']]"
    using demo_serves by (elim returnsE) (clarsimp elim!: returnsE)
  let ?s1 = "?s0\<lparr>procs := (procs ?s0)(1 := p1), net := n1, phase := (phase ?s0)(1 := Working)\<rparr>"
  let ?s2 = "?s1\<lparr>procs := (procs ?s1)(0 := p0), net := n0, phase := (phase ?s1)(0 := Working)\<rparr>"
  have "sys_step fifo_mpi 2 Request ?s0 ?s1"
    using sys_step.work [of 1 2 ?s0 fifo_mpi Request p1 n1 False] move.request [OF _ r(1)] demo_detects(3)
    by (simp add: demo_start_def)
  then have reach: "reach fifo_mpi 2 ?s0 ?s1" by (blast intro: reach.intros)
  have st: "sys_step fifo_mpi 2 Serve ?s1 ?s2"
    using sys_step.work [of 0 2 ?s1 fifo_mpi Serve p0 n0 False] move.serve [OF r(2)]
    by (simp add: demo_start_def)
  have "work_held f_chan 2 ?s2 = work_held f_chan 2 ?s1"
    using work_conserved [OF fifo_env_ok _ _ _ demo_sys_start reach st] by (simp add: INT32_MAX_def)
  moreover have "batches (f_chan (net ?s2) (0, 1, CIRCLE_TAG_WORK_REPLY)) = [[''c'']]" using r(3) by simp
  ultimately show ?thesis using st by blast
qed

end
