(* ===== verification/Serving.thy ===== *)
theory Serving
  imports Safety
begin

text \<open>
  Requests for work and their answers. A process that asks for work waits for one answer: a refusal, or a
  header followed by the strings. Here the two sides of the exchange are put together: whoever is asked takes the
  request and answers it exactly once, so while a process waits either its request or its answer is under way, and when it
  does not wait neither is.
\<close>

section \<open>Answers\<close>

text \<open>An answer starts with a message of integers; the strings of a share follow as bytes.\<close>

definition answers :: "payload list \<Rightarrow> nat" where
  "answers ms = length (filter (\<lambda>m. case m of Ints _ \<Rightarrow> True | _ \<Rightarrow> False) ms)"

lemma answers_simps [simp]:
  "answers [] = 0" "answers (xs @ ys) = answers xs + answers ys" "answers (Ints is # ms) = Suc (answers ms)"
  "answers (Bytes bs # ms) = answers ms"
  by (simp_all add: answers_def)

text \<open>What process \<open>me\<close> answered between two states of the channels: one answer for each entry of a list.\<close>

definition answered :: "int \<Rightarrow> (channel \<Rightarrow> payload list) \<Rightarrow> (channel \<Rightarrow> payload list) \<Rightarrow> int list \<Rightarrow> bool" where
  "answered me c c' ds \<longleftrightarrow> (\<forall>key. fst key \<noteq> me \<or> snd (snd key) \<noteq> CIRCLE_TAG_WORK_REPLY \<longrightarrow> c' key = c key)
     \<and> (\<forall>d. answers (c' (me, d, CIRCLE_TAG_WORK_REPLY)) = answers (c (me, d, CIRCLE_TAG_WORK_REPLY)) + count_list ds d)"

lemma answered_refl: "answered me c c []"
  by (simp add: answered_def)

lemma answered_trans: "answered me c c' ds \<Longrightarrow> answered me c' c'' ds' \<Longrightarrow> answered me c c'' (ds @ ds')"
  by (simp add: answered_def)

lemma answered_refusal: "answered me c (put c (me, d, CIRCLE_TAG_WORK_REPLY) (Ints is)) [d]"
  by (auto simp: answered_def put_apply)

lemma answered_share:
  "answered me c (put (put c (me, d, CIRCLE_TAG_WORK_REPLY) (Ints is)) (me, d, CIRCLE_TAG_WORK_REPLY) (Bytes bs)) [d]"
  by (auto simp: answered_def put_apply)

text \<open>What serving leaves alone, beside the channels.\<close>

definition only_serves :: "'u proc \<Rightarrow> 'u proc \<Rightarrow> bool" where
  "only_serves p p' \<longleftrightarrow> rank p' = rank p \<and> work_requested p' = work_requested p
     \<and> work_requested_rank p' = work_requested_rank p \<and> next_processor p' = next_processor p \<and> (sends_wf p \<longrightarrow> sends_wf p')"

lemma only_serves_refl: "only_serves p p"
  by (simp add: only_serves_def)

lemma only_serves_trans: "only_serves p p' \<Longrightarrow> only_serves p' p'' \<Longrightarrow> only_serves p p''"
  by (simp add: only_serves_def)

lemma only_serves_sends: "only_sends p p' \<Longrightarrow> sends_wf p' \<Longrightarrow> only_serves p p'"
  using only_sends_same [of p p'] only_sends_proc [of p p'] by (simp add: only_serves_def)

text \<open>One call that answers those in a list.\<close>

definition serves ::
  "('n \<Rightarrow> channel \<Rightarrow> payload list) \<Rightarrow> ('n \<Rightarrow> channel set) \<Rightarrow> 'u proc \<Rightarrow> 'n \<Rightarrow> 'u proc \<Rightarrow> 'n \<Rightarrow> int list \<Rightarrow> bool" where
  "serves chan posted p n p' n' ds \<longleftrightarrow> only_serves p p' \<and> answered (rank p) (chan n) (chan n') ds \<and> posted n' = posted n"

lemma serves_trans:
  "serves chan posted p n p' n' ds \<Longrightarrow> serves chan posted p' n' p'' n'' ds' \<Longrightarrow> serves chan posted p n p'' n'' (ds @ ds')"
  using only_serves_trans [of p p' p''] answered_trans [of "rank p" "chan n" "chan n'" ds "chan n''" ds']
  by (simp add: serves_def only_serves_def)

lemma serves_wf: "serves chan posted p n p' n' ds \<Longrightarrow> sends_wf p \<Longrightarrow> sends_wf p'"
  by (simp add: serves_def only_serves_def)

lemma refusal_serves:
  assumes "mpi_comm E chan posted" and "mem_ample E" and "sends_wf p" and "CIRCLE_send_no_work E p n d = Inr (p', n')"
  shows "serves chan posted p n p' n' [d]"
proof -
  note r = send_no_work_run [OF assms(1,3,2,4)]
  then show ?thesis using only_serves_sends [of p p'] answered_refusal by (simp add: serves_def)
qed

text \<open>Work is sent in two messages, whatever the share; too large a share is refused.\<close>

lemma send_work_serves:
  assumes comm: "mpi_comm E chan posted" and ample: "mem_ample E" and wf: "sends_wf p"
    and run: "CIRCLE_send_work E p n d cnt = Inr (rc, p', n')"
  shows "serves chan posted p n p' n' [d]"
proof (cases "cnt \<le> 0")
  case True
  then have "CIRCLE_send_no_work E p n d = Inr (p', n')" using run by (auto simp: CIRCLE_send_work_def outcome)
  then show ?thesis by (rule refusal_serves [OF comm ample wf])
next
  case pos: False
  define p1 where "p1 = (if d < rank p \<or> d = token_src p then p\<lparr>token_proc := BLACK\<rparr> else p)"
  have p1: "rank p1 = rank p" "queue p1 = queue p" "sends_wf p1" "only_serves p p1"
    using wf by (auto simp: p1_def sends_wf_def only_serves_def)
  from run pos obtain e start len k s l where
    pk: "arr_get (strings (queue p)) (count (queue p) - 1) = Inr e" "work_span (queue p) e cnt = Inr (start, len)"
      "backoff_loop (queue p) e cnt start len = Inr (k, s, l)"
    by (auto simp: CIRCLE_send_work_def Let_def p1_def [symmetric] p1 outcome)
  show ?thesis
  proof (cases "l > 2147483647")
    case True
    then have "CIRCLE_send_no_work E p1 n d = Inr (p', n')"
      using run pos pk by (auto simp: CIRCLE_send_work_def Let_def p1_def [symmetric] p1 outcome)
    from refusal_serves [OF comm ample p1(3) this] p1(1,4) show ?thesis
      using only_serves_trans [of p p1 p'] by (simp add: serves_def)
  next
    case False
    from run pos pk False ample obtain num offs buf where
      c: "c_int (2 + k) = Inr num" "work_offsets (queue p) k s = Inr offs" "memcpy_from (base (queue p)) (unat s) (unat l) = Inr buf"
      by (auto simp: CIRCLE_send_work_def Let_def p1_def [symmetric] p1 outcome)
    let ?xs = "[k, int (unat l)] @ offs"
    obtain r1 n1 where s1: "mpi_isend E n (rank p) d CIRCLE_TAG_WORK_REPLY (Ints ?xs) = (r1, n1)" by fastforce
    from run pos pk False ample c s1 obtain p2 n2 where
      t1: "CIRCLE_worksend_track E p1 n1 (MPI_Req r1) (Some (Ints ?xs)) = Inr (p2, n2)"
      by (auto simp: CIRCLE_send_work_def Let_def p1_def [symmetric] p1 outcome)
    note tr1 = track_result [OF p1(3) t1 ample]
    have rk: "rank p2 = rank p" using only_sends_same(1) [OF tr1(4)] p1(1) by simp
    obtain r2 n3 where s2: "mpi_isend E n2 (rank p) d CIRCLE_TAG_WORK_REPLY (Bytes buf) = (r2, n3)" by fastforce
    from run pos pk False ample c s1 t1 s2 rk obtain p3 n4 where
      t2: "CIRCLE_worksend_track E p2 n3 (MPI_Req r2) (Some (Bytes buf)) = Inr (p3, n4)"
      and fin: "n' = n4" "p' = p3\<lparr>queue := (queue p3)\<lparr>count := count (queue p3) - k\<rparr>,
                       work_outstanding := work_outstanding p3 + 1\<rparr>"
      by (auto simp: CIRCLE_send_work_def Let_def p1_def [symmetric] p1 outcome)
    note tr2 = track_result [OF tr1(2) t2 ample]
    have "only_serves p p3"
      using only_serves_trans [OF p1(4)] only_serves_trans only_serves_sends [OF tr1(4,2)] only_serves_sends [OF tr2(4,2)] by blast
    moreover have "only_serves p3 p'" using fin(2) by (auto simp: only_serves_def sends_wf_def)
    ultimately have "only_serves p p'" by (rule only_serves_trans)
    then show ?thesis
      using answered_share [of "rank p" "chan n" d ?xs buf] mpi_comm.isend_adds [OF comm s1] mpi_comm.isend_adds [OF comm s2]
        tr1(1) tr2(1) fin(1) by (simp add: serves_def put_def)
  qed
qed

section \<open>Serving requests\<close>

lemma for_list_serves:
  assumes "for_list f is (p, n) = Inr (p', n')" and "sends_wf p"
    and step: "\<And>i p n p' n'. i \<in> set is \<Longrightarrow> sends_wf p \<Longrightarrow> f i (p, n) = Inr (p', n') \<Longrightarrow> serves chan posted p n p' n' [g i]"
  shows "serves chan posted p n p' n' (map g is)"
  using assms
proof (induction "is" arbitrary: p n)
  case Nil
  then show ?case by (simp add: serves_def only_serves_refl answered_refl)
next
  case (Cons i is')
  from Cons.prems(1) obtain p1 n1 where f: "f i (p, n) = Inr (p1, n1)" "for_list f is' (p1, n1) = Inr (p', n')"
    by (auto simp: outcome)
  have s: "serves chan posted p n p1 n1 [g i]" using Cons.prems(2,3) f(1) by simp
  from serves_trans [OF this Cons.IH [OF f(2) serves_wf [OF s Cons.prems(2)]]] Cons.prems(3) show ?case by simp
qed

text \<open>The requests taken: one from each entry that was recorded.\<close>

definition requests_taken :: "int \<Rightarrow> (channel \<Rightarrow> payload list) \<Rightarrow> (channel \<Rightarrow> payload list) \<Rightarrow> int list \<Rightarrow> bool" where
  "requests_taken me c c' ds \<longleftrightarrow> (\<forall>key. fst (snd key) \<noteq> me \<or> snd (snd key) \<noteq> CIRCLE_TAG_WORK_REQUEST \<longrightarrow> c' key = c key)
     \<and> (\<forall>d. length (c (d, me, CIRCLE_TAG_WORK_REQUEST)) = length (c' (d, me, CIRCLE_TAG_WORK_REQUEST)) + count_list ds d)"

lemma requests_taken_first:
  assumes "c (d, me, CIRCLE_TAG_WORK_REQUEST) = m # ms"
    and "requests_taken me (c((d, me, CIRCLE_TAG_WORK_REQUEST) := ms)) c' ds"
  shows "requests_taken me c c' (d # ds)"
  using assms unfolding requests_taken_def by (auto simp: fun_upd_apply split: if_splits)

lemma workreq_loop_takes:
  assumes comm: "mpi_comm E chan posted"
    and "workreq_loop E me n reqs c = Inr (reqs', c', n')" and "\<forall>xs. reqs = Some xs \<longrightarrow> c \<le> length xs"
  shows "posted n' = posted n \<and> (\<exists>ds. requests_taken me (chan n) (chan n') ds \<and> c' = c + length ds
    \<and> (ds \<noteq> [] \<longrightarrow> (\<exists>ys. reqs' = Some ys \<and> c' \<le> length ys \<and> drop c (take c' ys) = ds)) \<and> (ds = [] \<longrightarrow> reqs' = reqs)
    \<and> (\<forall>xs. reqs = Some xs \<longrightarrow> (\<exists>ys. reqs' = Some ys \<and> take c ys = take c xs)))"
  using assms(2,3)
proof (induction "(case reqs of None \<Rightarrow> 0 | Some xs \<Rightarrow> length xs) - c" arbitrary: n reqs c rule: less_induct)
  case less
  note run = less.prems(1) [unfolded workreq_loop.simps [of E me n reqs c]]
  obtain po n1 where pr: "mpi_iprobe E n me (MPI_ANY_SOURCE E) CIRCLE_TAG_WORK_REQUEST = (po, n1)" by fastforce
  note k = mpi_comm.probe_keeps [OF comm pr]
  show ?case
  proof (cases po)
    case None
    then show ?thesis using run pr k by (auto simp: requests_taken_def intro!: exI [of _ "[]"])
  next
    case (Some status)
    from mpi_comm.recv_after_probe [OF comm pr [unfolded Some]] obtain m ms n2 where
      m: "chan n (MPI_SOURCE status, me, CIRCLE_TAG_WORK_REQUEST) = m # ms"
        "MPI_Recv E n1 me (MPI_SOURCE status) CIRCLE_TAG_WORK_REQUEST = Inr (m, n2)"
        "chan n2 = (chan n)((MPI_SOURCE status, me, CIRCLE_TAG_WORK_REQUEST) := ms)" "posted n2 = posted n" by blast
    obtain n3 where n3: "recv_empty E n1 me (MPI_SOURCE status) CIRCLE_TAG_WORK_REQUEST = Inr n3"
      using run pr Some by (auto split: sum.splits)
    then have "n3 = n2" using m(2) by (simp add: recv_eqs)
    with run pr Some n3 obtain reqs1 where
      set: "arr_set reqs (int c) (MPI_SOURCE status) = Inr reqs1"
      and rest: "workreq_loop E me n2 reqs1 (Suc c) = Inr (reqs', c', n')"
      by (auto split: sum.splits)
    from set obtain xs where xs: "reqs = Some xs" "c < length xs" "reqs1 = Some (xs[c := MPI_SOURCE status])"
      by (auto simp: arr_set_eq_Inr)
    have "(case reqs1 of None \<Rightarrow> 0 | Some xs \<Rightarrow> length xs) - Suc c < (case reqs of None \<Rightarrow> 0 | Some xs \<Rightarrow> length xs) - c"
      using xs by simp
    from less.hyps [OF this rest] xs obtain ds ys where
      ds: "requests_taken me (chan n2) (chan n') ds" "c' = Suc c + length ds"
        "ds \<noteq> [] \<longrightarrow> c' \<le> length ys \<and> drop (Suc c) (take c' ys) = ds" "ds = [] \<longrightarrow> ys = xs[c := MPI_SOURCE status]"
        "reqs' = Some ys" "take (Suc c) ys = take (Suc c) (xs[c := MPI_SOURCE status])" "posted n' = posted n2"
      by fastforce
    have len: "c' \<le> length ys" using ds(2-4) xs(2) by (cases "ds = []") auto
    have "take (Suc c) (xs[c := MPI_SOURCE status]) = take c xs @ [MPI_SOURCE status]"
      using xs(2) by (simp add: take_Suc_conv_app_nth)
    then have tk: "take (Suc c) ys = take c xs @ [MPI_SOURCE status]" using ds(6) by simp
    have c1: "c < length ys" using len ds(2) by simp
    then have nth: "ys ! c = MPI_SOURCE status" and pre: "take c ys = take c xs"
      using tk xs(2) by (simp_all add: take_Suc_conv_app_nth)
    have "drop c (take c' ys) = ys ! c # drop (Suc c) (take c' ys)"
      using len ds(2) by (subst Cons_nth_drop_Suc [symmetric]) simp_all
    moreover have "drop (Suc c) (take c' ys) = ds" using ds(2,3) by (cases "ds = []") simp_all
    ultimately have "drop c (take c' ys) = MPI_SOURCE status # ds" using nth by simp
    then show ?thesis
      using requests_taken_first [of "chan n", OF m(1)] ds(1,2,5,7) m(3,4) len pre xs(1)
      by (intro conjI exI [of _ "MPI_SOURCE status # ds"]) simp_all
  qed
qed

lemma send_many_serves:
  fixes p :: "'u proc" and n :: 'n
  assumes comm: "mpi_comm E chan posted" and ample: "mem_ample E" and wf: "sends_wf p"
    and run: "CIRCLE_send_work_to_many E p n (Some ds) (int rc) = Inr (p', n')" and rc: "0 < rc" "rc \<le> length ds"
  shows "serves chan posted p n p' n' (take rc ds)"
proof -
  have sz: "malloc_arr E (\<lambda>_. 0) 4 (nat (int rc + 1)) = Some (map (\<lambda>_. 0 :: int) [0..<nat (int rc + 1)])"
    using ample by (simp add: malloc_arr_def)
  from run rc sz obtain sizes' p1 where ws: "work_shares E p (Some (map (\<lambda>_. 0) [0..<nat (int rc + 1)])) (int rc) = Inr (sizes', p1)"
    and loop: "for_list (\<lambda>i (p, n). andThen (arr_get (Some ds) (int i)) (\<lambda>dest. andThen (arr_get sizes' (int i + 1)) (\<lambda>share.
      andThen (CIRCLE_send_work E p n dest share) (\<lambda>(rc, p, n). Inr (p, n))))) [0..<rc] (p1, n) = Inr (p', n')"
    by (auto simp: CIRCLE_send_work_to_many_def Let_def outcome)
  have p1: "p1 = p \<or> (\<exists>s. p1 = p\<lparr>seed := s\<rparr>)"
    using ws by (auto simp: work_shares_def Let_def outcome split: if_splits prod.splits)
  have "serves chan posted p1 n p' n' (map (\<lambda>i. ds ! i) [0..<rc])"
  proof (rule for_list_serves [OF loop])
    fix i q m q' m'
    assume "i \<in> set [0..<rc]" and wfq: "sends_wf q"
      and b: "(case (q, m) of (p, n) \<Rightarrow> andThen (arr_get (Some ds) (int i)) (\<lambda>dest. andThen (arr_get sizes' (int i + 1)) (\<lambda>share.
        andThen (CIRCLE_send_work E p n dest share) (\<lambda>(rc, p, n). Inr (p, n))))) = Inr (q', m')"
    then obtain share r where "CIRCLE_send_work E q m (ds ! i) share = Inr (r, q', m')" using rc(2) by (auto simp: outcome)
    then show "serves chan posted q m q' m' [ds ! i]" by (rule send_work_serves [OF comm ample wfq])
  qed (use p1 wf in \<open>auto simp: sends_wf_def\<close>)
  moreover have "map (\<lambda>i. ds ! i) [0..<rc] = take rc ds" using rc(2) by (intro nth_equalityI) auto
  moreover have "rank p1 = rank p" "only_serves p p1" using p1 by (auto simp: only_serves_def sends_wf_def)
  ultimately show ?thesis using only_serves_trans [of p p1 p'] by (simp add: serves_def)
qed

text \<open>The whole handler: those whose requests it takes are those it answers.\<close>

lemma workreq_check_serves:
  assumes comm: "mpi_comm E chan posted" and ample: "mem_ample E" and wf: "sends_wf p"
    and run: "CIRCLE_workreq_check E p n cleanup = Inr (p', n')"
  shows "\<exists>ds c. requests_taken (rank p) (chan n) c ds \<and> answered (rank p) c (chan n') ds
    \<and> only_serves p p' \<and> posted n' = posted n"
proof -
  from run obtain reqs rc n1 where loop: "workreq_loop E (rank p) n (requestors p) 0 = Inr (reqs, rc, n1)"
    by (auto simp: CIRCLE_workreq_check_def outcome)
  from workreq_loop_takes [OF comm loop] obtain ds where
    ds: "requests_taken (rank p) (chan n) (chan n1) ds" "rc = length ds" "posted n1 = posted n"
      "ds \<noteq> [] \<longrightarrow> (\<exists>ys. reqs = Some ys \<and> rc \<le> length ys \<and> take rc ys = ds)"
    by fastforce
  define p1 where "p1 = p\<lparr>requestors := reqs\<rparr>"
  have p1: "rank p1 = rank p" "sends_wf p1" "only_serves p p1"
    using wf by (auto simp: p1_def sends_wf_def only_serves_def)
  show ?thesis
  proof (cases "ds = []")
    case True
    then have "p' = p1" "n' = n1" using run loop ds(2) by (simp_all add: CIRCLE_workreq_check_def p1_def)
    then show ?thesis using ds(1,3) p1 True answered_refl by blast
  next
    case False
    then obtain ys where ys: "reqs = Some ys" "rc \<le> length ys" "take rc ys = ds" using ds(4) by blast
    have pos: "0 < rc" using False ds(2) by simp
    then obtain limit where lim: "c_int (4 * comm_size p1) = Inr limit"
      using run loop by (auto simp: CIRCLE_workreq_check_def outcome p1_def Let_def)
    have "serves chan posted p1 n1 p' n' (take rc ys)"
    proof (cases "count (queue p1) = 0 \<or> cleanup \<or> CIRCLE_ABORT_FLAG p1 \<noteq> 0 \<or> send_count p1 \<ge> limit")
      case True
      then have "for_list (\<lambda>i (p, n). andThen (arr_get reqs (int i)) (CIRCLE_send_no_work E p n)) [0..<rc] (p1, n1) = Inr (p', n')"
        using run loop pos lim by (simp add: CIRCLE_workreq_check_def p1_def Let_def)
      then have "serves chan posted p1 n1 p' n' (map (\<lambda>i. ys ! i) [0..<rc])"
      proof (rule for_list_serves [OF _ p1(2)])
        fix i q m q' m'
        assume "i \<in> set [0..<rc]" and wfq: "sends_wf q"
          and "(case (q, m) of (p, n) \<Rightarrow> andThen (arr_get reqs (int i)) (CIRCLE_send_no_work E p n)) = Inr (q', m')"
        then have "CIRCLE_send_no_work E q m (ys ! i) = Inr (q', m')" using ys(1,2) by (auto simp: outcome)
        then show "serves chan posted q m q' m' [ys ! i]" by (rule refusal_serves [OF comm ample wfq])
      qed
      moreover have "map (\<lambda>i. ys ! i) [0..<rc] = take rc ys" using ys(2) by (intro nth_equalityI) auto
      ultimately show ?thesis by simp
    next
      case False
      then have "CIRCLE_send_work_to_many E p1 n1 (Some ys) (int rc) = Inr (p', n')"
        using run loop pos lim ys(1) by (simp add: CIRCLE_workreq_check_def p1_def Let_def)
      then show ?thesis by (rule send_many_serves [OF comm ample p1(2) _ pos ys(2)])
    qed
    then have "answered (rank p) (chan n1) (chan n') ds" "only_serves p1 p'" "posted n' = posted n"
      using ys(3) p1(1) ds(3) by (simp_all add: serves_def)
    then show ?thesis using ds(1) only_serves_trans [OF p1(3)] by blast
  qed
qed

section \<open>Everything else\<close>

text \<open>What is under way between one who asks and one who is asked, and what the one who asks waits for.\<close>

definition pending :: "(channel \<Rightarrow> payload list) \<Rightarrow> int \<Rightarrow> int \<Rightarrow> nat" where
  "pending c a b = length (c (a, b, CIRCLE_TAG_WORK_REQUEST)) + answers (c (b, a, CIRCLE_TAG_WORK_REPLY))"

definition asks :: "'u proc \<Rightarrow> int \<Rightarrow> nat" where
  "asks p b = (if work_requested p \<noteq> 0 \<and> work_requested_rank p = b then 1 else 0)"

text \<open>A call that neither asks nor answers.\<close>

definition aside :: "('n \<Rightarrow> channel \<Rightarrow> payload list) \<Rightarrow> 'u proc \<Rightarrow> 'n \<Rightarrow> 'u proc \<Rightarrow> 'n \<Rightarrow> bool" where
  "aside chan p n p' n' \<longleftrightarrow> rank p' = rank p \<and> work_requested p' = work_requested p
     \<and> work_requested_rank p' = work_requested_rank p
     \<and> (\<forall>a b. chan n' (a, b, CIRCLE_TAG_WORK_REQUEST) = chan n (a, b, CIRCLE_TAG_WORK_REQUEST))
     \<and> (\<forall>a b. chan n' (a, b, CIRCLE_TAG_WORK_REPLY) = chan n (a, b, CIRCLE_TAG_WORK_REPLY))"

lemma aside_trans: "aside chan p n p1 n1 \<Longrightarrow> aside chan p1 n1 p2 n2 \<Longrightarrow> aside chan p n p2 n2"
  by (simp add: aside_def)

lemma aside_silent: "silent E chan posted p n p' n' \<Longrightarrow> aside chan p n p' n'"
  using same_waveD(1) [of p p'] by (simp add: silent_def side_def aside_def)

lemma aside_update:
  "chan n' = (chan n)((s, d, t) := ms) \<Longrightarrow> t \<noteq> CIRCLE_TAG_WORK_REQUEST \<Longrightarrow> t \<noteq> CIRCLE_TAG_WORK_REPLY \<Longrightarrow> aside chan p n p n'"
  by (simp add: aside_def)

lemma aside_net: "chan n' = chan n \<Longrightarrow> aside chan p n p n'"
  by (simp add: aside_def)

context mpi_comm
begin

lemma aside_probe_recv:
  assumes "mpi_iprobe E n me src tag = (po, n1)" and "MPI_Recv E n1 me d tag = Inr (m, n2)"
    and "tag \<noteq> CIRCLE_TAG_WORK_REQUEST" and "tag \<noteq> CIRCLE_TAG_WORK_REPLY"
  shows "aside chan p n p n2"
proof -
  from MPI_Recv_takes [OF assms(2)] obtain ms where "chan n2 = (chan n1)((d, me, tag) := ms)" by blast
  then show ?thesis using probe_keeps [OF assms(1)] assms(3,4) by (simp add: aside_def)
qed

lemma receipts_aside: "CIRCLE_workreceipt_check E p n = Inr (p', n') \<Longrightarrow> aside chan p n p' n'"
proof (induction "nat (work_outstanding p)" arbitrary: p n rule: less_induct)
  case less
  note run = less.prems [unfolded CIRCLE_workreceipt_check.simps [of E p n]]
  show ?case
  proof (cases "work_outstanding p > 0")
    case True
    obtain po n1 where pr: "mpi_iprobe E n (rank p) (MPI_ANY_SOURCE E) CIRCLE_TAG_WORK_RECEIPT = (po, n1)" by fastforce
    show ?thesis
    proof (cases po)
      case None
      then have "p' = p" "n' = n1" using run True pr by simp_all
      then show ?thesis using probe_keeps [OF pr] by (simp add: aside_def)
    next
      case (Some status)
      obtain n2 where n2: "recv_empty E n1 (rank p) (MPI_SOURCE status) CIRCLE_TAG_WORK_RECEIPT = Inr n2"
        using run True pr Some by (auto split: sum.splits)
      define p1 where "p1 = p\<lparr>work_outstanding := work_outstanding p - 1, term_flag := 0\<rparr>"
      have "aside chan p n p n2" using aside_probe_recv [OF pr] n2 by (auto simp: recv_eqs)
      moreover have "aside chan p n2 p1 n2" by (simp add: aside_def p1_def)
      moreover have "CIRCLE_workreceipt_check E p1 n2 = Inr (p', n')"
        using run True pr Some n2 by (simp add: p1_def)
      ultimately show ?thesis using less.hyps [of p1 n2] True aside_trans by (fastforce simp: p1_def)
    qed
  qed (use run in \<open>simp add: aside_def\<close>)
qed

lemma term_loop_aside: "term_loop E p n = Inr (p', n') \<Longrightarrow> aside chan p n p' n'"
proof (induction "nat (children (tree p) - term_replies p)" arbitrary: p n rule: less_induct)
  case less
  note run = less.prems [unfolded term_loop.simps [of E p n]]
  show ?case
  proof (cases "term_replies p < children (tree p)")
    case True
    obtain po n1 where pr: "mpi_iprobe E n (rank p) (MPI_ANY_SOURCE E) CIRCLE_TAG_TERM = (po, n1)" by fastforce
    show ?thesis
    proof (cases po)
      case None
      then have "p' = p" "n' = n1" using run True pr by simp_all
      then show ?thesis using probe_keeps [OF pr] by (simp add: aside_def)
    next
      case (Some status)
      obtain v n2 where n2: "recv_int E n1 (rank p) (MPI_SOURCE status) CIRCLE_TAG_TERM = Inr (v, n2)"
        using run True pr Some by (auto split: sum.splits)
      define p1 where "p1 = p\<lparr>term_flag := term_flag p AND v, term_replies := term_replies p + 1\<rparr>"
      have "aside chan p n p n2" using aside_probe_recv [OF pr] n2 by (auto simp: recv_eqs)
      moreover have "aside chan p n2 p1 n2" by (simp add: aside_def p1_def)
      moreover have "term_loop E p1 n2 = Inr (p', n')" using run True pr Some n2 by (simp add: p1_def)
      ultimately show ?thesis using less.hyps [of p1 n2] True aside_trans by (fastforce simp: p1_def)
    qed
  qed (use run in \<open>simp add: aside_def\<close>)
qed

lemma aside_send: "tag \<noteq> CIRCLE_TAG_WORK_REQUEST \<Longrightarrow> tag \<noteq> CIRCLE_TAG_WORK_REPLY \<Longrightarrow> MPI_Send E n me d tag m = Inr n' \<Longrightarrow>
    aside chan p n p n'"
  using MPI_Send_adds [of n me d tag m n'] by (auto intro: aside_update)

lemma aside_children:
  assumes "send_children E t n me tag m = Inr n'" and "tag \<noteq> CIRCLE_TAG_WORK_REQUEST" "tag \<noteq> CIRCLE_TAG_WORK_REPLY"
  shows "aside chan p n p n'"
proof -
  from assms(1) obtain cs where "for_list (\<lambda>c n. MPI_Send E n me c tag m) cs n = Inr n'"
    by (auto simp: send_children_def outcome)
  then show ?thesis
  proof (induction cs arbitrary: n)
    case (Cons c cs)
    then obtain n1 where s: "MPI_Send E n me c tag m = Inr n1" "for_list (\<lambda>c n. MPI_Send E n me c tag m) cs n1 = Inr n'"
      by (auto simp: outcome)
    from aside_trans [OF aside_send [OF assms(2,3) s(1)] Cons.IH [OF s(2)]] show ?case .
  qed (simp add: aside_net)
qed

lemma term_aside:
  assumes run: "CIRCLE_check_for_term_allreduce E p n = Inr (st, p', n')"
  shows "aside chan p n p' n'"
proof -
  from run obtain p1 n1 where loop: "term_loop E p n = Inr (p1, n1)"
    by (auto simp: CIRCLE_check_for_term_allreduce_def outcome)
  have "aside chan p1 n1 p' n'"
  proof (cases "work_outstanding p1 > 0")
    case True
    then show ?thesis using run loop by (simp add: CIRCLE_check_for_term_allreduce_def aside_def)
  next
    case out: False
    obtain flag p2 n2 where c: "term_contribute E p1 n1 = Inr (flag, p2, n2)"
      using run loop out by (auto simp: CIRCLE_check_for_term_allreduce_def outcome)
    have "p2 = p1\<lparr>term_flag := 1, term_up := 1\<rparr> \<or> p2 = p1"
      "n2 = n1 \<or> MPI_Send E n1 (rank p1) (parent_rank (tree p1)) CIRCLE_TAG_TERM (Ints [term_flag p1]) = Inr n2"
      using c by (auto simp: term_contribute_def outcome split: if_splits)
    moreover from this(2) have "aside chan p1 n1 p1 n2" using aside_send [of CIRCLE_TAG_TERM] by (auto simp: aside_def)
    ultimately have s2: "aside chan p1 n1 p2 n2" by (auto simp: aside_def)
    from run loop out c obtain full v n3 where res: "term_result E p2 n2 flag = Inr (full, v, n3)"
      by (auto simp: CIRCLE_check_for_term_allreduce_def outcome)
    have s3: "aside chan p2 n2 p2 n3"
    proof -
      obtain po n0 where pr: "mpi_iprobe E n2 (rank p2) (parent_rank (tree p2)) CIRCLE_TAG_TERM = (po, n0)" by fastforce
      have keep: "aside chan p2 n2 p2 n0" using probe_keeps [OF pr] by (simp add: aside_def)
      consider (same) "n3 = n2" | (probed) "n3 = n0"
        | (got) w where "recv_int E n0 (rank p2) (parent_rank (tree p2)) CIRCLE_TAG_TERM = Inr (w, n3)"
        using res pr by (auto simp: term_result_def outcome split: if_splits option.splits)
      then show ?thesis
      proof cases
        case (got w)
        then show ?thesis using aside_probe_recv [OF pr] by (simp add: recv_eqs)
      qed (use keep in \<open>simp_all add: aside_def\<close>)
    qed
    have "aside chan p2 n3 p' n'"
    proof (cases full)
      case True
      then have "send_children E (tree p2) n3 (rank p2) CIRCLE_TAG_TERM (Ints [v]) = Inr n'"
          "p' = p2\<lparr>term_up := 0, term_replies := 0\<rparr>"
        using run loop out c res by (auto simp: CIRCLE_check_for_term_allreduce_def andThen_eq_Inr)
      with aside_children [OF this(1), of p2] show ?thesis by (simp add: aside_def)
    next
      case False
      then show ?thesis using run loop out c res by (simp add: CIRCLE_check_for_term_allreduce_def aside_def)
    qed
    then show ?thesis by (rule aside_trans [OF s2 aside_trans [OF s3]])
  qed
  then show ?thesis by (rule aside_trans [OF term_loop_aside [OF loop]])
qed

end

text \<open>All the calls of both loops but two.\<close>

lemma move_aside:
  assumes env: "env_ok E chan posted" and ok: "local_ok E chan posted k ranks p n"
    and mv: "move E cleanup a p n p' n' leave" and a: "a \<noteq> Serve" "a \<noteq> Request"
  shows "aside chan p n p' n'"
proof -
  have comm: "mpi_comm E chan posted" and ample: "mem_ample E" using env by (simp_all add: env_ok_def)
  note lok = local_okD [OF ok]
  show ?thesis
    using mv
  proof cases
    case receipts
    then show ?thesis using mpi_comm.receipts_aside [OF comm] by simp
  next
    case (reap released)
    show ?thesis by (rule aside_silent [OF worksend_check_silent [OF comm lok(1,3) reap(3)]])
  next
    case check_abort
    show ?thesis by (rule aside_silent [OF abort_check_silent(1) [OF comm lok(1,3) check_abort(3)]])
  next
    case reduction
    show ?thesis
    proof (cases "reduce_enabled p = 0")
      case True
      then show ?thesis using reduction by (simp add: reduce_progress_def aside_def)
    next
      case False
      then have "CIRCLE_reduce_check E p n (local_objects_processed p) cleanup = Inr (p', n')"
        using reduction by (simp add: reduce_progress_def)
      then show ?thesis by (rule aside_silent [OF reduce_check_silent [OF comm lok(1,3) ample]])
    qed
  next
    case item
    then obtain p1 j where r: "run_process E p = Inr p1" "n' = n" "p' = p1\<lparr>local_objects_processed := j\<rparr>"
      by (auto simp: work_or_terminate_def outcome)
    have "\<not> idle p" using item by (simp add: idle_def)
    from aside_silent [OF process_silent [OF r(1) this lok(1) ample]] show ?thesis using r by (simp add: aside_def)
  next
    case detect
    then obtain st where "CIRCLE_check_for_term_allreduce E p n = Inr (st, p', n')"
      using lok(7) by (auto simp: work_or_terminate_def outcome)
    then show ?thesis by (rule mpi_comm.term_aside [OF comm])
  next
    case (barrier rc)
    let ?p = "if nothing_outstanding p then CIRCLE_barrier_start p else p"
    have s0: "silent E chan posted p n ?p n"
      using silent_update(1) [OF lok(1)] lok(1) by (simp_all add: CIRCLE_barrier_start_def)
    from silent_trans [OF s0 barrier_silent(1) [OF comm silent_inv [OF s0] barrier(4)]] show ?thesis by (rule aside_silent)
  next
    case drain_token
    then show ?thesis using lok(7) by (simp add: token_drain_def aside_def)
  qed (use a in simp_all)
qed

section \<open>The exchange\<close>

text \<open>Serving moves one message from requests to answers.\<close>

lemma serve_pending:
  assumes comm: "mpi_comm E chan posted" and ample: "mem_ample E" and wf: "sends_wf p"
    and run: "CIRCLE_workreq_check E p n cleanup = Inr (p', n')"
  shows "rank p' = rank p" "asks p' b = asks p b" "pending (chan n') a b = pending (chan n) a b"
proof -
  from workreq_check_serves [OF assms] obtain ds c where
    t: "requests_taken (rank p) (chan n) c ds" and s: "answered (rank p) c (chan n') ds" and o: "only_serves p p'" by blast
  show "rank p' = rank p" "asks p' b = asks p b" using o by (simp_all add: only_serves_def asks_def)
  show "pending (chan n') a b = pending (chan n) a b"
  proof (cases "b = rank p")
    case True
    have "length (chan n (a, b, CIRCLE_TAG_WORK_REQUEST)) = length (c (a, b, CIRCLE_TAG_WORK_REQUEST)) + count_list ds a"
        "c (b, a, CIRCLE_TAG_WORK_REPLY) = chan n (b, a, CIRCLE_TAG_WORK_REPLY)"
      using t True by (simp_all add: requests_taken_def)
    moreover have "chan n' (a, b, CIRCLE_TAG_WORK_REQUEST) = c (a, b, CIRCLE_TAG_WORK_REQUEST)"
        "answers (chan n' (b, a, CIRCLE_TAG_WORK_REPLY)) = answers (c (b, a, CIRCLE_TAG_WORK_REPLY)) + count_list ds a"
      using s True by (simp_all add: answered_def)
    ultimately show ?thesis by (simp add: pending_def)
  next
    case False
    then show ?thesis using t s by (simp add: pending_def requests_taken_def answered_def)
  qed
qed

text \<open>The one who asks: what it waits for is what is under way.\<close>

lemma reply_pending:
  assumes comm: "mpi_comm E chan posted" and ok: "local_ok E chan posted k ranks p n" and ample: "mem_ample E"
    and wait: "work_requested p \<noteq> 0" and d: "d = work_requested_rank p"
    and hit: "mpi_iprobe E n (rank p) d CIRCLE_TAG_WORK_REPLY = (Some status, n1)"
    and run: "CIRCLE_work_receive E p n1 d (MPI_COUNT status) = Inr (rc, p1, n')"
    and one: "\<And>b. pending (chan n) (rank p) b = asks p b"
  shows "rank p1 = rank p" "pending (chan n') (rank p) b = 0" "a \<noteq> rank p \<Longrightarrow> pending (chan n') a b = pending (chan n) a b"
proof -
  note inv = local_okD(1) [OF ok]
  let ?key = "(d, rank p, CIRCLE_TAG_WORK_REPLY)"
  have "d \<noteq> MPI_ANY_SOURCE E" using proc_invD(5) [OF inv wait] mpi_comm.any_source [OF comm] d by simp
  with mpi_comm.probe_hit [OF comm hit] obtain m ms where m: "chan n ?key = m # ms" "MPI_COUNT status = msg_count m" by auto
  have n1: "chan n1 = chan n" using mpi_comm.probe_keeps [OF comm hit] by simp
  have "replies_ok (CIRCLE_MAX_STRING_LEN E) (m # ms)" using local_okD(5) [OF ok, of d "rank p"] unfolding m(1) .
  then have r: "rank p1 = rank p \<and> answers (chan n ?key) = Suc (answers (chan n' ?key))
    \<and> (\<forall>key. key \<noteq> ?key \<and> snd (snd key) \<noteq> CIRCLE_TAG_WORK_RECEIPT \<longrightarrow> chan n' key = chan n key)"
  proof (cases rule: replies_ok_cases)
    case (refused v)
    have c: "chan n1 ?key = Ints [v] # ms" using m n1 refused by simp
    have run1: "CIRCLE_work_receive E p n1 d 1 = Inr (rc, p1, n')" using run m(2) refused(1) by simp
    note r = work_receive_refused [OF comm c refused(2) ample run1]
    have "only_transfer (p\<lparr>CIRCLE_ABORT_FLAG := CIRCLE_ABORT_FLAG p1\<rparr>) p1" using r by blast
    from only_transfer_same(1) [OF this] r show ?thesis using c n1 by simp
  next
    case (work xs bs ms')
    have c: "chan n1 ?key = Ints xs # Bytes bs # ms'" using m n1 work by simp
    have run1: "CIRCLE_work_receive E p n1 d (int (length xs)) = Inr (rc, p1, n')" using run m(2) work(1) by simp
    note r = work_receive_work [OF comm c work(3) proc_invD(1) [OF inv] proc_invD(3) [OF inv wait] proc_invD(2) [OF inv] ample run1]
    then have "only_transfer p p1" by blast
    from only_transfer_same(1) [OF this] r show ?thesis using c n1 by (simp add: put_apply)
  qed
  then show "rank p1 = rank p" by blast
  have same: "chan n' (x, y, CIRCLE_TAG_WORK_REQUEST) = chan n (x, y, CIRCLE_TAG_WORK_REQUEST)"
    "(x, y) \<noteq> (d, rank p) \<Longrightarrow> chan n' (x, y, CIRCLE_TAG_WORK_REPLY) = chan n (x, y, CIRCLE_TAG_WORK_REPLY)" for x y
    using r by simp_all
  show "a \<noteq> rank p \<Longrightarrow> pending (chan n') a b = pending (chan n) a b" using same by (simp add: pending_def)
  show "pending (chan n') (rank p) b = 0"
  proof (cases "b = d")
    case True
    have "pending (chan n) (rank p) d = 1" using one [of d] wait d by (simp add: asks_def)
    then show ?thesis using r same(1) True by (simp add: pending_def)
  next
    case False
    then have "pending (chan n) (rank p) b = 0" using one [of b] d by (simp add: asks_def)
    then show ?thesis using same False by (simp add: pending_def)
  qed
qed

lemma request_pending:
  assumes comm: "mpi_comm E chan posted" and ok: "local_ok E chan posted k ranks p n" and ample: "mem_ample E"
    and run: "CIRCLE_request_work E p n cleanup = Inr (rc, p', n')" and rand: "\<And>s. 0 \<le> fst (rand_r E s)"
    and one: "\<And>b. pending (chan n) (rank p) b = asks p b"
  shows "rank p' = rank p \<and> pending (chan n') (rank p) b = asks p' b
    \<and> (a \<noteq> rank p \<longrightarrow> pending (chan n') a b = pending (chan n) a b)"
proof -
  obtain free p1 n1 where t: "(if work_request_req p \<noteq> MPI_REQUEST_NULL
            then (case MPI_Test E n (work_request_req p) of (flag, req, n) \<Rightarrow> (flag, p\<lparr>work_request_req := req\<rparr>, n))
            else (True, p, n)) = (free, p1, n1)" by (metis prod_cases3)
  have p1: "p1 = p\<lparr>work_request_req := work_request_req p1\<rparr>" and sd: "side chan posted (rank p) n n1"
    using t mpi_comm.side_test [OF comm _ local_okD(3) [OF ok]] by (auto split: if_splits prod.splits)
  obtain r0 where r0: "p1 = p\<lparr>work_request_req := r0\<rparr>" using p1 by blast
  have e1: "effect E chan posted k ranks False (p, n, False) (p1, n1, False)"
    using local_okD(1) [OF ok] sd r0
    by (intro effect.quiet) (auto simp: silent_def same_wave_def wave_part_def proc_inv_def idle_def)
  note ok1 = effect_local_ok [OF e1 ok]
  have same: "rank p1 = rank p" "asks p1 b = asks p b" "pending (chan n1) a b = pending (chan n) a b" for a b
    using sd r0 by (simp_all add: asks_def pending_def side_def)
  note run1 = run [unfolded CIRCLE_request_work_def t]
  have "rank p' = rank p1 \<and> pending (chan n') (rank p1) b = asks p' b
    \<and> (a \<noteq> rank p1 \<longrightarrow> pending (chan n') a b = pending (chan n1) a b)"
  proof (cases "work_requested p1 \<noteq> 0")
    case True
    obtain po n2 where pr: "mpi_iprobe E n1 (rank p1) (work_requested_rank p1) CIRCLE_TAG_WORK_REPLY = (po, n2)" by fastforce
    show ?thesis
    proof (cases po)
      case None
      then have "p' = p1" "chan n' = chan n1" using run1 True pr mpi_comm.probe_keeps [OF comm pr] by simp_all
      then show ?thesis using same one by simp
    next
      case (Some status)
      then obtain p2 where r: "CIRCLE_work_receive E p1 n2 (work_requested_rank p1) (MPI_COUNT status) = Inr (rc, p2, n')"
          "p' = p2\<lparr>work_requested := 0\<rparr>"
        using run1 True pr by (auto simp: outcome)
      have o: "pending (chan n1) (rank p1) b = asks p1 b" for b using same one by simp
      note rp = reply_pending [OF comm ok1 ample True refl pr [unfolded Some] r(1) o]
      then show ?thesis using r(2) by (simp add: asks_def)
    qed
  next
    case nowait: False
    then have none: "pending (chan n1) (rank p1) b = 0" for b using same one by (metis asks_def)
    show ?thesis
    proof (cases "\<not> cleanup \<and> CIRCLE_ABORT_FLAG p1 = 0 \<and> free \<and> next_processor p1 \<noteq> MPI_PROC_NULL E")
      case False
      then have "p' = p1" "n' = n1" using run1 nowait by (auto split: if_splits)
      then show ?thesis using none nowait by (simp add: asks_def)
    next
      case True
      define p2 where "p2 = p1\<lparr>local_work_requested := local_work_requested p1 + 1\<rparr>"
      obtain r n2 where s: "mpi_isend E n1 (rank p1) (next_processor p1) CIRCLE_TAG_WORK_REQUEST (Bytes []) = (r, n2)" by fastforce
      from run1 nowait True s obtain p3 where
        g: "CIRCLE_get_next_proc E (p2\<lparr>work_request_req := MPI_Req r, work_requested := 1, work_requested_rank := next_processor p1\<rparr>) = Inr p3"
        and fin: "p' = p3" "n' = n2"
        by (auto simp: outcome Let_def p2_def)
      obtain x y where "p3 = (p2\<lparr>work_request_req := MPI_Req r, work_requested := 1, work_requested_rank := next_processor p1\<rparr>)
          \<lparr>next_processor := x, seed := y\<rparr>" using get_next_proc_run(1) [OF g rand] by blast
      then have p3: "rank p3 = rank p1" "work_requested p3 = 1" "work_requested_rank p3 = next_processor p1"
        by (simp_all add: p2_def)
      have c: "chan n' = (chan n1)((rank p1, next_processor p1, CIRCLE_TAG_WORK_REQUEST) :=
          chan n1 (rank p1, next_processor p1, CIRCLE_TAG_WORK_REQUEST) @ [Bytes []])"
        using mpi_comm.isend_adds [OF comm s] fin(2) by simp
      have "pending (chan n') (rank p1) b = asks p' b"
        using none [of b] p3 fin(1) by (simp add: pending_def asks_def c)
      moreover have "a \<noteq> rank p1 \<Longrightarrow> pending (chan n') a b = pending (chan n1) a b" by (simp add: pending_def c)
      ultimately show ?thesis using p3(1) fin(1) by simp
    qed
  qed
  then show ?thesis using same by simp
qed

text \<open>Every step of the system.\<close>

definition balanced :: "('n \<Rightarrow> channel \<Rightarrow> payload list) \<Rightarrow> int \<Rightarrow> ('u, 'n) system \<Rightarrow> bool" where
  "balanced chan ranks s \<longleftrightarrow>
     (\<forall>i \<in> {0..<ranks}. rank (procs s i) = i \<and> (\<forall>b. pending (chan (net s)) i b = asks (procs s i) b))"

lemma move_balanced:
  assumes env: "env_ok E chan posted" and ok: "local_ok E chan posted k ranks (procs s i) (net s)"
    and bal: "balanced chan ranks s" and i: "i \<in> {0..<ranks}" and mv: "move E cleanup a (procs s i) (net s) p' n' leave"
    and s': "procs s' = (procs s)(i := p')" "net s' = n'"
  shows "balanced chan ranks s'"
proof -
  have comm: "mpi_comm E chan posted" and ample: "mem_ample E" and rand: "\<And>s. 0 \<le> fst (rand_r E s)"
    using env by (simp_all add: env_ok_def)
  have me: "rank (procs s i) = i" and one: "pending (chan (net s)) (rank (procs s i)) b = asks (procs s i) b" for b
    using bal i by (auto simp: balanced_def)
  have "rank p' = i \<and> pending (chan n') i b = asks p' b \<and> (j \<noteq> i \<longrightarrow> pending (chan n') j b = pending (chan (net s)) j b)" for j b
    using mv
  proof cases
    case serve
    from serve_pending [OF comm ample proc_invD(2) [OF local_okD(1) [OF ok]] serve(3)] one me show ?thesis by simp
  next
    case (request rc)
    from request_pending [OF comm ok ample request(4) rand one] me show ?thesis by simp
  qed (use move_aside [OF env ok mv] one me in \<open>simp_all add: aside_def pending_def asks_def\<close>)
  then show ?thesis using bal by (auto simp: balanced_def s')
qed

lemma reach_balanced:
  assumes "reach E ranks s s'" and env: "env_ok E chan posted" and k: "0 < k" and inv: "sys_inv E chan posted k ranks s"
    and "balanced chan ranks s"
  shows "balanced chan ranks s'"
  using assms(1)
proof induction
  case start
  then show ?case using assms(5) by simp
next
  case (step s' a s'')
  have gl: "glob E chan posted k ranks (procs s') (net s') (left_loop s')"
    using reach_inv [OF step(1) env k inv] by (simp add: sys_inv_def)
  note ok = glob_proc(2) [OF gl]
  show ?case
    using step(2)
  proof cases
    case (work i p' n' leave)
    show ?thesis by (rule move_balanced [OF env ok [OF work(2)] step(3) work(2,4)]) (simp_all add: work(1))
  next
    case (drain i p' n' leave)
    show ?thesis by (rule move_balanced [OF env ok [OF drain(2)] step(3) drain(2,4)]) (simp_all add: drain(1))
  qed
qed

lemma sys_start_balanced:
  assumes st: "sys_start E chan posted k ranks s" and env: "env_ok E chan posted" and k: "0 < k"
    and small: "ranks * k \<le> INT32_MAX"
  shows "balanced chan ranks s"
proof -
  have empty: "chan (net s) key = []" "posted (net s) = {}" for key
    using st unfolding sys_start_def by blast+
  have "rank (procs s i) = i \<and> work_requested (procs s i) = 0" if i: "i \<in> {0..<ranks}" for i
  proof -
    have s: "started E k ranks i (procs s i)" using st i by (simp add: sys_start_def)
    obtain p0 n0 p1 n1 where p: "tree_width (input p0) = k" "CIRCLE_init_local_state E i ranks p0 n0 = Inr (p1, n1)"
        "run_create E p1 = Inr (procs s i)"
      using s unfolding started_def by blast
    have "0 \<le> i" "i < ranks" "mem_ample E" "0 \<le> fst (rand_r E t)" for t using i env by (simp_all add: env_ok_def)
    note ini = init_local_state_run(5) [OF p(2) this(1,2) k p(1) small this(3,4)]
    have "procs s i = p1 \<or> only_user p1 (procs s i)"
      using p(3) run_callback_only by (auto simp: run_create_def split: if_splits option.splits)
    then have "work_requested (procs s i) = 0" using ini only_user_same [of p1 "procs s i"] by auto
    then show ?thesis using started_ok(2) [OF s env k i small empty] by simp
  qed
  then show ?thesis using empty by (simp add: balanced_def pending_def asks_def)
qed

section \<open>The property\<close>

text \<open>Rank 1 asks rank 0 for work and is sent some.\<close>

lemma demo_exchange:
  "case CIRCLE_request_work fifo_mpi (demo_proc (small_queue\<lparr>count := 0\<rparr>) 1) (quiet_net 2) False of
     Inr (rc, p1, n1) \<Rightarrow> work_requested p1 = 1 \<and> work_requested_rank p1 = 0
       \<and> f_chan n1 (1, 0, CIRCLE_TAG_WORK_REQUEST) = [Bytes []]
       \<and> (case CIRCLE_workreq_check fifo_mpi (demo_proc small_queue 0) n1 False of
            Inr (p0, n0) \<Rightarrow> f_chan n0 (1, 0, CIRCLE_TAG_WORK_REQUEST) = [] | Inl _ \<Rightarrow> False)
   | Inl _ \<Rightarrow> False"
  by code_simp

text \<open>
  C5. Every request for work is answered exactly once, and there is one at a time. In every state the system can
  reach, between a process and any rank the requests and answers under way add up to one if the process waits for an answer from that
  rank, and to none otherwise: no request is lost, left unanswered by \<open>CIRCLE_workreq_check\<close> or answered twice, whether by work
  or by a refusal, and no answer arrives that nobody waits for.
\<close>

theorem one_answer_per_request:
  assumes "env_ok E chan posted" and "0 < k" and "0 < ranks" and "ranks * k \<le> INT32_MAX"
    and "sys_start E chan posted k ranks s0" and "reach E ranks s0 s" and "i \<in> {0..<ranks}"
  shows "length (chan (net s) (i, d, CIRCLE_TAG_WORK_REQUEST)) + answers (chan (net s) (d, i, CIRCLE_TAG_WORK_REPLY))
    = (if work_requested (procs s i) \<noteq> 0 \<and> work_requested_rank (procs s i) = d then 1 else 0)"
proof -
  have "balanced chan ranks s"
    by (rule reach_balanced [OF assms(6,1,2) sys_start_inv [OF assms(5,1-4)] sys_start_balanced [OF assms(5,1,2,4)]])
  then show ?thesis using assms(7) by (simp add: balanced_def pending_def asks_def)
qed

theorem one_answer_per_request_witness:
  "\<exists>s. reach fifo_mpi 2 (demo_start small_queue) s \<and> work_requested (procs s 1) = 1
     \<and> answers (f_chan (net s) (0, 1, CIRCLE_TAG_WORK_REPLY)) = 1"
proof -
  let ?q = "small_queue\<lparr>count := 0\<rparr>" and ?s0 = "demo_start small_queue"
  obtain rc p1 n1 p0 n0 where
    r: "CIRCLE_request_work fifo_mpi (demo_proc ?q 1) (quiet_net 2) False = Inr (rc, p1, n1)"
      "CIRCLE_workreq_check fifo_mpi (demo_proc small_queue 0) n1 False = Inr (p0, n0)"
      "work_requested p1 = 1" "work_requested_rank p1 = 0" "f_chan n0 (1, 0, CIRCLE_TAG_WORK_REQUEST) = []"
    using demo_exchange by (elim returnsE) (clarsimp elim!: returnsE)
  let ?s1 = "?s0\<lparr>procs := (procs ?s0)(1 := p1), net := n1, phase := (phase ?s0)(1 := Working)\<rparr>"
  let ?s2 = "?s1\<lparr>procs := (procs ?s1)(0 := p0), net := n0, phase := (phase ?s1)(0 := Working)\<rparr>"
  have "sys_step fifo_mpi 2 Request ?s0 ?s1"
    using sys_step.work [of 1 2 ?s0 fifo_mpi Request p1 n1 False] move.request [OF _ r(1)] demo_detects(3)
    by (simp add: demo_start_def)
  moreover have "sys_step fifo_mpi 2 Serve ?s1 ?s2"
    using sys_step.work [of 0 2 ?s1 fifo_mpi Serve p0 n0 False] move.serve [OF r(2)]
    by (simp add: demo_start_def)
  ultimately have reach: "reach fifo_mpi 2 ?s0 ?s2" by (blast intro: reach.intros)
  have "length (f_chan (net ?s2) (1, 0, CIRCLE_TAG_WORK_REQUEST)) + answers (f_chan (net ?s2) (0, 1, CIRCLE_TAG_WORK_REPLY)) = 1"
    using one_answer_per_request [OF fifo_env_ok _ _ _ demo_sys_start reach, of 1 0] r(3,4) by (simp add: INT32_MAX_def)
  then have "answers (f_chan (net ?s2) (0, 1, CIRCLE_TAG_WORK_REPLY)) = 1" using r(5) by simp
  moreover have "work_requested (procs ?s2 1) = 1" using r(3) by simp
  ultimately show ?thesis using reach by blast
qed

section \<open>The table of those who ask\<close>

definition askers :: "(channel \<Rightarrow> payload list) \<Rightarrow> int \<Rightarrow> int set" where
  "askers c me = {s. c (s, me, CIRCLE_TAG_WORK_REQUEST) \<noteq> []}"

lemma workreq_loop_total:
  assumes comm: "mpi_comm E chan posted"
    and "requests_ok (chan n)" and "\<And>s. length (chan n (s, me, CIRCLE_TAG_WORK_REQUEST)) \<le> 1"
    and "askers (chan n) me \<subseteq> {0..<ranks}" and "reqs = Some xs" and "int (length xs) = ranks"
    and "int c + int (card (askers (chan n) me)) \<le> ranks"
  shows "\<exists>reqs' c' n'. workreq_loop E me n reqs c = Inr (reqs', c', n') \<and> int c' \<le> ranks"
  using assms(2-7)
proof (induction "card (askers (chan n) me)" arbitrary: n reqs xs c rule: less_induct)
  case less
  note unf = workreq_loop.simps [of E me n reqs c]
  obtain po n1 where pr: "mpi_iprobe E n me (MPI_ANY_SOURCE E) CIRCLE_TAG_WORK_REQUEST = (po, n1)" by fastforce
  show ?case
  proof (cases po)
    case None
    then show ?thesis using pr less.prems(6) by (subst unf) simp
  next
    case (Some status)
    define d where "d = MPI_SOURCE status"
    from mpi_comm.recv_after_probe [OF comm pr [unfolded Some]] obtain m ms n2 where
      m: "chan n (d, me, CIRCLE_TAG_WORK_REQUEST) = m # ms" "MPI_Recv E n1 me d CIRCLE_TAG_WORK_REQUEST = Inr (m, n2)"
        "chan n2 = (chan n)((d, me, CIRCLE_TAG_WORK_REQUEST) := ms)" unfolding d_def by blast
    have "m = Bytes []" using less.prems(1) m(1) unfolding requests_ok_def by (metis list.set_intros(1))
    then have r: "recv_empty E n1 me d CIRCLE_TAG_WORK_REQUEST = Inr n2" using m(2) by (simp add: recv_eqs)
    have ms: "ms = []" using less.prems(2) [of d] m(1) by simp
    have fin: "finite (askers (chan n) me)" using less.prems(3) finite_subset by blast
    have mem: "d \<in> askers (chan n) me" using m(1) by (simp add: askers_def)
    have less': "askers (chan n2) me = askers (chan n) me - {d}" using m(3) ms by (auto simp: askers_def)
    have card: "card (askers (chan n) me) = Suc (card (askers (chan n2) me))"
      using fin mem unfolding less' by (metis card.remove)
    have c: "c < length xs" using less.prems(5,6) card by simp
    then have set: "arr_set reqs (int c) d = Inr (Some (xs[c := d]))" using less.prems(4) by simp
    have "\<exists>reqs' c' n'. workreq_loop E me n2 (Some (xs[c := d])) (Suc c) = Inr (reqs', c', n') \<and> int c' \<le> ranks"
    proof (rule less.hyps [where xs = "xs[c := d]"])
      show "requests_ok (chan n2)" using less.prems(1) m(3) ms by (simp add: requests_ok_def)
      show "length (chan n2 (s, me, CIRCLE_TAG_WORK_REQUEST)) \<le> 1" for s using less.prems(2) m(3) ms by simp
    qed (use card less.prems(3,5,6) less' in auto)
    then show ?thesis using pr Some r set by (subst unf) (simp add: d_def [symmetric])
  qed
qed

text \<open>
  C7. The table of requestors never overflows. \<open>CIRCLE_workreq_check\<close> writes every request it finds into a table with
  one entry for each rank, without a test. In every state the system can reach, at every process, its loop returns: it never
  writes outside the table, because no rank has two requests under way, and it finds at most as many requests as there are ranks.
\<close>

theorem requestors_suffice:
  assumes "env_ok E chan posted" and "0 < k" and "0 < ranks" and "ranks * k \<le> INT32_MAX"
    and "sys_start E chan posted k ranks s0" and "reach E ranks s0 s" and "i \<in> {0..<ranks}"
  shows "\<exists>reqs c n'. workreq_loop E i (net s) (requestors (procs s i)) 0 = Inr (reqs, c, n') \<and> int c \<le> ranks"
proof -
  note start = sys_start_inv [OF assms(5,1-4)]
  have gl: "glob E chan posted k ranks (procs s) (net s) (left_loop s)"
    using reach_inv [OF assms(6,1,2) start] by (simp add: sys_inv_def)
  note lok = local_okD [OF glob_proc(2) [OF gl assms(7)]]
  have bal: "balanced chan ranks s"
    by (rule reach_balanced [OF assms(6,1,2) start sys_start_balanced [OF assms(5,1,2,4)]])
  have sub: "askers (chan (net s)) i \<subseteq> {0..<ranks}"
  proof
    fix j assume "j \<in> askers (chan (net s)) i"
    then obtain m ms where "chan (net s) (j, i, CIRCLE_TAG_WORK_REQUEST) = m # ms" by (auto simp: askers_def neq_Nil_conv)
    then show "j \<in> {0..<ranks}" using source_in_range [OF lok(4)] by simp
  qed
  have one: "length (chan (net s) (j, i, CIRCLE_TAG_WORK_REQUEST)) \<le> 1" for j
  proof (cases "j \<in> askers (chan (net s)) i")
    case True
    then have "pending (chan (net s)) j i = asks (procs s j) i" using sub bal by (auto simp: balanced_def)
    then show ?thesis by (auto simp: pending_def asks_def split: if_splits)
  qed (simp add: askers_def)
  obtain xs where xs: "requestors (procs s i) = Some xs" "int (length xs) = ranks"
    using lok(8) assms(3) by (cases "requestors (procs s i)") auto
  have "card (askers (chan (net s)) i) \<le> nat ranks" using card_mono [OF _ sub] by simp
  then have fits: "int 0 + int (card (askers (chan (net s)) i)) \<le> ranks" using assms(3) by linarith
  have comm: "mpi_comm E chan posted" using assms(1) by (simp add: env_ok_def)
  show ?thesis by (rule workreq_loop_total [OF comm lok(9) one sub xs fits])
qed

theorem requestors_suffice_witness:
  "\<exists>(s :: (unit, fifo_net) system) reqs c n'. f_chan (net s) (1, 0, CIRCLE_TAG_WORK_REQUEST) = [Bytes []]
     \<and> workreq_loop fifo_mpi 0 (net s) (requestors (procs s 0)) 0 = Inr (reqs, c, n') \<and> int c \<le> 2"
proof -
  let ?s0 = "demo_start small_queue"
  obtain rc p1 n1 where
    r: "CIRCLE_request_work fifo_mpi (demo_proc (small_queue\<lparr>count := 0\<rparr>) 1) (quiet_net 2) False = Inr (rc, p1, n1)"
      "f_chan n1 (1, 0, CIRCLE_TAG_WORK_REQUEST) = [Bytes []]"
    using demo_exchange by (elim returnsE) (clarsimp elim!: returnsE)
  let ?s1 = "?s0\<lparr>procs := (procs ?s0)(1 := p1), net := n1, phase := (phase ?s0)(1 := Working)\<rparr>"
  have "sys_step fifo_mpi 2 Request ?s0 ?s1"
    using sys_step.work [of 1 2 ?s0 fifo_mpi Request p1 n1 False] move.request [OF _ r(1)] demo_detects(3)
    by (simp add: demo_start_def)
  then have "reach fifo_mpi 2 ?s0 ?s1" by (blast intro: reach.intros)
  from requestors_suffice [OF fifo_env_ok _ _ _ demo_sys_start this, of 0]
  obtain reqs c n' where "workreq_loop fifo_mpi 0 (net ?s1) (requestors (procs ?s1 0)) 0 = Inr (reqs, c, n') \<and> int c \<le> 2"
    by (auto simp: INT32_MAX_def)
  moreover have "f_chan (net ?s1) (1, 0, CIRCLE_TAG_WORK_REQUEST) = [Bytes []]" using r(2) by simp
  ultimately show ?thesis by blast
qed

end
