(* ===== verification/Ring.thy ===== *)
theory Ring
  imports Init
begin

text \<open>
  Complete runs of the loops on a concrete network, for termination by the token ring (the
  default; the tree has to be asked for). The token passes over work that is still on its way: the
  ring looks at the colour of each process when the token leaves it, and nothing in it counts
  the messages under way, as the receipts do for the tree.
\<close>

section \<open>Passes of the loops\<close>

text \<open>
  The processes, the network, and the ranks that have left the loop. A schedule lists the ranks
  in the order in which they make one whole pass of the loop; a rank that has left cannot.
\<close>

type_synonym ranks_state = "unit proc list \<times> fifo_net \<times> nat list"

fun passes ::
  "(unit proc \<Rightarrow> fifo_net \<Rightarrow> (bool \<times> unit proc \<times> fifo_net) result) \<Rightarrow> nat list \<Rightarrow> ranks_state \<Rightarrow> ranks_state option" where
  "passes body [] s = Some s"
| "passes body (i # is) (ps, n, gone) =
     (if i \<in> set gone \<or> length ps \<le> i then None else
      case body (ps ! i) n of
        Inl e \<Rightarrow> None
      | Inr (leave, p, n) \<Rightarrow> passes body is (ps[i := p], n, if leave then i # gone else gone))"

text \<open>
  A program whose \<open>process_cb\<close> takes one item off the queue. Rank 0 has two items, the others have no work; the
  tables of offsets are large enough for the run.
\<close>

definition two_items :: CIRCLE_internal_queue_t where
  "two_items = small_queue\<lparr>strings := Some [0, 4, 0, 0, 0, 0], str_count := 6\<rparr>"

lemma two_items_wf: "queue_wf fifo_mpi two_items" "items two_items = [''ab'', ''c'']"
  by code_simp+

fun start_procs :: "int \<Rightarrow> nat \<Rightarrow> nat list \<Rightarrow> fifo_net \<Rightarrow> unit proc list option" where
  "start_procs opts np [] n = Some []"
| "start_procs opts np (i # is) n =
     (case CIRCLE_init_local_state fifo_mpi (int i) (int np)
        ((small_proc (int np) (int i) (if i = 0 then two_items else two_items\<lparr>count := 0\<rparr>))
          \<lparr>input := consumer_input opts\<rparr>) n of
        Inl e \<Rightarrow> None
      | Inr (p, n) \<Rightarrow> map_option (\<lambda>ps. p # ps) (start_procs opts np is n))"

text \<open>Both loops of \<open>CIRCLE_work_loop\<close>; between them the messages that were delayed arrive.\<close>

definition run_loops :: "int \<Rightarrow> nat \<Rightarrow> channel list \<Rightarrow> nat list \<Rightarrow> nat list \<Rightarrow> (ranks_state \<times> ranks_state) option" where
  "run_loops opts np delayed main clean =
     (let n = (quiet_net np)\<lparr>f_deaf := delayed\<rparr>
      in case start_procs opts np [0..<np] n of
           None \<Rightarrow> None
         | Some ps \<Rightarrow> (case passes (work_iteration fifo_mpi) main (ps, n, []) of
             None \<Rightarrow> None
           | Some (ps, n, gone) \<Rightarrow> map_option (Pair (ps, n, gone))
               (passes (cleanup_iteration fifo_mpi) clean (ps, n\<lparr>f_deaf := []\<rparr>, []))))"

section \<open>Work is lost\<close>

text \<open>
  C9. Termination by the token ring is not safe. With the default options, three ranks and two items on rank
  0, there is an order of the passes in which rank 0 answers the request of rank 2 with an item, its message
  takes longer than three hops of the token, and the ring detects termination: every rank leaves its main loop
  with the item under way. It arrives in the cleanup phase, and every rank finishes the run with the item
  still in the queue of rank 2, unprocessed, without any abort. (Compare C1 for termination by the tree.)
\<close>

theorem ring_loses_work:
  "case run_loops CIRCLE_SPLIT_EQUAL 3 [(0, 2, CIRCLE_TAG_WORK_REPLY)] [2, 0, 0, 0, 1, 1, 2, 2, 0, 1, 2]
      [0, 1, 2, 0, 1, 2, 0, 1, 2, 0, 1, 2] of
     None \<Rightarrow> False
   | Some ((ps, n, gone), (ps', n', gone')) \<Rightarrow>
       gone = [2, 1, 0] \<and> f_chan n (0, 2, CIRCLE_TAG_WORK_REPLY) \<noteq> []
       \<and> gone' = [2, 1, 0] \<and> map CIRCLE_ABORT_FLAG ps' = [0, 0, 0] \<and> map (\<lambda>p. items (queue p)) ps' = [[], [], [''c'']]"
  by code_simp

end
