(* ===== verification/TokenRing.thy ===== *)
theory TokenRing
  imports Init
begin

text \<open>
  The token of the ring as a conserved quantity: it is at one process or on its way between two
  neighbours, never lost and never doubled. What it does not tell is shown in theory \<open>Ring\<close>.
\<close>

section \<open>The ring\<close>

text \<open>A process wired into the ring of \<open>ranks\<close> processes, and the number of tokens at processes and under way.\<close>

definition wired :: "int \<Rightarrow> int \<Rightarrow> 'u proc \<Rightarrow> bool" where
  "wired ranks i p \<longleftrightarrow> rank p = i \<and> comm_size p = ranks \<and> token_src p = (i - 1) mod ranks
     \<and> token_dest p = (i + 1) mod ranks \<and> (token_is_local p = 0 \<or> token_is_local p = 1)"

definition at_ranks :: "int \<Rightarrow> (int \<Rightarrow> 'u proc) \<Rightarrow> int" where
  "at_ranks ranks ps = (\<Sum>i \<in> {0..<ranks}. token_is_local (ps i))"

definition on_wire :: "int \<Rightarrow> (channel \<Rightarrow> payload list) \<Rightarrow> int" where
  "on_wire ranks c = (\<Sum>i \<in> {0..<ranks}. int (length (c (i, (i + 1) mod ranks, CIRCLE_TAG_TOKEN))))"

text \<open>A change of one process and of the network that has nothing to do with the token, except that the
  process may turn black (it has sent work back) or abort.\<close>

definition off_ring :: "('n \<Rightarrow> channel \<Rightarrow> payload list) \<Rightarrow> ('n \<Rightarrow> channel set) \<Rightarrow> 'u proc \<Rightarrow> 'n \<Rightarrow> 'u proc \<Rightarrow> 'n \<Rightarrow> bool" where
  "off_ring chan posted p n p' n' \<longleftrightarrow> rank p' = rank p \<and> comm_size p' = comm_size p \<and> token_src p' = token_src p
     \<and> token_dest p' = token_dest p \<and> token_is_local p' = token_is_local p
     \<and> (token_proc p' = token_proc p \<or> token_proc p' = BLACK)
     \<and> (CIRCLE_ABORT_FLAG p \<noteq> 0 \<longrightarrow> CIRCLE_ABORT_FLAG p' \<noteq> 0)
     \<and> (\<forall>s d. chan n' (s, d, CIRCLE_TAG_TOKEN) = chan n (s, d, CIRCLE_TAG_TOKEN))
     \<and> (net_ok posted n \<longrightarrow> net_ok posted n')"

inductive ring_step ::
  "('n, 'z) mpi_scheme \<Rightarrow> ('n \<Rightarrow> channel \<Rightarrow> payload list) \<Rightarrow> ('n \<Rightarrow> channel set) \<Rightarrow> int \<Rightarrow>
     (int \<Rightarrow> 'u proc) \<times> 'n \<Rightarrow> (int \<Rightarrow> 'u proc) \<times> 'n \<Rightarrow> bool" for E chan posted ranks where
  check: "i \<in> {0..<ranks} \<Longrightarrow> CIRCLE_check_for_term E (ps i) n = Inr (status, p', n') \<Longrightarrow>
    ring_step E chan posted ranks (ps, n) (ps(i := p'), n')"
| drain: "i \<in> {0..<ranks} \<Longrightarrow> CIRCLE_token_check E (ps i) n = Inr (p', n') \<Longrightarrow>
    ring_step E chan posted ranks (ps, n) (ps(i := p'), n')"
| other: "i \<in> {0..<ranks} \<Longrightarrow> off_ring chan posted (ps i) n p' n' \<Longrightarrow>
    ring_step E chan posted ranks (ps, n) (ps(i := p'), n')"

definition one_token ::
  "('n \<Rightarrow> channel \<Rightarrow> payload list) \<Rightarrow> ('n \<Rightarrow> channel set) \<Rightarrow> int \<Rightarrow> (int \<Rightarrow> 'u proc) \<times> 'n \<Rightarrow> bool" where
  "one_token chan posted ranks s \<longleftrightarrow> (\<forall>i \<in> {0..<ranks}. wired ranks i (fst s i)) \<and> net_ok posted (snd s)
     \<and> at_ranks ranks (fst s) + on_wire ranks (chan (snd s)) = 1"

section \<open>One token\<close>

lemma at_ranks_update:
  "i \<in> {0..<ranks} \<Longrightarrow> at_ranks ranks (ps(i := p)) = at_ranks ranks ps - token_is_local (ps i) + token_is_local p"
  unfolding at_ranks_def by (subst sum_update1 [of "{0..<ranks}" i _ "\<lambda>j. token_is_local (ps j)"]) simp_all

lemma on_wire_update:
  assumes "i \<in> {0..<ranks}"
  shows "on_wire ranks (c((i, (i + 1) mod ranks, CIRCLE_TAG_TOKEN) := ms))
    = on_wire ranks c - int (length (c (i, (i + 1) mod ranks, CIRCLE_TAG_TOKEN))) + int (length ms)"
  unfolding on_wire_def
  by (subst sum_update1 [of "{0..<ranks}" i _ "\<lambda>j. int (length (c (j, (j + 1) mod ranks, CIRCLE_TAG_TOKEN)))"])
    (use assms in simp_all)

lemma on_wire_same:
  "(\<And>s d. c' (s, d, CIRCLE_TAG_TOKEN) = c (s, d, CIRCLE_TAG_TOKEN)) \<Longrightarrow> on_wire ranks c' = on_wire ranks c"
  by (simp add: on_wire_def)

lemma on_wire_nonneg: "0 \<le> on_wire ranks c"
  unfolding on_wire_def by (rule sum_nonneg) simp

lemma local_le_at_ranks:
  assumes "\<forall>i \<in> {0..<ranks}. wired ranks i (ps i)" and "i \<in> {0..<ranks}"
  shows "token_is_local (ps i) \<le> at_ranks ranks ps" "0 \<le> at_ranks ranks ps"
proof -
  have nn: "0 \<le> token_is_local (ps j)" if "j \<in> {0..<ranks}" for j
    using assms(1) that unfolding wired_def by fastforce
  show "token_is_local (ps i) \<le> at_ranks ranks ps"
    unfolding at_ranks_def
    by (rule member_le_sum [of i "{0..<ranks}" "\<lambda>i. token_is_local (ps i)"]) (use assms(2) nn in auto)
  show "0 \<le> at_ranks ranks ps" unfolding at_ranks_def by (rule sum_nonneg) (rule nn)
qed

lemma wire_le_on_wire:
  assumes "i \<in> {0..<ranks}"
  shows "int (length (c (i, (i + 1) mod ranks, CIRCLE_TAG_TOKEN))) \<le> on_wire ranks c"
  unfolding on_wire_def
  by (rule member_le_sum [of i "{0..<ranks}" "\<lambda>i. int (length (c (i, (i + 1) mod ranks, CIRCLE_TAG_TOKEN)))"])
    (use assms in simp_all)

text \<open>What a process and the network have of the token, and a handler that moves it around.\<close>

definition shifts ::
  "('n \<Rightarrow> channel \<Rightarrow> payload list) \<Rightarrow> ('n \<Rightarrow> channel set) \<Rightarrow> int \<Rightarrow> 'u proc \<Rightarrow> 'n \<Rightarrow> 'u proc \<Rightarrow> 'n \<Rightarrow> bool" where
  "shifts chan posted ranks p n p' n' \<longleftrightarrow> wired ranks (rank p) p'
     \<and> token_is_local p' + on_wire ranks (chan n') = token_is_local p + on_wire ranks (chan n)
     \<and> (net_ok posted n \<longrightarrow> net_ok posted n')"

lemma shifts_step:
  assumes "shifts chan posted ranks (ps i) n p' n'" and "i \<in> {0..<ranks}" and "one_token chan posted ranks (ps, n)"
  shows "one_token chan posted ranks (ps(i := p'), n')"
  using assms by (auto simp: shifts_def one_token_def at_ranks_update wired_def)

lemma off_ring_shifts:
  assumes "off_ring chan posted p n p' n'" and "wired ranks (rank p) p"
  shows "shifts chan posted ranks p n p' n'"
  using assms on_wire_same [of "chan n'" "chan n" ranks] by (auto simp: off_ring_def shifts_def wired_def)

context mpi_comm
begin

lemma token_issend_shifts:
  assumes run: "CIRCLE_token_issend E p n = (p', n')" and w: "wired ranks (rank p) p" and r: "rank p \<in> {0..<ranks}"
    and here: "token_is_local p = 1"
  shows "shifts chan posted ranks p n p' n'"
proof (cases "CIRCLE_ABORT_FLAG p = 0")
  case False
  then show ?thesis using run w by (simp add: CIRCLE_token_issend_def shifts_def)
next
  case True
  obtain rq n1 where s: "mpi_issend E n (rank p) (token_dest p) CIRCLE_TAG_TOKEN (Ints [token_buf p]) = (rq, n1)"
    by fastforce
  have p: "p' = p\<lparr>token_send_req := MPI_Req rq, token_is_local := 0\<rparr>" "n' = n1"
    using run True s by (simp_all add: CIRCLE_token_issend_def)
  have "chan n' = (chan n)((rank p, (rank p + 1) mod ranks, CIRCLE_TAG_TOKEN) :=
      chan n (rank p, (rank p + 1) mod ranks, CIRCLE_TAG_TOKEN) @ [Ints [token_buf p]])" "posted n' = posted n"
    using issend_adds [OF s] p(2) w by (simp_all add: wired_def)
  then show ?thesis using w here p(1) by (simp add: shifts_def on_wire_update [OF r] wired_def net_ok_def)
qed

lemma shifts_trans:
  "shifts chan posted ranks p n p1 n1 \<Longrightarrow> shifts chan posted ranks p1 n1 p2 n2 \<Longrightarrow> shifts chan posted ranks p n p2 n2"
  by (auto simp: shifts_def wired_def)

end

text \<open>The outcome of a receive: the process with the token, or after it has sent the order to terminate on.\<close>

definition with_token :: "'u proc \<Rightarrow> MPI_Request \<Rightarrow> int \<Rightarrow> int \<Rightarrow> 'u proc" where
  "with_token p req buf colour = p\<lparr>token_is_local := 1, token_send_req := req, token_buf := buf, token_proc := colour\<rparr>"

lemma token_recv_cases:
  assumes run: "CIRCLE_token_recv E p n = Inr (p', n')"
  obtains token n1 req n2 buf colour q where
    "recv_int E n (rank p) (token_src p) CIRCLE_TAG_TOKEN = Inr (token, n1)"
    "n2 = n1 \<or> MPI_Wait E n1 (token_send_req p) = Inr (req, n2)"
    "CIRCLE_token_issend E (with_token p req buf colour) n2 = (q, n') \<or> q = with_token p req buf colour \<and> n' = n2"
    "p' = q \<and> n' = n2 \<and> q = with_token p req buf colour \<and> (colour = token_proc p \<or> colour = WHITE)
     \<or> (token = TERMINATE \<or> rank p = 0 \<and> token = WHITE) \<and> p' = q\<lparr>token_proc := TERMINATE\<rparr>"
proof -
  obtain token n1 where m: "recv_int E n (rank p) (token_src p) CIRCLE_TAG_TOKEN = Inr (token, n1)"
    using run by (auto simp: CIRCLE_token_recv_def andThen_eq_Inr)
  obtain req n2 where w: "n2 = n1 \<or> MPI_Wait E n1 (token_send_req p) = Inr (req, n2)"
    and wt: "(if token_send_req p \<noteq> MPI_REQUEST_NULL
       then andThen (MPI_Wait E n1 (token_send_req (p\<lparr>token_is_local := 1\<rparr>))) (\<lambda>(req, n). (Inr :: _ \<Rightarrow> _ result) (p\<lparr>token_is_local := 1, token_send_req := req\<rparr>, n))
       else Inr (p\<lparr>token_is_local := 1\<rparr>, n1)) = Inr (p\<lparr>token_is_local := 1, token_send_req := req\<rparr>, n2)"
  proof (cases "token_send_req p = MPI_REQUEST_NULL")
    case True
    then show ?thesis using that [of n1 MPI_REQUEST_NULL] by simp
  next
    case False
    then obtain rq n3 where "MPI_Wait E n1 (token_send_req p) = Inr (rq, n3)"
      using run m by (auto simp: CIRCLE_token_recv_def Let_def andThen_eq_Inr)
    then show ?thesis using that [of n3 rq] False by simp
  qed
  define colour where "colour = (if token_proc p = BLACK \<and> token = BLACK then WHITE else token_proc p)"
  define fin where "fin \<longleftrightarrow> token = TERMINATE \<or> rank p = 0 \<and> token = WHITE"
  define q where "q = with_token p req (if fin then TERMINATE else token) colour"
  have r: "(if fin then case (if rank p < comm_size p - 1 then CIRCLE_token_issend E q n2 else (q, n2)) of
         (p, n) \<Rightarrow> (Inr :: _ \<Rightarrow> _ result) (p\<lparr>token_proc := TERMINATE\<rparr>, n) else Inr (q, n2)) = Inr (p', n')"
  proof (cases "token_proc p = BLACK \<and> token = BLACK")
    case True
    then have "\<not> fin" "colour = WHITE" by (auto simp: fin_def colour_def)
    then show ?thesis using run m wt True by (simp add: CIRCLE_token_recv_def Let_def q_def with_token_def fin_def)
  next
    case False
    then have c: "colour = token_proc p" by (auto simp: colour_def)
    show ?thesis
    proof (cases "rank p = 0 \<and> token = WHITE")
      case True
      then have f: "fin" by (simp add: fin_def)
      show ?thesis
        using run m wt False f True
        by (cases "rank p < comm_size p - 1") (simp_all add: CIRCLE_token_recv_def Let_def q_def with_token_def c)
    next
      case first: False
      then have f: "fin \<longleftrightarrow> token = TERMINATE" by (auto simp: fin_def)
      show ?thesis
        using run m wt False first
        by (cases "token = TERMINATE"; cases "rank p < comm_size p - 1")
            (auto simp: CIRCLE_token_recv_def Let_def q_def with_token_def c f)
    qed
  qed
  show thesis
  proof (cases "fin \<and> rank p < comm_size p - 1")
    case True
    then show ?thesis using r that [OF m w, of "if fin then TERMINATE else token" colour] by (auto simp: q_def fin_def split: prod.splits)
  next
    case False
    then show ?thesis
      using r that [OF m w, of "if fin then TERMINATE else token" colour q] by (auto simp: q_def fin_def colour_def split: if_splits)
  qed
qed

context mpi_comm
begin

lemma src_next:
  fixes i ranks :: int
  assumes "i \<in> {0..<ranks}"
  shows "(i - 1) mod ranks \<in> {0..<ranks}" "((i - 1) mod ranks + 1) mod ranks = i"
  using assms by (simp_all add: mod_simps)

lemma token_recv_shifts:
  assumes run: "CIRCLE_token_recv E p n = Inr (p', n')" and w: "wired ranks (rank p) p" and r: "rank p \<in> {0..<ranks}"
    and away: "token_is_local p = 0" and ok: "net_ok posted n"
  shows "shifts chan posted ranks p n p' n'"
proof -
  let ?src = "(rank p - 1) mod ranks"
  from token_recv_cases [OF run] obtain token n1 req n2 buf colour q where
    m: "recv_int E n (rank p) ?src CIRCLE_TAG_TOKEN = Inr (token, n1)"
    and wt: "n2 = n1 \<or> MPI_Wait E n1 (token_send_req p) = Inr (req, n2)"
    and q: "CIRCLE_token_issend E (with_token p req buf colour) n2 = (q, n') \<or> q = with_token p req buf colour \<and> n' = n2"
    and p': "p' = q \<or> p' = q\<lparr>token_proc := TERMINATE\<rparr>"
    using w unfolding wired_def by metis
  note src = src_next [OF r]
  obtain ms where ms: "chan n (?src, rank p, CIRCLE_TAG_TOKEN) = Ints [token] # ms"
      "chan n1 = (chan n)((?src, rank p, CIRCLE_TAG_TOKEN) := ms)" "posted n1 = posted n"
    using MPI_Recv_takes m unfolding recv_int_eq by blast
  have ok1: "net_ok posted n1" using ok ms(3) by (simp add: net_ok_def)
  have "chan n2 (s, d, CIRCLE_TAG_TOKEN) = chan n1 (s, d, CIRCLE_TAG_TOKEN)" for s d
    using wt MPI_Wait_keeps [of n1 "token_send_req p" req n2] ok1 by (fastforce simp: net_ok_def)
  moreover have "net_ok posted n2"
    using wt side_net_ok [OF side_keeps [OF ok1 MPI_Wait_keeps] ok1] ok1 by blast
  moreover have "on_wire ranks (chan n1) = on_wire ranks (chan n) - 1"
    using on_wire_update [OF src(1), of "chan n" ms] ms(1) by (simp add: ms(2) src(2))
  ultimately have here: "shifts chan posted ranks p n (with_token p req buf colour) n2"
    using w away on_wire_same [of "chan n2" "chan n1" ranks] by (simp add: shifts_def wired_def with_token_def)
  have "shifts chan posted ranks p n q n'"
    using q
  proof
    assume s: "CIRCLE_token_issend E (with_token p req buf colour) n2 = (q, n')"
    have "shifts chan posted ranks (with_token p req buf colour) n2 q n'"
      by (rule token_issend_shifts [OF s]) (use w r in \<open>simp_all add: with_token_def wired_def\<close>)
    with here show ?thesis by (rule shifts_trans)
  qed (use here in simp)
  with p' show ?thesis by (auto simp: shifts_def wired_def)
qed

text \<open>A probe that hits means that the token is under way, hence not here.\<close>

lemma token_check_shifts:
  assumes run: "CIRCLE_token_check E p n = Inr (p', n')" and one: "one_token chan posted ranks (ps, n)"
    and p: "p = ps i" and i: "i \<in> {0..<ranks}"
  shows "shifts chan posted ranks p n p' n'"
proof -
  have w: "wired ranks (rank p) p" "rank p = i" and ok: "net_ok posted n"
    using one i p by (auto simp: one_token_def wired_def)
  let ?src = "(i - 1) mod ranks"
  obtain po n1 where pr: "mpi_iprobe E n (rank p) (token_src p) CIRCLE_TAG_TOKEN = (po, n1)" by fastforce
  note k = probe_keeps [OF pr]
  show ?thesis
  proof (cases po)
    case None
    then show ?thesis
      using run pr k w by (simp add: CIRCLE_token_check_def shifts_def on_wire_def wired_def net_ok_def)
  next
    case (Some st)
    then have rc: "CIRCLE_token_recv E p n1 = Inr (p', n')" using run pr by (simp add: CIRCLE_token_check_def)
    have "token_src p = ?src" "?src \<noteq> MPI_ANY_SOURCE E"
      using w any_source src_next(1) [OF i] by (auto simp: wired_def)
    then have "MPI_SOURCE st = ?src" using probe_hit [OF pr [unfolded Some]] by simp
    then have "chan n (?src, (?src + 1) mod ranks, CIRCLE_TAG_TOKEN) \<noteq> []"
      using probe_hit [OF pr [unfolded Some]] w(2) src_next(2) [OF i] by auto
    then have "on_wire ranks (chan n) \<ge> 1"
      using wire_le_on_wire [of ?src ranks "chan n"] i by (cases "chan n (?src, (?src + 1) mod ranks, CIRCLE_TAG_TOKEN)") auto
    then have "token_is_local p = 0"
      using one local_le_at_ranks(1) [of ranks ps i] i w p by (auto simp: one_token_def wired_def)
    moreover have "net_ok posted n1" using ok k by (simp add: net_ok_def)
    ultimately have "shifts chan posted ranks p n1 p' n'" using token_recv_shifts [OF rc w(1)] w(2) i by simp
    then show ?thesis using k by (simp add: shifts_def net_ok_def)
  qed
qed

end

section \<open>The steps\<close>

lemma check_for_term_shifts:
  assumes comm: "mpi_comm E chan posted" and run: "CIRCLE_check_for_term E (ps i) n = Inr (status, p', n')"
    and one: "one_token chan posted ranks (ps, n)" and i: "i \<in> {0..<ranks}"
  shows "shifts chan posted ranks (ps i) n p' n'"
proof -
  have w: "wired ranks (rank (ps i)) (ps i)" "rank (ps i) = i"
    using one i by (auto simp: one_token_def wired_def)
  show ?thesis
  proof (cases "token_proc (ps i) = TERMINATE")
    case True
    then show ?thesis using run w by (simp add: CIRCLE_check_for_term_def shifts_def)
  next
    case nt: False
    show ?thesis
    proof (cases "token_is_local (ps i) = 0")
      case True
      then have "CIRCLE_token_check E (ps i) n = Inr (p', n')"
        using run nt by (auto simp: CIRCLE_check_for_term_def andThen_eq_Inr)
      then show ?thesis using mpi_comm.token_check_shifts [OF comm _ one] i by blast
    next
      case False
      define p0 where "p0 = (if rank (ps i) = 0 then (ps i)\<lparr>token_buf := WHITE\<rparr>
          else if token_proc (ps i) = BLACK then (ps i)\<lparr>token_buf := BLACK\<rparr> else ps i)"
      obtain q where q: "CIRCLE_token_issend E p0 n = (q, n')" "p' = q\<lparr>token_proc := WHITE\<rparr>"
        using run nt False by (auto simp: CIRCLE_check_for_term_def andThen_eq_Inr Let_def p0_def split: prod.splits)
      have p0: "rank p0 = i" "wired ranks i p0" "token_is_local p0 = 1" "token_is_local (ps i) = 1"
        using w False by (auto simp: p0_def wired_def)
      have "shifts chan posted ranks p0 n q n'"
        using mpi_comm.token_issend_shifts [OF comm q(1)] p0 i by simp
      then show ?thesis using q(2) p0 w by (auto simp: shifts_def wired_def)
    qed
  qed
qed

lemma ring_step_one_token:
  assumes comm: "mpi_comm E chan posted" and st: "ring_step E chan posted ranks s s'" and one: "one_token chan posted ranks s"
  shows "one_token chan posted ranks s'"
  using st
proof cases
  case (check i ps n status p' n')
  have o: "one_token chan posted ranks (ps, n)" using one check(1) by simp
  show ?thesis
    unfolding check(2)
    by (rule shifts_step [where ps = ps and i = i, OF check_for_term_shifts [where ps = ps and i = i, OF comm check(4) o check(3)] check(3) o])
next
  case (drain i ps n p' n')
  have o: "one_token chan posted ranks (ps, n)" using one drain(1) by simp
  show ?thesis
    unfolding drain(2)
    by (rule shifts_step [where ps = ps and i = i,
          OF mpi_comm.token_check_shifts [where ps = ps and i = i, OF comm drain(4) o refl drain(3)] drain(3) o])
next
  case (other i ps n p' n')
  have o: "one_token chan posted ranks (ps, n)" using one other(1) by simp
  then have "wired ranks (rank (ps i)) (ps i)" using other(3) by (auto simp: one_token_def wired_def)
  then show ?thesis
    unfolding other(2) by (rule shifts_step [where ps = ps and i = i, OF off_ring_shifts [OF other(4)] other(3) o])
qed

lemma ring_steps_one_token:
  assumes comm: "mpi_comm E chan posted" and "(ring_step E chan posted ranks)\<^sup>*\<^sup>* s s'" and "one_token chan posted ranks s"
  shows "one_token chan posted ranks s'"
  using assms(2,3) by induction (blast intro: ring_step_one_token [OF comm])+

text \<open>The start of a run.\<close>

definition ring_start ::
  "('n, 'z) mpi_scheme \<Rightarrow> ('n \<Rightarrow> channel \<Rightarrow> payload list) \<Rightarrow> ('n \<Rightarrow> channel set) \<Rightarrow> int \<Rightarrow> int \<Rightarrow> (int \<Rightarrow> 'u proc) \<times> 'n \<Rightarrow> bool" where
  "ring_start E chan posted k ranks s \<longleftrightarrow> (\<forall>key. chan (snd s) key = []) \<and> posted (snd s) = {}
     \<and> (\<forall>i \<in> {0..<ranks}. \<exists>p0 n0 n1. tree_width (input p0) = k
          \<and> CIRCLE_init_local_state E i ranks p0 n0 = Inr (fst s i, n1))"

lemma ring_start_one_token:
  assumes st: "ring_start E chan posted k ranks s" and ample: "mem_ample E" and rand: "\<And>s. 0 \<le> fst (rand_r E s)"
    and k: "0 < k" and r: "0 < ranks" and small: "ranks * k \<le> INT32_MAX"
  shows "one_token chan posted ranks s" "\<And>i. i \<in> {0..<ranks} \<Longrightarrow> token_proc (fst s i) = WHITE"
proof -
  have ini: "wired ranks i (fst s i) \<and> token_is_local (fst s i) = (if i = 0 then 1 else 0) \<and> token_proc (fst s i) = WHITE"
    if i: "i \<in> {0..<ranks}" for i
  proof -
    obtain p0 n0 n1 where "tree_width (input p0) = k" "CIRCLE_init_local_state E i ranks p0 n0 = Inr (fst s i, n1)"
      using st i unfolding ring_start_def by blast
    with init_local_state_run [OF this(2) _ _ k this(1) small ample rand] i show ?thesis by (simp add: wired_def)
  qed
  have "at_ranks ranks (fst s) = (\<Sum>i \<in> {0..<ranks}. if i = 0 then 1 else 0)"
    unfolding at_ranks_def by (rule sum.cong) (use ini in auto)
  then have "at_ranks ranks (fst s) = 1" using r by simp
  moreover have "on_wire ranks (chan (snd s)) = 0" using st by (simp add: on_wire_def ring_start_def)
  ultimately show "one_token chan posted ranks s"
    using ini st by (simp add: one_token_def net_ok_def ring_start_def)
  show "\<And>i. i \<in> {0..<ranks} \<Longrightarrow> token_proc (fst s i) = WHITE" using ini by blast
qed

section \<open>Aborting\<close>

text \<open>All processes are aborting, one of them has the token, and none has seen the end.\<close>

definition stuck ::
  "('n \<Rightarrow> channel \<Rightarrow> payload list) \<Rightarrow> ('n \<Rightarrow> channel set) \<Rightarrow> int \<Rightarrow> (int \<Rightarrow> 'u proc) \<times> 'n \<Rightarrow> bool" where
  "stuck chan posted ranks s \<longleftrightarrow> one_token chan posted ranks s \<and> on_wire ranks (chan (snd s)) = 0
     \<and> (\<forall>i \<in> {0..<ranks}. CIRCLE_ABORT_FLAG (fst s i) \<noteq> 0 \<and> token_proc (fst s i) \<noteq> TERMINATE)"

lemma no_token_to_receive:
  assumes comm: "mpi_comm E chan posted" and w: "wired ranks i p" and i: "i \<in> {0..<ranks}"
    and none: "on_wire ranks (chan n) = 0" and run: "CIRCLE_token_check E p n = Inr (p', n')"
  shows "p' = p \<and> chan n' = chan n"
proof -
  let ?src = "(i - 1) mod ranks"
  obtain po n1 where pr: "mpi_iprobe E n (rank p) (token_src p) CIRCLE_TAG_TOKEN = (po, n1)" by fastforce
  have "token_src p = ?src" "?src \<noteq> MPI_ANY_SOURCE E"
    using w mpi_comm.any_source [OF comm] mpi_comm.src_next(1) [OF comm i] by (auto simp: wired_def)
  moreover have "chan n (?src, i, CIRCLE_TAG_TOKEN) = []"
    using wire_le_on_wire [OF mpi_comm.src_next(1) [OF comm i], of "chan n"] none mpi_comm.src_next(2) [OF comm i] by simp
  ultimately have "po = None"
    using mpi_comm.probe_hit [OF comm, of n "rank p" "token_src p" CIRCLE_TAG_TOKEN] pr w
    by (cases po) (auto simp: wired_def)
  then show ?thesis using run pr mpi_comm.probe_keeps [OF comm pr] by (simp add: CIRCLE_token_check_def)
qed

lemma stuck_check:
  assumes comm: "mpi_comm E chan posted" and st: "stuck chan posted ranks (ps, n)" and i: "i \<in> {0..<ranks}"
    and run: "CIRCLE_check_for_term E (ps i) n = Inr (status, p', n')"
  shows "status \<noteq> TERMINATE" "token_proc p' \<noteq> TERMINATE" "CIRCLE_ABORT_FLAG p' \<noteq> 0" "chan n' = chan n"
proof -
  have a: "CIRCLE_ABORT_FLAG (ps i) \<noteq> 0" "token_proc (ps i) \<noteq> TERMINATE" and w: "wired ranks i (ps i)"
    and none: "on_wire ranks (chan n) = 0"
    using st i by (auto simp: stuck_def one_token_def)
  have "status \<noteq> TERMINATE \<and> token_proc p' \<noteq> TERMINATE \<and> CIRCLE_ABORT_FLAG p' \<noteq> 0 \<and> chan n' = chan n"
  proof (cases "token_is_local (ps i) = 0")
    case True
    then have "CIRCLE_token_check E (ps i) n = Inr (p', n')" "status = token_proc p'"
      using run a by (auto simp: CIRCLE_check_for_term_def andThen_eq_Inr)
    with no_token_to_receive [OF comm w i none] a show ?thesis by metis
  next
    case False
    then show ?thesis
      using run a
      by (cases "rank (ps i) = 0"; cases "token_proc (ps i) = BLACK")
        (auto simp: CIRCLE_check_for_term_def CIRCLE_token_issend_def)
  qed
  then show "status \<noteq> TERMINATE" "token_proc p' \<noteq> TERMINATE" "CIRCLE_ABORT_FLAG p' \<noteq> 0" "chan n' = chan n" by auto
qed

lemma stuck_step:
  assumes comm: "mpi_comm E chan posted" and step: "ring_step E chan posted ranks s s'" and st: "stuck chan posted ranks s"
  shows "stuck chan posted ranks s'"
proof -
  have one: "one_token chan posted ranks s'"
    using ring_step_one_token [OF comm step] st by (simp add: stuck_def)
  have "on_wire ranks (chan (snd s')) = on_wire ranks (chan (snd s))
    \<and> (\<exists>i p'. fst s' = (fst s)(i := p') \<and> CIRCLE_ABORT_FLAG p' \<noteq> 0 \<and> token_proc p' \<noteq> TERMINATE)"
    using step
  proof cases
    case (check i ps n status p' n')
    from stuck_check [OF comm st [unfolded check(1)] check(3,4)] show ?thesis
      unfolding check(1,2) by auto
  next
    case (drain i ps n p' n')
    have "p' = ps i \<and> chan n' = chan n"
      using no_token_to_receive [OF comm _ drain(3) _ drain(4)] st drain(1,3) by (simp add: stuck_def one_token_def)
    then show ?thesis
      using st drain(3) unfolding drain(1,2)
      by (intro conjI exI [of _ i] exI [of _ "ps i"]) (simp_all add: stuck_def)
  next
    case (other i ps n p' n')
    have "CIRCLE_ABORT_FLAG p' \<noteq> 0" "token_proc p' \<noteq> TERMINATE" "on_wire ranks (chan n') = on_wire ranks (chan n)"
      using other(3,4) st on_wire_same [of "chan n'" "chan n"] unfolding other(1) by (auto simp: off_ring_def stuck_def)
    then show ?thesis unfolding other(1,2) by auto
  qed
  then show ?thesis using one st by (auto simp: stuck_def split: if_splits)
qed

lemma stuck_steps:
  assumes comm: "mpi_comm E chan posted" and "(ring_step E chan posted ranks)\<^sup>*\<^sup>* s s'" and "stuck chan posted ranks s"
  shows "stuck chan posted ranks s'"
  using assms(2,3) by induction (blast intro: stuck_step [OF comm])+

section \<open>Properties of the token ring\<close>

text \<open>Two ranks without work, of which the first passes the token on.\<close>

lemma idle_ring_start: "ring_start fifo_mpi f_chan fifo_posted 2 2 (idle_pair, quiet_net 2)"
proof -
  have "\<exists>n. CIRCLE_init_local_state fifo_mpi i 2 (demo_init (small_queue\<lparr>count := 0\<rparr>) i) (quiet_net 2) = Inr (idle_pair i, n)"
    if "i \<in> {0..<2}" for i by (rule idle_pair_init [OF that])
  moreover have "tree_width (input (demo_init (small_queue\<lparr>count := 0\<rparr>) i)) = 2" for i by (simp add: demo_input_def)
  ultimately show ?thesis
    unfolding ring_start_def fst_conv snd_conv quiet_posted by (metis f_chan_quiet)
qed

lemma idle_ring_passes:
  "case CIRCLE_check_for_term fifo_mpi (idle_pair 0) (quiet_net 2) of
     Inr (status, p, n) \<Rightarrow> status = WHITE \<and> token_is_local p = 0 | Inl _ \<Rightarrow> False"
  by code_simp

text \<open>
  C10. There is exactly one token. From the start of a run with any number of ranks, after any interleaving of
  termination checks and token receipts of all processes with anything else they do that does not touch the token, the
  number of processes that hold the token and of token messages under way add up to one, also while the order to
  terminate goes round and when processes abort.
\<close>

theorem ring_has_one_token:
  assumes "mpi_comm E chan posted" and "mem_ample E" and "\<And>s. 0 \<le> fst (rand_r E s)"
    and "0 < k" and "0 < ranks" and "ranks * k \<le> INT32_MAX"
    and "ring_start E chan posted k ranks s" and "(ring_step E chan posted ranks)\<^sup>*\<^sup>* s (ps, n)"
  shows "at_ranks ranks ps + on_wire ranks (chan n) = 1"
  using ring_steps_one_token [OF assms(1,8) ring_start_one_token(1) [OF assms(7,2-6)]] by (simp add: one_token_def)

theorem ring_has_one_token_witness:
  "\<exists>p n. CIRCLE_check_for_term fifo_mpi (idle_pair 0) (quiet_net 2) = Inr (WHITE, p, n) \<and> token_is_local p = 0
     \<and> at_ranks 2 (idle_pair(0 := p)) + on_wire 2 (f_chan n) = 1"
proof -
  obtain p n where r: "CIRCLE_check_for_term fifo_mpi (idle_pair 0) (quiet_net 2) = Inr (WHITE, p, n)" "token_is_local p = 0"
    using idle_ring_passes by (elim returnsE) auto
  have "(ring_step fifo_mpi f_chan fifo_posted 2)\<^sup>*\<^sup>* (idle_pair, quiet_net 2) (idle_pair(0 := p), n)"
    by (rule r_into_rtranclp) (rule ring_step.check [where ps = idle_pair and i = 0, OF _ r(1)], simp)
  then show ?thesis
    using r ring_has_one_token [OF fifo.mpi_comm_axioms _ _ _ _ _ idle_ring_start] by (simp add: INT32_MAX_def)
qed

text \<open>
  C11. An abort never ends under the token ring. Once all processes are aborting while one of them holds
  the token and none has seen termination yet, whatever happens afterwards, no call of \<open>CIRCLE_check_for_term\<close> at any process reports termination:
  an aborting process does not pass the token on (\<open>CIRCLE_token_issend\<close>), so no process leaves its main loop.
\<close>

theorem ring_abort_hangs:
  assumes "mpi_comm E chan posted" and "one_token chan posted ranks s" and "at_ranks ranks (fst s) = 1"
    and "\<forall>j \<in> {0..<ranks}. CIRCLE_ABORT_FLAG (fst s j) \<noteq> 0 \<and> token_proc (fst s j) \<noteq> TERMINATE"
    and "(ring_step E chan posted ranks)\<^sup>*\<^sup>* s (ps, n)" and "i \<in> {0..<ranks}"
    and "CIRCLE_check_for_term E (ps i) n = Inr (status, p', n')"
  shows "status \<noteq> TERMINATE"
proof -
  have "stuck chan posted ranks s" using assms(2-4) by (simp add: stuck_def one_token_def)
  from stuck_check(1) [OF assms(1) stuck_steps [OF assms(1,5) this] assms(6,7)] show ?thesis .
qed

theorem ring_abort_hangs_witness:
  "\<exists>status p n. CIRCLE_check_for_term fifo_mpi (small_proc 2 0 small_queue\<lparr>CIRCLE_ABORT_FLAG := 1\<rparr>) (quiet_net 2) = Inr (status, p, n)
     \<and> status \<noteq> TERMINATE"
proof -
  define ps where "ps = (\<lambda>i. small_proc 2 i small_queue\<lparr>CIRCLE_ABORT_FLAG := 1\<rparr>)"
  have s: "at_ranks 2 ps = 1" "on_wire 2 (f_chan (quiet_net 2)) = 0"
    by (simp_all add: at_ranks_def on_wire_def ps_def small_proc_def numeral_2_eq_2 atLeastLessThan_nat_numeral
        set_upto [symmetric] upto.simps del: set_upto)
  then have one: "one_token f_chan fifo_posted 2 (ps, quiet_net 2)"
    by (simp add: one_token_def wired_def net_ok_def ps_def small_proc_def quiet_posted)
  obtain status p n where r: "CIRCLE_check_for_term fifo_mpi (ps 0) (quiet_net 2) = Inr (status, p, n)"
    by (simp add: CIRCLE_check_for_term_def CIRCLE_token_issend_def ps_def small_proc_def)
  have "status \<noteq> TERMINATE"
    by (rule ring_abort_hangs [OF fifo.mpi_comm_axioms one _ _ rtranclp.rtrancl_refl _ r])
      (use s in \<open>simp_all add: ps_def small_proc_def\<close>)
  with r show ?thesis by (auto simp: ps_def)
qed

end
