(* ===== verification/Gate.thy ===== *)
theory Gate
  imports Tree
begin

text \<open>
  The barrier as an abstract protocol on a rooted tree: a process enters, counts one message of each
  child, reports to its parent, and leaves when its parent has left, which it tells its children. Nobody
  leaves before everybody has entered. Theory \<open>BarrierSafe\<close> shows that the code is an instance.
\<close>

section \<open>The protocol\<close>

record gate =
  g_in :: "int \<Rightarrow> bool"
  g_up :: "int \<Rightarrow> bool"
  g_out :: "int \<Rightarrow> bool"
  g_got :: "int \<Rightarrow> int"
  g_msg :: "int \<Rightarrow> int \<Rightarrow> nat"

text \<open>\<open>g_up\<close> says that a process has reported, and stays so when it has left. \<open>g_msg i j\<close> counts the messages from \<open>i\<close> to \<open>j\<close>.\<close>

definition add_msg :: "(int \<Rightarrow> int \<Rightarrow> nat) \<Rightarrow> int \<Rightarrow> int \<Rightarrow> int \<Rightarrow> int \<Rightarrow> nat" where
  "add_msg m i j = m(i := (m i)(j := m i j + 1))"

definition drop_msg :: "(int \<Rightarrow> int \<Rightarrow> nat) \<Rightarrow> int \<Rightarrow> int \<Rightarrow> int \<Rightarrow> int \<Rightarrow> nat" where
  "drop_msg m i j = m(i := (m i)(j := m i j - 1))"

definition tell_kids :: "(int \<Rightarrow> int \<Rightarrow> nat) \<Rightarrow> int \<Rightarrow> int list \<Rightarrow> int \<Rightarrow> int \<Rightarrow> nat" where
  "tell_kids m i cs = m(i := (\<lambda>j. if j \<in> set cs then m i j + 1 else m i j))"

inductive gate_step :: "int \<Rightarrow> (int \<Rightarrow> int) \<Rightarrow> (int \<Rightarrow> int list) \<Rightarrow> gate \<Rightarrow> gate \<Rightarrow> bool" for ranks parent kids where
  enter: "i \<in> {0..<ranks} \<Longrightarrow> \<not> g_out g i \<Longrightarrow> gate_step ranks parent kids g (g\<lparr>g_in := (g_in g)(i := True)\<rparr>)"
| collect: "i \<in> {0..<ranks} \<Longrightarrow> \<not> g_out g i \<Longrightarrow> g_got g i < int (length (kids i)) \<Longrightarrow> 0 < g_msg g j i \<Longrightarrow>
    gate_step ranks parent kids g (g\<lparr>g_got := (g_got g)(i := g_got g i + 1), g_msg := drop_msg (g_msg g) j i\<rparr>)"
| report: "i \<in> {0..<ranks} \<Longrightarrow> g_in g i \<Longrightarrow> \<not> g_out g i \<Longrightarrow> \<not> g_up g i \<Longrightarrow> g_got g i = int (length (kids i)) \<Longrightarrow>
    gate_step ranks parent kids g
      (g\<lparr>g_up := (g_up g)(i := True), g_msg := (if i = 0 then g_msg g else add_msg (g_msg g) i (parent i))\<rparr>)"
| leave: "i \<in> {0..<ranks} \<Longrightarrow> g_up g i \<Longrightarrow> \<not> g_out g i \<Longrightarrow> i \<noteq> 0 \<longrightarrow> 0 < g_msg g (parent i) i \<Longrightarrow>
    gate_step ranks parent kids g
      (g\<lparr>g_out := (g_out g)(i := True), g_got := (g_got g)(i := 0),
         g_msg := tell_kids (if i = 0 then g_msg g else drop_msg (g_msg g) (parent i) i) i (kids i)\<rparr>)"

section \<open>The invariant\<close>

text \<open>
  Messages travel along the edges; a process that has reported has entered and so have, and have reported, its
  children; until it leaves, what it has counted and what is still on its way to it are the reports of its children;
  the release is on its way from a parent that has left to a child that has not.
\<close>

definition gate_inv :: "int \<Rightarrow> (int \<Rightarrow> int) \<Rightarrow> (int \<Rightarrow> int list) \<Rightarrow> gate \<Rightarrow> bool" where
  "gate_inv ranks parent kids g \<longleftrightarrow>
     (\<forall>i j. 0 < g_msg g i j \<longrightarrow> i \<in> {0..<ranks} \<and> j \<in> {0..<ranks} \<and> (0 < i \<and> j = parent i \<or> 0 < j \<and> i = parent j))
     \<and> (\<forall>i \<in> {0..<ranks}. (g_up g i \<longrightarrow> g_in g i \<and> (\<forall>c \<in> set (kids i). g_up g c))
         \<and> (g_out g i \<longrightarrow> g_up g i \<and> (0 < i \<longrightarrow> g_out g (parent i)))
         \<and> (g_up g i \<and> \<not> g_out g i \<longrightarrow> g_got g i = int (length (kids i)))
         \<and> (\<not> g_out g i \<longrightarrow> g_got g i + (\<Sum>c \<in> set (kids i). int (g_msg g c i)) = int (card {c \<in> set (kids i). g_up g c}))
         \<and> (0 < i \<longrightarrow> g_msg g (parent i) i = (if g_out g (parent i) \<and> \<not> g_out g i then 1 else 0)))"

lemma gate_invI:
  assumes "\<And>i j. 0 < g_msg g i j \<Longrightarrow> i \<in> {0..<ranks} \<and> j \<in> {0..<ranks} \<and> (0 < i \<and> j = parent i \<or> 0 < j \<and> i = parent j)"
    and "\<And>i. i \<in> {0..<ranks} \<Longrightarrow> g_up g i \<Longrightarrow> g_in g i \<and> (\<forall>c \<in> set (kids i). g_up g c)"
    and "\<And>i. i \<in> {0..<ranks} \<Longrightarrow> g_out g i \<Longrightarrow> g_up g i \<and> (0 < i \<longrightarrow> g_out g (parent i))"
    and "\<And>i. i \<in> {0..<ranks} \<Longrightarrow> g_up g i \<Longrightarrow> \<not> g_out g i \<Longrightarrow> g_got g i = int (length (kids i))"
    and "\<And>i. i \<in> {0..<ranks} \<Longrightarrow> \<not> g_out g i \<Longrightarrow>
      g_got g i + (\<Sum>c \<in> set (kids i). int (g_msg g c i)) = int (card {c \<in> set (kids i). g_up g c})"
    and "\<And>i. i \<in> {0..<ranks} \<Longrightarrow> 0 < i \<Longrightarrow> g_msg g (parent i) i = (if g_out g (parent i) \<and> \<not> g_out g i then 1 else 0)"
  shows "gate_inv ranks parent kids g"
  unfolding gate_inv_def by (intro conjI ballI allI impI) (use assms in blast)+

lemma gate_invD:
  assumes "gate_inv ranks parent kids g"
  shows "0 < g_msg g i j \<Longrightarrow> i \<in> {0..<ranks} \<and> j \<in> {0..<ranks} \<and> (0 < i \<and> j = parent i \<or> 0 < j \<and> i = parent j)"
    and "i \<in> {0..<ranks} \<Longrightarrow> g_up g i \<Longrightarrow> g_in g i"
    and "i \<in> {0..<ranks} \<Longrightarrow> g_up g i \<Longrightarrow> c \<in> set (kids i) \<Longrightarrow> g_up g c"
    and "i \<in> {0..<ranks} \<Longrightarrow> g_out g i \<Longrightarrow> g_up g i"
    and "i \<in> {0..<ranks} \<Longrightarrow> g_out g i \<Longrightarrow> 0 < i \<Longrightarrow> g_out g (parent i)"
    and "i \<in> {0..<ranks} \<Longrightarrow> g_up g i \<Longrightarrow> \<not> g_out g i \<Longrightarrow> g_got g i = int (length (kids i))"
    and "i \<in> {0..<ranks} \<Longrightarrow> \<not> g_out g i \<Longrightarrow>
      g_got g i + (\<Sum>c \<in> set (kids i). int (g_msg g c i)) = int (card {c \<in> set (kids i). g_up g c})"
    and "i \<in> {0..<ranks} \<Longrightarrow> 0 < i \<Longrightarrow> g_msg g (parent i) i = (if g_out g (parent i) \<and> \<not> g_out g i then 1 else 0)"
  using assms unfolding gate_inv_def by blast+

context rank_tree
begin

text \<open>Nobody leaves before everybody has entered.\<close>

lemma gate_out_root: "gate_inv ranks parent kids g \<Longrightarrow> 0 \<le> i \<Longrightarrow> i < ranks \<Longrightarrow> g_out g i \<Longrightarrow> g_out g 0"
proof (induction "nat i" arbitrary: i rule: less_induct)
  case less
  show ?case
  proof (cases "i = 0")
    case False
    then have "0 < i" using less.prems by simp
    with parent_below [of i] gate_invD(5) [OF less.prems(1), of i] less show ?thesis by auto
  qed (use less.prems in simp)
qed

lemma gate_safe:
  assumes "gate_inv ranks parent kids g" and "i \<in> {0..<ranks}" and "g_out g i" and "j \<in> {0..<ranks}"
  shows "g_up g j" "g_in g j"
proof -
  have "0 \<in> {0..<ranks}" using assms(2) by simp
  then have up: "g_up g 0" using gate_invD(4) [OF assms(1)] gate_out_root [OF assms(1)] assms(2,3) by auto
  have "0 \<le> j" "j < ranks" using assms(4) by simp_all
  then show "g_up g j"
  proof (induction rule: from_root)
    case (kid c)
    then have "c \<in> set (kids (parent c))" "parent c \<in> {0..<ranks}"
      using parent_below [of c] kids_iff [of "parent c" c] by auto
    with kid gate_invD(3) [OF assms(1)] show ?case by blast
  qed (use up in simp)
  then show "g_in g j" using gate_invD(2) [OF assms(1,4)] by blast
qed

text \<open>A message to a process that still counts comes from a child.\<close>

lemma gate_collects_kid:
  assumes inv: "gate_inv ranks parent kids g" and i: "i \<in> {0..<ranks}" and "\<not> g_out g i"
    and "g_got g i < int (length (kids i))" and "0 < g_msg g j i"
  shows "j \<in> set (kids i)" "\<not> g_up g i"
proof -
  show nu: "\<not> g_up g i" using gate_invD(6) [OF inv i] assms(3,4) by auto
  have "\<not> (0 < i \<and> j = parent i)"
  proof
    assume p: "0 < i \<and> j = parent i"
    then have "g_out g (parent i)" using gate_invD(8) [OF inv i] assms(5) by (auto split: if_splits)
    moreover have "parent i \<in> {0..<ranks}" using parent_below [of i] p i by auto
    ultimately show False using gate_safe(1) [OF inv _ _ i] nu by blast
  qed
  then show "j \<in> set (kids i)" using gate_invD(1) [OF inv assms(5)] kids_iff [of i j] i by auto
qed

lemma sum_drop_msg:
  assumes "finite A" and "j \<in> A" and "0 < m j i"
  shows "(\<Sum>c \<in> A. int (drop_msg m j i c i)) = (\<Sum>c \<in> A. int (m c i)) - 1"
  using sum_update1 [OF assms(1,2), of "\<lambda>c. int (drop_msg m j i c i)" "\<lambda>c. int (m c i)"] assms(3)
  by (simp add: drop_msg_def)

lemma kid_facts:
  assumes "p \<in> {0..<ranks}" and "c \<in> set (kids p)"
  shows "parent c = p" "p < c" "c \<in> {0..<ranks}" "0 < c"
  using assms kids_iff [of p c] kids_range [of p c] by auto

lemma kid_of_parent:
  assumes "0 < i" and "i \<in> {0..<ranks}"
  shows "parent i \<in> {0..<ranks}" "i \<in> set (kids (parent i))" "parent i < i"
  using assms parent_below [of i] kids_iff [of "parent i" i] by auto

lemma gate_collect_keeps:
  assumes inv: "gate_inv ranks parent kids g" and i: "i \<in> {0..<ranks}" and o: "\<not> g_out g i"
    and lt: "g_got g i < int (length (kids i))" and m: "0 < g_msg g j i"
  shows "gate_inv ranks parent kids (g\<lparr>g_got := (g_got g)(i := g_got g i + 1), g_msg := drop_msg (g_msg g) j i\<rparr>)"
proof -
  note k = gate_collects_kid [OF inv i o lt m] and d = gate_invD [OF inv]
  have same: "drop_msg (g_msg g) j i a b = g_msg g a b" if "(a, b) \<noteq> (j, i)" for a b
    using that by (auto simp: drop_msg_def)
  have pos: "0 < drop_msg (g_msg g) j i a b \<Longrightarrow> 0 < g_msg g a b" for a b by (auto simp: drop_msg_def split: if_splits)
  have oth: "(\<Sum>c \<in> set (kids b). int (drop_msg (g_msg g) j i c b)) = (\<Sum>c \<in> set (kids b). int (g_msg g c b))" if "b \<noteq> i" for b
    using that by (intro sum.cong) (simp_all add: same)
  have own: "(\<Sum>c \<in> set (kids i). int (drop_msg (g_msg g) j i c i)) = (\<Sum>c \<in> set (kids i). int (g_msg g c i)) - 1"
    by (rule sum_drop_msg [where m = "g_msg g", OF _ k(1) m]) simp
  have rel: "drop_msg (g_msg g) j i (parent b) b = g_msg g (parent b) b" if "0 < b" "b \<in> {0..<ranks}" for b
    using kid_facts [OF i k(1)] kid_of_parent(3) [OF that] by (intro same) auto
  show ?thesis
  proof (intro gate_invI, goal_cases)
    case (1 a b)
    then show ?case using d(1) [of a b] pos [of a b] by simp
  next
    case (2 a)
    then show ?case using d(2,3) [of a] by auto
  next
    case (3 a)
    then show ?case using d(4,5) [of a] by auto
  next
    case (4 a)
    then show ?case using d(6) [of a] k(2) by (cases "a = i") auto
  next
    case (5 a)
    then show ?case using d(7) [of a] oth [of a] own by (cases "a = i") simp_all
  next
    case (6 a)
    then show ?case using rel [of a] d(8) [of a] by simp
  qed
qed

lemma gate_report_keeps:
  assumes inv: "gate_inv ranks parent kids g" and i: "i \<in> {0..<ranks}" and e: "g_in g i" and o: "\<not> g_out g i"
    and u: "\<not> g_up g i" and full: "g_got g i = int (length (kids i))"
  shows "gate_inv ranks parent kids
    (g\<lparr>g_up := (g_up g)(i := True), g_msg := (if i = 0 then g_msg g else add_msg (g_msg g) i (parent i))\<rparr>)"
proof -
  note d = gate_invD [OF inv]
  let ?m = "if i = 0 then g_msg g else add_msg (g_msg g) i (parent i)"
  let ?u = "(g_up g)(i := True)"
  have "card (set (kids i)) \<le> card {c \<in> set (kids i). g_up g c}"
    using d(7) [OF i o] full sum_nonneg [of "set (kids i)" "\<lambda>c. int (g_msg g c i)"] distinct_card [OF kids_distinct, of i]
    by simp
  then have all: "g_up g c" if "c \<in> set (kids i)" for c
    using card_seteq [of "set (kids i)" "{c \<in> set (kids i). g_up g c}"] that by auto
  have same: "?m a b = g_msg g a b" if "a \<noteq> i \<or> b \<noteq> parent i" for a b using that by (auto simp: add_msg_def)
  have count: "(\<Sum>c \<in> set (kids b). int (?m c b)) - int (card {c \<in> set (kids b). ?u c})
      = (\<Sum>c \<in> set (kids b). int (g_msg g c b)) - int (card {c \<in> set (kids b). g_up g c})" if b: "b \<in> {0..<ranks}" for b
  proof (cases "i \<in> set (kids b)")
    case False
    then have "(\<Sum>c \<in> set (kids b). int (?m c b)) = (\<Sum>c \<in> set (kids b). int (g_msg g c b))"
      by (intro sum.cong) (auto simp: add_msg_def)
    moreover have "{c \<in> set (kids b). ?u c} = {c \<in> set (kids b). g_up g c}" using False by auto
    ultimately show ?thesis by simp
  next
    case True
    note kf = kid_facts [OF b True]
    have "(\<Sum>c \<in> set (kids b). int (?m c b)) = (\<Sum>c \<in> set (kids b). int (g_msg g c b)) + 1"
      using sum_update1 [of "set (kids b)" i "\<lambda>c. int (?m c b)" "\<lambda>c. int (g_msg g c b)"] True kf
      by (simp add: add_msg_def)
    moreover have "{c \<in> set (kids b). ?u c} = insert i {c \<in> set (kids b). g_up g c}" using True by auto
    ultimately show ?thesis using u by simp
  qed
  have rel: "?m (parent b) b = g_msg g (parent b) b" if "0 < b" "b \<in> {0..<ranks}" for b
    using kid_of_parent(3) [OF that] kid_of_parent(3) [of i] i by (cases "i = 0") (auto simp: add_msg_def)
  have cnt: "g_got g b + (\<Sum>c \<in> set (kids b). int (?m c b)) = int (card {c \<in> set (kids b). ?u c})"
    if "b \<in> {0..<ranks}" "\<not> g_out g b" for b
    using count [OF that(1)] d(7) [OF that] by simp
  have new: "0 < ?m a b \<Longrightarrow> 0 < g_msg g a b \<or> i \<noteq> 0 \<and> a = i \<and> b = parent i" for a b
    by (auto simp: add_msg_def split: if_splits)
  show ?thesis
  proof (intro gate_invI, goal_cases)
    case (1 a b)
    then have "0 < ?m a b" by simp
    from new [OF this] show ?case
    proof
      assume "i \<noteq> 0 \<and> a = i \<and> b = parent i"
      then show ?thesis using i kid_of_parent(1) [of i] by auto
    qed (use d(1) in blast)
  next
    case (2 a)
    then have "a = i \<or> g_up g a" by (auto split: if_splits)
    then show ?case
    proof
      assume "a = i"
      then show ?thesis using e all by simp
    next
      assume "g_up g a"
      with 2 d(2) [of a] d(3) [of a] show ?thesis by simp
    qed
  next
    case (3 a)
    then show ?case using d(4,5) [of a] by auto
  next
    case (4 a)
    then show ?case using d(6) [of a] full by (cases "a = i") auto
  next
    case (5 a)
    then show ?case using cnt [of a] by simp
  next
    case (6 a)
    then show ?case using rel [of a] d(8) [of a] by simp
  qed
qed

lemma gate_root_up:
  assumes inv: "gate_inv ranks parent kids g" and up: "g_up g 0" and j: "j \<in> {0..<ranks}"
  shows "g_up g j"
proof -
  have "0 \<le> j" "j < ranks" using j by simp_all
  then show ?thesis
  proof (induction rule: from_root)
    case (kid c)
    then show ?case using kid_of_parent(1,2) [of c] gate_invD(3) [OF inv, of "parent c" c] by simp
  qed (use up in simp)
qed

lemma gate_leave_keeps:
  assumes inv: "gate_inv ranks parent kids g" and i: "i \<in> {0..<ranks}" and u: "g_up g i" and o: "\<not> g_out g i"
    and m: "i \<noteq> 0 \<longrightarrow> 0 < g_msg g (parent i) i"
  shows "gate_inv ranks parent kids
    (g\<lparr>g_out := (g_out g)(i := True), g_got := (g_got g)(i := 0),
       g_msg := tell_kids (if i = 0 then g_msg g else drop_msg (g_msg g) (parent i) i) i (kids i)\<rparr>)"
proof -
  note d = gate_invD [OF inv]
  let ?m = "tell_kids (if i = 0 then g_msg g else drop_msg (g_msg g) (parent i) i) i (kids i)"
  have po: "g_out g (parent i)" if "i \<noteq> 0" using d(8) [OF i] m that i by (auto split: if_splits)
  have pi: "parent i < i" if "i \<noteq> 0" using kid_of_parent(3) [of i] that i by auto
  have kid: "?m i c = g_msg g i c + 1" if "c \<in> set (kids i)" for c
    using kid_facts [OF i that] pi that by (auto simp: tell_kids_def drop_msg_def)
  have same: "?m a b = g_msg g a b" if "a \<noteq> i \<or> b \<notin> set (kids i)" "i = 0 \<or> a \<noteq> parent i \<or> b \<noteq> i" for a b
    using that by (auto simp: tell_kids_def drop_msg_def)
  have own: "?m (parent i) i = 0" if "i \<noteq> 0"
    using d(8) [OF i] i that po o pi by (auto simp: tell_kids_def drop_msg_def)
  have up: "(\<Sum>c \<in> set (kids b). int (?m c b)) = (\<Sum>c \<in> set (kids b). int (g_msg g c b))" if "b \<in> {0..<ranks}" "b \<noteq> i" for b
  proof (intro sum.cong refl)
    fix c assume "c \<in> set (kids b)"
    then have "\<not> (c = i \<and> b \<in> set (kids i))" using kid_facts [OF that(1)] kid_facts [OF i] by fastforce
    then show "int (?m c b) = int (g_msg g c b)" using same [of c b] that(2) by simp
  qed
  show ?thesis
  proof (intro gate_invI, goal_cases)
    case (1 a b)
    then have "0 < ?m a b" by simp
    then have "0 < g_msg g a b \<or> a = i \<and> b \<in> set (kids i)" using same [of a b] own by (metis less_not_refl)
    then show ?case using d(1) [of a b] kid_facts [OF i] i by auto
  next
    case (3 a)
    then show ?case using d(4,5) [of a] u po i by (cases "a = i") auto
  next
    case (5 a)
    then have "a \<noteq> i" by (auto split: if_splits)
    then show ?case using 5 d(7) [of a] up [of a] by simp
  next
    case (6 a)
    consider "a = i" | "a \<in> set (kids i)" | "a \<noteq> i" "a \<notin> set (kids i)" by blast
    then show ?case
    proof cases
      case 1
      then show ?thesis using own 6 by simp
    next
      case 2
      then show ?thesis using kid [OF 2] kid_facts [OF i 2] d(8) [of a] d(5) [of a] o 6 by auto
    next
      case 3
      then have "parent a \<noteq> i" using 6 kid_of_parent(2) [of a] by auto
      then show ?thesis using same [of "parent a" a] d(8) [of a] 3 6 by simp
    qed
  next
    case (2 a)
    then show ?case using d(2,3) [of a] by auto
  next
    case (4 a)
    then show ?case using d(6) [of a] by (auto split: if_splits)
  qed
qed

lemma gate_step_keeps:
  assumes "gate_step ranks parent kids g g'" and inv: "gate_inv ranks parent kids g"
  shows "gate_inv ranks parent kids g'"
  using assms(1)
proof cases
  case (enter i)
  show ?thesis
    unfolding enter(1)
  proof (intro gate_invI, goal_cases)
    case (2 a)
    then show ?case using gate_invD(2,3) [OF inv, of a] by auto
  next
    case (3 a)
    then show ?case using gate_invD(4,5) [OF inv, of a] by auto
  qed (use gate_invD(1,6-8) [OF inv] in simp_all)
next
  case (collect i j)
  then show ?thesis using gate_collect_keeps [OF inv] by simp
next
  case (report i)
  then show ?thesis using gate_report_keeps [OF inv] by simp
next
  case (leave i)
  then show ?thesis using gate_leave_keeps [OF inv] by simp
qed

lemma gate_steps_keep:
  "(gate_step ranks parent kids)\<^sup>*\<^sup>* g g' \<Longrightarrow> gate_inv ranks parent kids g \<Longrightarrow> gate_inv ranks parent kids g'"
  by (induction rule: rtranclp_induct) (auto intro: gate_step_keeps)

lemma gate_start_inv:
  assumes none: "\<And>i. i \<in> {0..<ranks} \<Longrightarrow> \<not> g_up g i \<and> \<not> g_out g i \<and> g_got g i = 0"
    and quiet: "\<And>i j. g_msg g i j = 0"
  shows "gate_inv ranks parent kids g"
proof (intro gate_invI, goal_cases)
  case (5 i)
  then have "{c \<in> set (kids i). g_up g c} = {}" using none kid_facts(3) by blast
  then show ?case using 5 none by (simp add: quiet)
next
  case (6 i)
  then show ?case using none kid_of_parent(1) [of i] by (simp add: quiet)
qed (use none quiet in auto)

end

end
