(* ===== verification/BarrierSafe.thy ===== *)
theory BarrierSafe
  imports Init Gate
begin

text \<open>
  The barrier of the cleanup phase, run by all processes in any interleaving, refines the protocol of
  theory \<open>Gate\<close>: no process leaves the cleanup loop before every process has said that nothing of
  its own is outstanding.
\<close>

section \<open>The processes in the barrier\<close>

text \<open>
  A state has the processes, the network, and who has left. Between the calls of the barrier a process may do
  anything that leaves the barrier alone.
\<close>

definition off_barrier :: "('n \<Rightarrow> channel \<Rightarrow> payload list) \<Rightarrow> 'u proc \<Rightarrow> 'n \<Rightarrow> 'u proc \<Rightarrow> 'n \<Rightarrow> bool" where
  "off_barrier chan p n p' n' \<longleftrightarrow> rank p' = rank p \<and> tree p' = tree p \<and> barrier_started p' = barrier_started p
     \<and> barrier_up p' = barrier_up p \<and> barrier_replies p' = barrier_replies p
     \<and> (\<forall>s d. chan n' (s, d, CIRCLE_TAG_BARRIER) = chan n (s, d, CIRCLE_TAG_BARRIER))"

inductive barrier_step ::
  "('n, 'z) mpi_scheme \<Rightarrow> ('n \<Rightarrow> channel \<Rightarrow> payload list) \<Rightarrow> int \<Rightarrow>
     (int \<Rightarrow> 'u proc) \<times> 'n \<times> (int \<Rightarrow> bool) \<Rightarrow> (int \<Rightarrow> 'u proc) \<times> 'n \<times> (int \<Rightarrow> bool) \<Rightarrow> bool" for E chan ranks where
  start: "i \<in> {0..<ranks} \<Longrightarrow> \<not> out i \<Longrightarrow>
    barrier_step E chan ranks (ps, n, out) (ps(i := CIRCLE_barrier_start (ps i)), n, out)"
| test: "i \<in> {0..<ranks} \<Longrightarrow> \<not> out i \<Longrightarrow> CIRCLE_barrier_test E (ps i) n = Inr (rc, p', n') \<Longrightarrow>
    barrier_step E chan ranks (ps, n, out) (ps(i := p'), n', out(i := rc \<noteq> 0))"
| other: "i \<in> {0..<ranks} \<Longrightarrow> off_barrier chan (ps i) n p' n' \<Longrightarrow>
    barrier_step E chan ranks (ps, n, out) (ps(i := p'), n', out)"

definition gate_of :: "(int \<Rightarrow> 'u proc) \<Rightarrow> (channel \<Rightarrow> payload list) \<Rightarrow> (int \<Rightarrow> bool) \<Rightarrow> gate" where
  "gate_of ps c out = \<lparr>g_in = (\<lambda>i. barrier_started (ps i) \<noteq> 0 \<or> out i), g_up = (\<lambda>i. barrier_up (ps i) \<noteq> 0 \<or> out i),
     g_out = out, g_got = (\<lambda>i. barrier_replies (ps i)), g_msg = (\<lambda>i j. length (c (i, j, CIRCLE_TAG_BARRIER)))\<rparr>"

abbreviation gate_steps :: "int \<Rightarrow> int \<Rightarrow> gate \<Rightarrow> gate \<Rightarrow> bool" where
  "gate_steps k ranks \<equiv> (gate_step ranks (tree_parent k) (tree_kids k ranks))\<^sup>*\<^sup>*"

section \<open>The calls are steps of the protocol\<close>

lemma collect_steps:
  assumes comm: "mpi_comm E chan posted" and t: "tree_ok E k ranks (ps i)" and i: "i \<in> {0..<ranks}" "rank (ps i) = i"
    and o: "\<not> out i" and run: "barrier_collect E (ps i) n = Inr (p', n')"
  shows "gate_steps k ranks (gate_of ps (chan n) out) (gate_of (ps(i := p')) (chan n') out)"
    and "p' = (ps i)\<lparr>barrier_replies := barrier_replies p'\<rparr>"
proof -
  have "gate_steps k ranks (gate_of ps (chan n) out) (gate_of (ps(i := p')) (chan n') out)
    \<and> p' = (ps i)\<lparr>barrier_replies := barrier_replies p'\<rparr>"
  proof (cases "barrier_replies (ps i) < children (tree (ps i))")
    case False
    then have "p' = ps i" "n' = n" using run by (simp_all add: barrier_collect_def)
    then show ?thesis by simp
  next
    case True
    obtain po n0 where pr: "mpi_iprobe E n (rank (ps i)) (MPI_ANY_SOURCE E) CIRCLE_TAG_BARRIER = (po, n0)" by fastforce
    show ?thesis
    proof (cases po)
      case None
      then have "p' = ps i" "n' = n0" using run True pr by (simp_all add: barrier_collect_def)
      then show ?thesis using mpi_comm.probe_keeps [OF comm pr] by simp
    next
      case (Some st)
      let ?j = "MPI_SOURCE st"
      from mpi_comm.recv_after_probe [OF comm pr [unfolded Some]] obtain m ms n2 where
        m: "chan n (?j, i, CIRCLE_TAG_BARRIER) = m # ms" "MPI_Recv E n0 i ?j CIRCLE_TAG_BARRIER = Inr (m, n2)"
          "chan n2 = (chan n)((?j, i, CIRCLE_TAG_BARRIER) := ms)"
        unfolding i(2) by blast
      have p': "p' = (ps i)\<lparr>barrier_replies := barrier_replies (ps i) + 1\<rparr>" "n' = n2"
        using run True pr Some m(2) i(2) by (auto simp: barrier_collect_def andThen_eq_Inr recv_eqs)
      let ?g = "gate_of ps (chan n) out"
      have "gate_step ranks (tree_parent k) (tree_kids k ranks) ?g
          (?g\<lparr>g_got := (g_got ?g)(i := g_got ?g i + 1), g_msg := drop_msg (g_msg ?g) ?j i\<rparr>)"
        by (rule gate_step.collect) (use i o True m(1) tree_okD(2) [OF t] in \<open>simp_all add: gate_of_def\<close>)
      moreover have "gate_of (ps(i := p')) (chan n') out
          = ?g\<lparr>g_got := (g_got ?g)(i := g_got ?g i + 1), g_msg := drop_msg (g_msg ?g) ?j i\<rparr>"
        using m(1,3) by (simp add: gate_of_def p' drop_msg_def fun_eq_iff)
      ultimately show ?thesis using p'(1) by auto
    qed
  qed
  then show "gate_steps k ranks (gate_of ps (chan n) out) (gate_of (ps(i := p')) (chan n') out)"
    "p' = (ps i)\<lparr>barrier_replies := barrier_replies p'\<rparr>" by auto
qed

lemma report_steps:
  assumes comm: "mpi_comm E chan posted" and k: "0 < k" and t: "tree_ok E k ranks (ps i)"
    and i: "i \<in> {0..<ranks}" "rank (ps i) = i" and o: "\<not> out i" and started: "barrier_started (ps i) \<noteq> 0"
    and run: "barrier_report E (ps i) n = Inr (p', n')"
  shows "gate_steps k ranks (gate_of ps (chan n) out) (gate_of (ps(i := p')) (chan n') out)"
    and "p' = (ps i)\<lparr>barrier_up := barrier_up p'\<rparr>"
proof -
  have "gate_steps k ranks (gate_of ps (chan n) out) (gate_of (ps(i := p')) (chan n') out)
    \<and> p' = (ps i)\<lparr>barrier_up := barrier_up p'\<rparr>"
  proof (cases "barrier_up (ps i) = 0 \<and> barrier_replies (ps i) = children (tree (ps i))")
    case False
    then show ?thesis using run by (auto simp: barrier_report_def)
  next
    case True
    note par = parent_null [OF comm t _ k] tree_okD(3) [OF t]
    have p': "p' = (ps i)\<lparr>barrier_up := 1\<rparr>"
      "chan n' = (if i = 0 then chan n else put (chan n) (i, tree_parent k i, CIRCLE_TAG_BARRIER) (Bytes []))"
      using run True par i mpi_comm.MPI_Send_adds [OF comm, of n i "tree_parent k i" CIRCLE_TAG_BARRIER "Bytes []"]
      by (auto simp: barrier_report_def put_def outcome split: if_splits)
    let ?g = "gate_of ps (chan n) out"
    let ?g' = "?g\<lparr>g_up := (g_up ?g)(i := True), g_msg := (if i = 0 then g_msg ?g else add_msg (g_msg ?g) i (tree_parent k i))\<rparr>"
    have "gate_step ranks (tree_parent k) (tree_kids k ranks) ?g ?g'"
      by (rule gate_step.report) (use i o started True tree_okD(2) [OF t] in \<open>simp_all add: gate_of_def\<close>)
    moreover have "gate_of (ps(i := p')) (chan n') out = ?g'"
      unfolding p' by (auto simp: gate_of_def add_msg_def put_apply fun_eq_iff)
    ultimately show ?thesis using p'(1) by auto
  qed
  then show "gate_steps k ranks (gate_of ps (chan n) out) (gate_of (ps(i := p')) (chan n') out)"
    "p' = (ps i)\<lparr>barrier_up := barrier_up p'\<rparr>" by auto
qed

lemma leave_steps:
  assumes comm: "mpi_comm E chan posted" and k: "0 < k" and t: "tree_ok E k ranks (ps i)"
    and i: "i \<in> {0..<ranks}" "rank (ps i) = i" and o: "\<not> out i"
    and started: "barrier_started (ps i) \<noteq> 0" and rel: "barrier_released E (ps i) n = Inr (True, n1)"
    and ch: "send_children E (tree (ps i)) n1 i CIRCLE_TAG_BARRIER (Bytes []) = Inr n'"
    and p': "p' = (ps i)\<lparr>barrier_started := 0, barrier_up := 0, barrier_replies := 0\<rparr>"
  shows "gate_steps k ranks (gate_of ps (chan n) out) (gate_of (ps(i := p')) (chan n') (out(i := True)))"
proof -
  note par = parent_null [OF comm t _ k] tree_okD(3) [OF t]
  have up: "barrier_up (ps i) \<noteq> 0" using rel by (auto simp: barrier_released_def split: if_splits)
  have n1: "if i = 0 then chan n1 = chan n
    else \<exists>ms. chan n (tree_parent k i, i, CIRCLE_TAG_BARRIER) = Bytes [] # ms
      \<and> chan n1 = (chan n)((tree_parent k i, i, CIRCLE_TAG_BARRIER) := ms)"
  proof (cases "i = 0")
    case True
    then show ?thesis using rel up par i by (simp add: barrier_released_def)
  next
    case False
    obtain po n0 where pr: "mpi_iprobe E n i (tree_parent k i) CIRCLE_TAG_BARRIER = (po, n0)" by fastforce
    have "recv_empty E n0 i (tree_parent k i) CIRCLE_TAG_BARRIER = Inr n1"
      using rel up par i False pr by (auto simp: barrier_released_def andThen_eq_Inr split: option.splits)
    then show ?thesis
      using mpi_comm.MPI_Recv_takes [OF comm, of n0 i "tree_parent k i" CIRCLE_TAG_BARRIER "Bytes []" n1]
        mpi_comm.probe_keeps [OF comm pr] False by (auto simp: recv_eqs)
  qed
  have n': "chan n' = fan (chan n1) i (tree_kids k ranks i) CIRCLE_TAG_BARRIER (Bytes [])"
    using send_children_run [OF comm t] ch i(2) by simp
  let ?g = "gate_of ps (chan n) out"
  let ?m = "tell_kids (if i = 0 then g_msg ?g else drop_msg (g_msg ?g) (tree_parent k i) i) i (tree_kids k ranks i)"
  let ?g' = "?g\<lparr>g_out := (g_out ?g)(i := True), g_got := (g_got ?g)(i := 0), g_msg := ?m\<rparr>"
  have m1: "(\<lambda>a b. length (chan n1 (a, b, CIRCLE_TAG_BARRIER)))
    = (if i = 0 then g_msg ?g else drop_msg (g_msg ?g) (tree_parent k i) i)"
  proof (cases "i = 0")
    case False
    then obtain ms where "chan n (tree_parent k i, i, CIRCLE_TAG_BARRIER) = Bytes [] # ms"
      "chan n1 = (chan n)((tree_parent k i, i, CIRCLE_TAG_BARRIER) := ms)" using n1 by auto
    then show ?thesis using False by (simp add: fun_eq_iff drop_msg_def gate_of_def)
  qed (use n1 in \<open>simp add: gate_of_def\<close>)
  have m2: "(\<lambda>a b. length (chan n' (a, b, CIRCLE_TAG_BARRIER))) = ?m"
    unfolding m1 [symmetric] by (auto simp: fun_eq_iff n' fan_def tell_kids_def)
  have "gate_step ranks (tree_parent k) (tree_kids k ranks) ?g ?g'"
    by (rule gate_step.leave) (use i o up n1 in \<open>auto simp: gate_of_def\<close>)
  moreover have "gate_of (ps(i := p')) (chan n') (out(i := True)) = ?g'"
    using m2 started up by (auto simp: gate_of_def p' fun_eq_iff)
  ultimately show ?thesis by auto
qed

lemma barrier_test_steps:
  assumes comm: "mpi_comm E chan posted" and k: "0 < k" and t: "tree_ok E k ranks (ps i)"
    and i: "i \<in> {0..<ranks}" "rank (ps i) = i" and o: "\<not> out i"
    and run: "CIRCLE_barrier_test E (ps i) n = Inr (rc, p', n')"
  shows "gate_steps k ranks (gate_of ps (chan n) out) (gate_of (ps(i := p')) (chan n') (out(i := rc \<noteq> 0)))"
    and "rank p' = rank (ps i) \<and> tree p' = tree (ps i)"
proof -
  let ?S = "gate_steps k ranks"
  have "?S (gate_of ps (chan n) out) (gate_of (ps(i := p')) (chan n') (out(i := rc \<noteq> 0)))
    \<and> rank p' = rank (ps i) \<and> tree p' = tree (ps i)"
  proof (cases "barrier_started (ps i) = 0")
    case True
    then have "p' = ps i" "n' = n" "rc = 0" using run by (simp_all add: CIRCLE_barrier_test_def)
    moreover have "out(i := False) = out" using o by (simp add: fun_eq_iff)
    ultimately show ?thesis by simp
  next
    case False
    then obtain p1 n1 where c: "barrier_collect E (ps i) n = Inr (p1, n1)" using run by (auto simp: CIRCLE_barrier_test_def andThen_eq_Inr)
    obtain p2 n2 where r: "barrier_report E p1 n1 = Inr (p2, n2)"
      using run False c by (auto simp: CIRCLE_barrier_test_def andThen_eq_Inr)
    obtain full n3 where l: "barrier_released E p2 n2 = Inr (full, n3)"
      using run False c r by (auto simp: CIRCLE_barrier_test_def andThen_eq_Inr)
    note cs = collect_steps [where ps = ps and out = out, OF comm t i o c]
    have p1: "rank p1 = i" "tree_ok E k ranks p1" "barrier_started p1 \<noteq> 0" "tree p1 = tree (ps i)"
      using i t False by (subst cs(2), simp add: tree_ok_def)+
    have rs: "?S (gate_of (ps(i := p1)) (chan n1) out) (gate_of (ps(i := p2)) (chan n2) out)" "p2 = p1\<lparr>barrier_up := barrier_up p2\<rparr>"
      using report_steps [where ps = "ps(i := p1)" and i = i and out = out, OF comm k _ i(1) _ o] p1 r by simp_all
    have p2: "rank p2 = i" "tree_ok E k ranks p2" "tree p2 = tree (ps i)" "barrier_started p2 \<noteq> 0"
      using p1 by (subst rs(2), simp add: tree_ok_def)+
    have "?S (gate_of (ps(i := p2)) (chan n2) out) (gate_of (ps(i := p')) (chan n') (out(i := rc \<noteq> 0)))
      \<and> rank p' = i \<and> tree p' = tree (ps i)"
    proof (cases full)
      case True
      then have ch: "send_children E (tree p2) n3 i CIRCLE_TAG_BARRIER (Bytes []) = Inr n'" "rc = 1"
        and p': "p' = p2\<lparr>barrier_started := 0, barrier_up := 0, barrier_replies := 0\<rparr>"
        using run False c r l p2 by (auto simp: CIRCLE_barrier_test_def andThen_eq_Inr)
      have "?S (gate_of (ps(i := p2)) (chan n2) out) (gate_of ((ps(i := p2))(i := p')) (chan n') (out(i := True)))"
        by (rule leave_steps [where ps = "ps(i := p2)" and i = i and out = out, OF comm k _ i(1) _ o])
          (use p2 l ch p' True in simp_all)
      then show ?thesis using ch(2) p2 p' by simp
    next
      case nf: False
      then have "p' = p2" "n' = n3" "rc = 0" using run False c r l by (auto simp: CIRCLE_barrier_test_def)
      moreover have "out(i := False) = out" using o by (simp add: fun_eq_iff)
      moreover have "chan n3 = chan n2"
        using l nf mpi_comm.probe_keeps [OF comm] by (auto simp: barrier_released_def andThen_eq_Inr split: if_splits option.splits prod.splits)
      ultimately show ?thesis using p2 by simp
    qed
    then show ?thesis
      using rtranclp_trans [OF rtranclp_trans [OF cs(1) rs(1)]] i(2) by simp
  qed
  then show "?S (gate_of ps (chan n) out) (gate_of (ps(i := p')) (chan n') (out(i := rc \<noteq> 0)))"
    "rank p' = rank (ps i) \<and> tree p' = tree (ps i)" by auto
qed

section \<open>The invariant\<close>

definition barrier_inv ::
  "('n, 'z) mpi_scheme \<Rightarrow> ('n \<Rightarrow> channel \<Rightarrow> payload list) \<Rightarrow> int \<Rightarrow> int \<Rightarrow> (int \<Rightarrow> 'u proc) \<times> 'n \<times> (int \<Rightarrow> bool) \<Rightarrow> bool" where
  "barrier_inv E chan k ranks s \<longleftrightarrow> (case s of (ps, n, out) \<Rightarrow>
     (\<forall>i \<in> {0..<ranks}. rank (ps i) = i \<and> tree_ok E k ranks (ps i))
     \<and> gate_inv ranks (tree_parent k) (tree_kids k ranks) (gate_of ps (chan n) out))"

text \<open>Every step of the processes is a sequence of steps of the protocol.\<close>

lemma barrier_step_simulates:
  assumes comm: "mpi_comm E chan posted" and k: "0 < k" and step: "barrier_step E chan ranks (ps, n, out) (ps', n', out')"
    and ok: "\<forall>i \<in> {0..<ranks}. rank (ps i) = i \<and> tree_ok E k ranks (ps i)"
  shows "gate_steps k ranks (gate_of ps (chan n) out) (gate_of ps' (chan n') out')"
    and "\<forall>i \<in> {0..<ranks}. rank (ps' i) = i \<and> tree_ok E k ranks (ps' i)"
proof -
  have "gate_steps k ranks (gate_of ps (chan n) out) (gate_of ps' (chan n') out')
    \<and> (\<exists>i p'. ps' = ps(i := p') \<and> rank p' = rank (ps i) \<and> tree p' = tree (ps i))"
    using step
  proof cases
    case (start i)
    have "gate_of ps' (chan n') out' = (gate_of ps (chan n) out)\<lparr>g_in := (g_in (gate_of ps (chan n) out))(i := True)\<rparr>"
      unfolding start by (simp add: gate_of_def CIRCLE_barrier_start_def fun_eq_iff)
    then have "gate_steps k ranks (gate_of ps (chan n) out) (gate_of ps' (chan n') out')"
      using gate_step.enter [of i ranks "gate_of ps (chan n) out"] start by (auto simp: gate_of_def)
    then show ?thesis
      unfolding start by (intro conjI exI [of _ i] exI [of _ "CIRCLE_barrier_start (ps i)"]) (simp_all add: CIRCLE_barrier_start_def)
  next
    case (test i rc p')
    have "rank (ps i) = i" "tree_ok E k ranks (ps i)" using ok test(3) by auto
    from barrier_test_steps [where ps = ps and i = i and out = out, OF comm k this(2) test(3) this(1) test(4,5)] show ?thesis
      unfolding test(1,2) by blast
  next
    case (other i p')
    have "gate_of ps' (chan n') out' = gate_of ps (chan n) out"
      using other unfolding other(1,2) by (simp add: gate_of_def off_barrier_def fun_eq_iff)
    then show ?thesis using other by (auto simp: off_barrier_def)
  qed
  then obtain i p' where r: "gate_steps k ranks (gate_of ps (chan n) out) (gate_of ps' (chan n') out')"
    "ps' = ps(i := p')" "rank p' = rank (ps i)" "tree p' = tree (ps i)" by blast
  show "gate_steps k ranks (gate_of ps (chan n) out) (gate_of ps' (chan n') out')" by (rule r(1))
  have "rank (ps' j) = rank (ps j) \<and> tree (ps' j) = tree (ps j)" for j using r(2-4) by simp
  then show "\<forall>i \<in> {0..<ranks}. rank (ps' i) = i \<and> tree_ok E k ranks (ps' i)"
    using ok by (simp add: tree_ok_def)
qed

lemma barrier_steps_keep:
  assumes comm: "mpi_comm E chan posted" and k: "0 < k" and "(barrier_step E chan ranks)\<^sup>*\<^sup>* s s'"
    and "barrier_inv E chan k ranks s"
  shows "barrier_inv E chan k ranks s'"
  using assms(3,4)
proof (induction rule: rtranclp_induct)
  case (step s s')
  obtain ps n out ps' n' out' where s: "s = (ps, n, out)" "s' = (ps', n', out')" by (metis prod_cases3)
  note sim = barrier_step_simulates [OF comm k step(2) [unfolded s]]
  show ?case
    using step(3) [OF step(4)] sim rank_tree.gate_steps_keep [OF tree_facts(3) [OF k]]
    by (simp add: barrier_inv_def s)
qed simp

text \<open>The start: nobody is in the barrier and no message of it is under way.\<close>

definition barrier_fresh ::
  "('n, 'z) mpi_scheme \<Rightarrow> ('n \<Rightarrow> channel \<Rightarrow> payload list) \<Rightarrow> int \<Rightarrow> int \<Rightarrow> (int \<Rightarrow> 'u proc) \<times> 'n \<times> (int \<Rightarrow> bool) \<Rightarrow> bool" where
  "barrier_fresh E chan k ranks s \<longleftrightarrow> (case s of (ps, n, out) \<Rightarrow> out = (\<lambda>_. False)
     \<and> (\<forall>i \<in> {0..<ranks}. rank (ps i) = i \<and> tree_ok E k ranks (ps i) \<and> barrier_started (ps i) = 0 \<and> barrier_up (ps i) = 0
          \<and> barrier_replies (ps i) = 0)
     \<and> (\<forall>i j. chan n (i, j, CIRCLE_TAG_BARRIER) = []))"

lemma barrier_fresh_inv:
  assumes fresh: "barrier_fresh E chan k ranks (ps, n, out)" and k: "0 < k"
  shows "barrier_inv E chan k ranks (ps, n, out)"
proof -
  have "gate_inv ranks (tree_parent k) (tree_kids k ranks) (gate_of ps (chan n) out)"
    by (rule rank_tree.gate_start_inv [OF tree_facts(3) [OF k]])
      (use fresh in \<open>simp_all add: gate_of_def barrier_fresh_def\<close>)
  then show ?thesis using fresh by (simp add: barrier_inv_def barrier_fresh_def)
qed

text \<open>
  C12. The barrier is safe. Let the processes of a run, none of them in the barrier and no barrier message under way,
  call \<open>CIRCLE_barrier_start\<close> and \<open>CIRCLE_barrier_test\<close> in any interleaving, with anything in between that leaves the
  barrier alone, for any tree width and number of ranks. When the test of one process succeeds, every process
  has started the barrier, or has left it already.
\<close>

theorem barrier_safe:
  assumes "mpi_comm E chan posted" and "0 < k" and "barrier_fresh E chan k ranks s"
    and "(barrier_step E chan ranks)\<^sup>*\<^sup>* s (ps, n, out)"
    and "i \<in> {0..<ranks}" and "\<not> out i" and "CIRCLE_barrier_test E (ps i) n = Inr (rc, p', n')" and "rc \<noteq> 0"
    and "j \<in> {0..<ranks}"
  shows "barrier_started (ps j) \<noteq> 0 \<or> out j"
proof -
  obtain ps0 n0 out0 where s: "s = (ps0, n0, out0)" by (metis prod_cases3)
  have inv: "barrier_inv E chan k ranks (ps, n, out)"
    by (rule barrier_steps_keep [OF assms(1,2,4)]) (use barrier_fresh_inv assms(2,3) s in simp)
  have step: "barrier_step E chan ranks (ps, n, out) (ps(i := p'), n', out(i := True))"
    using barrier_step.test [where ps = ps and i = i and out = out, OF assms(5,6,7)] assms(8) by simp
  have inv': "barrier_inv E chan k ranks (ps(i := p'), n', out(i := True))"
    by (rule barrier_steps_keep [OF assms(1,2) r_into_rtranclp [where r = "barrier_step E chan ranks", OF step] inv])
  have ok: "rank (ps i) = i" "tree_ok E k ranks (ps i)" using inv assms(5) by (auto simp: barrier_inv_def)
  show ?thesis
  proof (cases "j = i")
    case True
    then show ?thesis using assms(7,8) by (auto simp: CIRCLE_barrier_test_def split: if_splits)
  next
    case False
    have "g_in (gate_of (ps(i := p')) (chan n') (out(i := True))) j"
      by (rule rank_tree.gate_safe(2) [OF tree_facts(3) [OF assms(2)] _ assms(5) _ assms(9)])
        (use inv' in \<open>simp_all add: barrier_inv_def gate_of_def\<close>)
    then show ?thesis using False by (simp add: gate_of_def)
  qed
qed

lemma idle_pair_meets:
  "case CIRCLE_barrier_test fifo_mpi (CIRCLE_barrier_start (idle_pair 1)) (quiet_net 2) of
     Inr (rc1, p1, n1) \<Rightarrow> rc1 = 0 \<and> (case CIRCLE_barrier_test fifo_mpi (CIRCLE_barrier_start (idle_pair 0)) n1 of
       Inr (rc0, p0, n0) \<Rightarrow> rc0 = 1 | Inl _ \<Rightarrow> False)
   | Inl _ \<Rightarrow> False"
  by code_simp

theorem barrier_safe_witness:
  "\<exists>p1 n1 p0 n0. CIRCLE_barrier_test fifo_mpi (CIRCLE_barrier_start (idle_pair 1)) (quiet_net 2) = Inr (0, p1, n1)
     \<and> CIRCLE_barrier_test fifo_mpi (CIRCLE_barrier_start (idle_pair 0)) n1 = Inr (1, p0, n0) \<and> barrier_started p1 \<noteq> 0"
proof -
  obtain p1 n1 p0 n0 where r: "CIRCLE_barrier_test fifo_mpi (CIRCLE_barrier_start (idle_pair 1)) (quiet_net 2) = Inr (0, p1, n1)"
    "CIRCLE_barrier_test fifo_mpi (CIRCLE_barrier_start (idle_pair 0)) n1 = Inr (1, p0, n0)"
    using idle_pair_meets by (elim returnsE) (clarsimp elim!: returnsE)
  define ps1 where "ps1 = idle_pair(0 := CIRCLE_barrier_start (idle_pair 0))"
  define ps2 where "ps2 = ps1(1 := CIRCLE_barrier_start (ps1 1))"
  let ?S = "barrier_step fifo_mpi f_chan 2" and ?o = "\<lambda>_. False"
  have o: "?o(1 := (0 :: int) \<noteq> 0) = ?o" by auto
  have s1: "?S (idle_pair, quiet_net 2, ?o) (ps1, quiet_net 2, ?o)"
    unfolding ps1_def by (rule barrier_step.start) simp_all
  have s2: "?S (ps1, quiet_net 2, ?o) (ps2, quiet_net 2, ?o)"
    unfolding ps2_def by (rule barrier_step.start) simp_all
  have "?S (ps2, quiet_net 2, ?o) (ps2(1 := p1), n1, ?o(1 := (0 :: int) \<noteq> 0))"
    by (rule barrier_step.test) (use r(1) in \<open>simp_all add: ps2_def ps1_def\<close>)
  then have "?S (ps2, quiet_net 2, ?o) (ps2(1 := p1), n1, ?o)" unfolding o .
  then have run: "?S\<^sup>*\<^sup>* (idle_pair, quiet_net 2, ?o) (ps2(1 := p1), n1, ?o)"
    by (intro converse_rtranclp_into_rtranclp [where r = ?S, OF s1] converse_rtranclp_into_rtranclp [where r = ?S, OF s2] r_into_rtranclp)
  have fresh: "barrier_fresh fifo_mpi f_chan 2 2 (idle_pair, quiet_net 2, ?o)"
    using idle_pair_run by (simp add: barrier_fresh_def)
  have "barrier_started ((ps2(1 := p1)) 1) \<noteq> 0 \<or> ?o (1 :: int)"
    by (rule barrier_safe [OF fifo.mpi_comm_axioms _ fresh run, of 0 1 p0 n0]) (use r(2) in \<open>simp_all add: ps2_def ps1_def\<close>)
  then show ?thesis using r by simp
qed

end
