(* ===== verification/AbortFlood.thy ===== *)
theory AbortFlood
  imports Init
begin

text \<open>
  How an abort spreads. A process that aborts sends one request to each of its neighbours in the tree,
  with a receive posted for each reply, in the slots the initialisation made for them; a process that
  gets a request aborts too. So an abort reaches every process whose main loop runs on, in any interleaving; in the cleanup
  loop an abort is not passed on.
\<close>

section \<open>One request to each neighbour\<close>

definition abort_peers :: "('n, 'z) mpi_scheme \<Rightarrow> int \<Rightarrow> int \<Rightarrow> int \<Rightarrow> int list" where
  "abort_peers E k ranks i = (if i = 0 then [] else [tree_parent k i]) @ tree_kids k ranks i"

lemma abort_post_result:
  assumes comm: "mpi_comm E chan posted" and "0 \<le> j" and "j + 2 \<le> int (length rs)"
  obtains a b n' where "abort_post E me peer (j, Some rs, n) = Inr (j + 2, Some (rs[nat j := MPI_Req a, nat (j + 1) := MPI_Req b]), n')"
    and "chan n' = put (chan n) (me, peer, CIRCLE_TAG_ABORT_REQUEST) (Bytes [])"
    and "posted n' = insert (peer, me, CIRCLE_TAG_ABORT_REPLY) (posted n)"
proof -
  obtain a n1 where a: "mpi_irecv E n me peer CIRCLE_TAG_ABORT_REPLY = (a, n1)" by fastforce
  obtain b n2 where b: "mpi_isend E n1 me peer CIRCLE_TAG_ABORT_REQUEST (Bytes []) = (b, n2)" by fastforce
  show ?thesis
    using mpi_comm.irecv_posts [OF comm a] mpi_comm.isend_adds [OF comm b] assms(2,3) a b
    by (intro that [of a b n2]) (simp_all add: abort_post_def put_def)
qed

lemma abort_posts_result:
  assumes comm: "mpi_comm E chan posted" and "distinct cs" and "0 \<le> j" and "j + 2 * int (length cs) \<le> int (length rs)"
  shows "\<exists>ids n'. for_list (abort_post E me) cs (j, Some rs, n)
      = Inr (j + 2 * int (length cs), Some (take (nat j) rs @ map MPI_Req ids @ drop (nat j + 2 * length cs) rs), n')
    \<and> length ids = 2 * length cs \<and> chan n' = fan (chan n) me cs CIRCLE_TAG_ABORT_REQUEST (Bytes [])
    \<and> posted n' = posted n \<union> (\<lambda>c. (c, me, CIRCLE_TAG_ABORT_REPLY)) ` set cs"
  using assms(2-4)
proof (induction cs arbitrary: j rs n)
  case Nil
  then show ?case by (auto simp: fan_def)
next
  case (Cons c cs)
  have "j + 2 \<le> int (length rs)" using Cons.prems(3) by simp
  then obtain a b n1 where p: "abort_post E me c (j, Some rs, n) = Inr (j + 2, Some (rs[nat j := MPI_Req a, nat (j + 1) := MPI_Req b]), n1)"
    "chan n1 = put (chan n) (me, c, CIRCLE_TAG_ABORT_REQUEST) (Bytes [])"
    "posted n1 = insert (c, me, CIRCLE_TAG_ABORT_REPLY) (posted n)"
    using abort_post_result [OF comm Cons.prems(2)] by blast
  define rs1 where "rs1 = rs[nat j := MPI_Req a, nat (j + 1) := MPI_Req b]"
  have "distinct cs" "0 \<le> j + 2" "j + 2 + 2 * int (length cs) \<le> int (length rs1)" using Cons.prems by (simp_all add: rs1_def)
  from Cons.IH [OF this, of n1] obtain ids n' where
    r: "for_list (abort_post E me) cs (j + 2, Some rs1, n1)
      = Inr (j + 2 + 2 * int (length cs), Some (take (nat (j + 2)) rs1 @ map MPI_Req ids @ drop (nat (j + 2) + 2 * length cs) rs1), n')"
      "length ids = 2 * length cs" "chan n' = fan (chan n1) me cs CIRCLE_TAG_ABORT_REQUEST (Bytes [])"
      "posted n' = posted n1 \<union> (\<lambda>c. (c, me, CIRCLE_TAG_ABORT_REPLY)) ` set cs" by blast
  have j: "nat (j + 1) = Suc (nat j)" "nat (j + 2) = Suc (Suc (nat j))" using Cons.prems(2) by simp_all
  have "Suc (nat j) < length rs" using Cons.prems(2,3) by simp
  then have "take (Suc (Suc (nat j))) rs1 = take (nat j) rs @ [MPI_Req a, MPI_Req b]"
    by (simp add: rs1_def j take_Suc_conv_app_nth)
  moreover have "drop (Suc (Suc (nat j + l))) rs1 = drop (Suc (Suc (nat j + l))) rs" for l by (simp add: rs1_def j)
  ultimately have "for_list (abort_post E me) (c # cs) (j, Some rs, n) = Inr (j + 2 * int (length (c # cs)),
      Some (take (nat j) rs @ map MPI_Req (a # b # ids) @ drop (nat j + 2 * length (c # cs)) rs), n')"
    using p(1) [folded rs1_def] r(1) by (simp add: j)
  moreover have "length (a # b # ids) = 2 * length (c # cs)" using r(2) by simp
  moreover have "chan n' = fan (chan n) me (c # cs) CIRCLE_TAG_ABORT_REQUEST (Bytes [])"
    using r(3) p(2) Cons.prems(1) fan_put [of c cs "chan n" me CIRCLE_TAG_ABORT_REQUEST "Bytes []"] by simp
  moreover have "posted n' = posted n \<union> (\<lambda>c. (c, me, CIRCLE_TAG_ABORT_REPLY)) ` set (c # cs)" using r(4) p(3) by auto
  ultimately show ?case by blast
qed
lemma abort_start_posts:
  assumes comm: "mpi_comm E chan posted" and t: "tree_ok E k ranks p" and k: "0 < k" and r: "rank p \<in> {0..<ranks}"
    and idle: "abort_state p = 0"
  shows "CIRCLE_abort_start E p n False = andThen (for_list (abort_post E (rank p)) (abort_peers E k ranks (rank p)) (0, abort_req p, n))
    (\<lambda>(j, reqs, n). Inr (if j > 0 then p\<lparr>CIRCLE_ABORT_FLAG := 1, abort_state := 1, abort_req := reqs, abort_outstanding := 1\<rparr>
       else p\<lparr>CIRCLE_ABORT_FLAG := 1, abort_state := 1, abort_req := reqs\<rparr>, n))"
  using idle parent_null [OF comm t r k] tree_okD(1,3) [OF t]
  by (auto simp: CIRCLE_abort_start_def abort_peers_def Let_def andThen_assoc split_def cong: if_cong)

lemma abort_peers_facts:
  assumes "0 < k" and "i \<in> {0..<ranks}"
  shows "distinct (abort_peers E k ranks i)"
    and "j \<in> {0..<ranks} \<Longrightarrow> j \<in> set (abort_peers E k ranks i) \<longleftrightarrow> i \<in> set (abort_peers E k ranks j)"
    and "0 < j \<Longrightarrow> j < ranks \<Longrightarrow> tree_parent k j \<in> set (abort_peers E k ranks j)"
proof -
  show "distinct (abort_peers E k ranks i)" using tree_apart(3) [OF assms] by (auto simp: abort_peers_def tree_kids_def)
  show "j \<in> set (abort_peers E k ranks i) \<longleftrightarrow> i \<in> set (abort_peers E k ranks j)" if "j \<in> {0..<ranks}"
    using tree_facts(1,2) [OF assms(1)] that assms(2) by (auto simp: abort_peers_def)
qed (simp add: abort_peers_def)

lemma abort_start_result:
  assumes comm: "mpi_comm E chan posted" and t: "tree_ok E k ranks p" and k: "0 < k" and r: "rank p \<in> {0..<ranks}"
    and idle: "abort_state p = 0" and rs: "abort_req p = Some rs" "length rs = 2 * length (abort_peers E k ranks (rank p))"
  shows "\<exists>ids n'. CIRCLE_abort_start E p n False = Inr (if abort_peers E k ranks (rank p) = []
        then p\<lparr>CIRCLE_ABORT_FLAG := 1, abort_state := 1, abort_req := Some (map MPI_Req ids)\<rparr>
        else p\<lparr>CIRCLE_ABORT_FLAG := 1, abort_state := 1, abort_req := Some (map MPI_Req ids), abort_outstanding := 1\<rparr>, n')
    \<and> length ids = length rs
    \<and> chan n' = fan (chan n) (rank p) (abort_peers E k ranks (rank p)) CIRCLE_TAG_ABORT_REQUEST (Bytes [])
    \<and> posted n' = posted n \<union> (\<lambda>c. (c, rank p, CIRCLE_TAG_ABORT_REPLY)) ` set (abort_peers E k ranks (rank p))"
proof -
  have "0 + 2 * int (length (abort_peers E k ranks (rank p))) \<le> int (length rs)" using rs(2) by simp
  from abort_posts_result [OF comm abort_peers_facts(1) [OF k r] _ this, of "rank p" n] obtain ids n' where
    "for_list (abort_post E (rank p)) (abort_peers E k ranks (rank p)) (0, Some rs, n)
      = Inr (2 * int (length (abort_peers E k ranks (rank p))), Some (map MPI_Req ids), n')"
    "length ids = length rs"
    "chan n' = fan (chan n) (rank p) (abort_peers E k ranks (rank p)) CIRCLE_TAG_ABORT_REQUEST (Bytes [])"
    "posted n' = posted n \<union> (\<lambda>c. (c, rank p, CIRCLE_TAG_ABORT_REPLY)) ` set (abort_peers E k ranks (rank p))"
    using rs(2) by auto
  then show ?thesis unfolding abort_start_posts [OF comm t k r idle] rs(1) by auto
qed

section \<open>The flood\<close>

text \<open>
  Between the calls a process may do anything that leaves the requests alone and does not forget an
  abort; the program may call \<open>CIRCLE_abort\<close> at any time.
\<close>

definition off_abort :: "('n \<Rightarrow> channel \<Rightarrow> payload list) \<Rightarrow> ('n \<Rightarrow> channel set) \<Rightarrow> 'u proc \<Rightarrow> 'n \<Rightarrow> 'u proc \<Rightarrow> 'n \<Rightarrow> bool" where
  "off_abort chan posted p n p' n' \<longleftrightarrow> rank p' = rank p \<and> tree p' = tree p \<and> abort_state p' = abort_state p
     \<and> abort_req p' = abort_req p \<and> (CIRCLE_ABORT_FLAG p \<noteq> 0 \<longrightarrow> CIRCLE_ABORT_FLAG p' \<noteq> 0)
     \<and> (\<forall>a b. chan n' (a, b, CIRCLE_TAG_ABORT_REQUEST) = chan n (a, b, CIRCLE_TAG_ABORT_REQUEST)) \<and> posted n' \<subseteq> posted n"

inductive flood_step ::
  "('n, 'z) mpi_scheme \<Rightarrow> ('n \<Rightarrow> channel \<Rightarrow> payload list) \<Rightarrow> ('n \<Rightarrow> channel set) \<Rightarrow> int \<Rightarrow>
     (int \<Rightarrow> 'u proc) \<times> 'n \<Rightarrow> (int \<Rightarrow> 'u proc) \<times> 'n \<Rightarrow> bool" for E chan posted ranks where
  check: "i \<in> {0..<ranks} \<Longrightarrow> CIRCLE_abort_check E (ps i) n False = Inr (p', n') \<Longrightarrow>
    flood_step E chan posted ranks (ps, n) (ps(i := p'), n')"
| abort: "i \<in> {0..<ranks} \<Longrightarrow> flood_step E chan posted ranks (ps, n) (ps(i := CIRCLE_bcast_abort (ps i)), n)"
| other: "i \<in> {0..<ranks} \<Longrightarrow> off_abort chan posted (ps i) n p' n' \<Longrightarrow> flood_step E chan posted ranks (ps, n) (ps(i := p'), n')"

text \<open>
  Whoever has started to abort has told each neighbour: the neighbour has started too, or the
  request is under way. While a process deals with a request, its own state is exempt (\<open>x\<close>).
\<close>

definition flood_ready ::
  "('n, 'z) mpi_scheme \<Rightarrow> ('n \<Rightarrow> channel set) \<Rightarrow> int \<Rightarrow> int \<Rightarrow> (int \<Rightarrow> 'u proc) \<Rightarrow> 'n \<Rightarrow> bool" where
  "flood_ready E posted k ranks ps n \<longleftrightarrow> net_ok posted n
     \<and> (\<forall>i \<in> {0..<ranks}. rank (ps i) = i \<and> tree_ok E k ranks (ps i) \<and> (abort_state (ps i) \<noteq> 0 \<longrightarrow> CIRCLE_ABORT_FLAG (ps i) \<noteq> 0)
          \<and> (\<exists>rs. abort_req (ps i) = Some rs \<and> length rs = 2 * length (abort_peers E k ranks i)))"

definition told ::
  "('n, 'z) mpi_scheme \<Rightarrow> ('n \<Rightarrow> channel \<Rightarrow> payload list) \<Rightarrow> int \<Rightarrow> int \<Rightarrow> int set \<Rightarrow> (int \<Rightarrow> 'u proc) \<Rightarrow> 'n \<Rightarrow> bool" where
  "told E chan k ranks x ps n \<longleftrightarrow> (\<forall>i \<in> {0..<ranks}. \<forall>j \<in> {0..<ranks}. j \<in> set (abort_peers E k ranks i) \<longrightarrow> j \<notin> x \<longrightarrow>
     abort_state (ps i) \<noteq> 0 \<longrightarrow> abort_state (ps j) \<noteq> 0 \<or> chan n (i, j, CIRCLE_TAG_ABORT_REQUEST) \<noteq> [])"

lemma flood_readyD:
  assumes "flood_ready E posted k ranks ps n" and "i \<in> {0..<ranks}"
  shows "rank (ps i) = i" "tree_ok E k ranks (ps i)" "abort_state (ps i) \<noteq> 0 \<Longrightarrow> CIRCLE_ABORT_FLAG (ps i) \<noteq> 0"
    "\<exists>rs. abort_req (ps i) = Some rs \<and> length rs = 2 * length (abort_peers E k ranks i)" "net_ok posted n"
  using assms unfolding flood_ready_def by blast+

lemma start_floods:
  assumes comm: "mpi_comm E chan posted" and k: "0 < k" and i: "i \<in> {0..<ranks}"
    and ready: "flood_ready E posted k ranks ps n" and told: "told E chan k ranks {i} ps n"
    and run: "CIRCLE_abort_start E (ps i) n False = Inr (p', n')"
  shows "flood_ready E posted k ranks (ps(i := p')) n' \<and> told E chan k ranks {} (ps(i := p')) n' \<and> abort_state p' \<noteq> 0"
proof (cases "abort_state (ps i) = 0")
  case False
  then have "p' = (ps i)\<lparr>CIRCLE_ABORT_FLAG := 1\<rparr>" "n' = n" using run by (auto simp: CIRCLE_abort_start_def)
  then show ?thesis using ready told False by (auto simp: flood_ready_def told_def tree_ok_def)
next
  case True
  note r = flood_readyD [OF ready i]
  obtain rs where rs: "abort_req (ps i) = Some rs" "length rs = 2 * length (abort_peers E k ranks i)" using r(4) by blast
  have ir: "rank (ps i) \<in> {0..<ranks}" using r(1) i by simp
  obtain ids where ids: "length ids = length rs" and p': "p' = (if abort_peers E k ranks i = []
      then (ps i)\<lparr>CIRCLE_ABORT_FLAG := 1, abort_state := 1, abort_req := Some (map MPI_Req ids)\<rparr>
      else (ps i)\<lparr>CIRCLE_ABORT_FLAG := 1, abort_state := 1, abort_req := Some (map MPI_Req ids), abort_outstanding := 1\<rparr>)"
    and ch: "chan n' = fan (chan n) i (abort_peers E k ranks i) CIRCLE_TAG_ABORT_REQUEST (Bytes [])"
    and po: "posted n' = posted n \<union> (\<lambda>c. (c, i, CIRCLE_TAG_ABORT_REPLY)) ` set (abort_peers E k ranks i)"
    using abort_start_result [OF comm r(2) k ir True rs(1), of n] rs(2) run unfolding r(1) by auto
  have p: "rank p' = i" "tree p' = tree (ps i)" "abort_state p' = 1" "CIRCLE_ABORT_FLAG p' = 1" "abort_req p' = Some (map MPI_Req ids)"
    using p' r(1) by (simp_all split: if_splits)
  have "flood_ready E posted k ranks (ps(i := p')) n'"
    using ready p ids rs(2) po i by (auto simp: flood_ready_def tree_ok_def net_ok_def)
  moreover have "told E chan k ranks {} (ps(i := p')) n'"
    using told p(3) unfolding told_def ch by (auto simp: fan_def)
  ultimately show ?thesis using p(3) by simp
qed

text \<open>A message other than a request, or a request to \<open>i\<close>, does not matter.\<close>

lemma told_net:
  assumes "told E chan k ranks x ps n"
    and "\<And>a b. b \<notin> x \<Longrightarrow> chan n' (a, b, CIRCLE_TAG_ABORT_REQUEST) = chan n (a, b, CIRCLE_TAG_ABORT_REQUEST)"
  shows "told E chan k ranks x ps n'"
  using assms by (simp add: told_def)

lemma told_fewer: "told E chan k ranks x ps n \<Longrightarrow> x \<subseteq> y \<Longrightarrow> told E chan k ranks y ps n"
  by (auto simp: told_def)

lemma flood_ready_net: "flood_ready E posted k ranks ps n \<Longrightarrow> posted n' \<subseteq> posted n \<Longrightarrow> flood_ready E posted k ranks ps n'"
  by (auto simp: flood_ready_def net_ok_def)

lemma testall_floods:
  assumes comm: "mpi_comm E chan posted" and i: "i \<in> {0..<ranks}"
    and ready: "flood_ready E posted k ranks ps n" and told: "told E chan k ranks {} ps n"
    and t: "MPI_Testall E n reqs = (flag, reqs', n')" and pre: "arr_prefix (abort_req (ps i)) (abort_num_req (ps i)) = Inr reqs"
    and p': "p' = (ps i)\<lparr>abort_req := map_option (\<lambda>rs. reqs' @ drop (length reqs') rs) (abort_req (ps i))\<rparr>
       \<or> p' = (ps i)\<lparr>abort_req := map_option (\<lambda>rs. reqs' @ drop (length reqs') rs) (abort_req (ps i)), abort_outstanding := 0\<rparr>"
  shows "flood_ready E posted k ranks (ps(i := p')) n' \<and> told E chan k ranks {} (ps(i := p')) n'"
proof -
  note r = flood_readyD [OF ready i]
  obtain rs where rs: "abort_req (ps i) = Some rs" "length rs = 2 * length (abort_peers E k ranks i)" using r(4) by blast
  have "length reqs' = length reqs" using t by (auto simp: MPI_Testall_def split: prod.splits if_splits)
  moreover have "length reqs \<le> length rs" using pre rs(1) by (auto simp: arr_prefix_def split: if_splits)
  ultimately have len: "length (reqs' @ drop (length reqs') rs) = length rs" by simp
  have p: "rank p' = i" "tree p' = tree (ps i)" "abort_state p' = abort_state (ps i)"
    "CIRCLE_ABORT_FLAG p' = CIRCLE_ABORT_FLAG (ps i)" "abort_req p' = Some (reqs' @ drop (length reqs') rs)"
    using p' r(1) rs(1) by auto
  note net = mpi_comm.MPI_Testall_keeps [OF comm t]
  have ch: "chan n' (a, b, CIRCLE_TAG_ABORT_REQUEST) = chan n (a, b, CIRCLE_TAG_ABORT_REQUEST)" for a b
  proof -
    have "(a, b, CIRCLE_TAG_ABORT_REQUEST) \<notin> posted n" using r(5) unfolding net_ok_def by force
    then show ?thesis using net by simp
  qed
  have "flood_ready E posted k ranks (ps(i := p')) n"
    using ready p len rs i by (auto simp: flood_ready_def tree_ok_def)
  then have "flood_ready E posted k ranks (ps(i := p')) n'" by (rule flood_ready_net) (use net in simp)
  moreover have "told E chan k ranks {} (ps(i := p')) n'"
    using told p(3) ch by (auto simp: told_def)
  ultimately show ?thesis ..
qed

lemma answer_floods:
  assumes comm: "mpi_comm E chan posted" and k: "0 < k" and i: "i \<in> {0..<ranks}"
    and ready: "flood_ready E posted k ranks ps n" and told: "told E chan k ranks {} ps n"
    and pr: "mpi_iprobe E n i (MPI_ANY_SOURCE E) CIRCLE_TAG_ABORT_REQUEST = (Some status, n1)"
    and run: "andThen (recv_empty E n1 i (MPI_SOURCE status) CIRCLE_TAG_ABORT_REQUEST) (\<lambda>n.
      andThen (MPI_Send E n i (MPI_SOURCE status) CIRCLE_TAG_ABORT_REPLY (Bytes [])) (\<lambda>n.
      CIRCLE_abort_start E (ps i) n False)) = Inr (p', n')"
  shows "flood_ready E posted k ranks (ps(i := p')) n' \<and> told E chan k ranks {} (ps(i := p')) n' \<and> abort_state p' \<noteq> 0"
proof -
  obtain n2 n3 where n2: "MPI_Recv E n1 i (MPI_SOURCE status) CIRCLE_TAG_ABORT_REQUEST = Inr (Bytes [], n2)"
    and n3: "MPI_Send E n2 i (MPI_SOURCE status) CIRCLE_TAG_ABORT_REPLY (Bytes []) = Inr n3"
    and st: "CIRCLE_abort_start E (ps i) n3 False = Inr (p', n')"
    using run by (auto simp: outcome recv_empty_eq)
  have "chan n3 (a, b, CIRCLE_TAG_ABORT_REQUEST) = chan n (a, b, CIRCLE_TAG_ABORT_REQUEST)" if "b \<notin> {i}" for a b
    using that mpi_comm.MPI_Recv_takes [OF comm n2] mpi_comm.probe_keeps [OF comm pr] mpi_comm.MPI_Send_adds [OF comm n3]
    by auto
  then have "told E chan k ranks {i} ps n3" using told_net [OF told_fewer [OF told]] by blast
  moreover have "posted n3 = posted n"
    using mpi_comm.MPI_Recv_takes [OF comm n2] mpi_comm.probe_keeps [OF comm pr] mpi_comm.MPI_Send_adds [OF comm n3]
    by auto
  then have "flood_ready E posted k ranks ps n3" using flood_ready_net [OF ready] by simp
  ultimately show ?thesis using start_floods [OF comm k i] st by blast
qed

lemma check_floods:
  assumes comm: "mpi_comm E chan posted" and k: "0 < k" and i: "i \<in> {0..<ranks}"
    and ready: "flood_ready E posted k ranks ps n" and told: "told E chan k ranks {} ps n"
    and run: "CIRCLE_abort_check E (ps i) n False = Inr (p', n')"
  shows "flood_ready E posted k ranks (ps(i := p')) n' \<and> told E chan k ranks {} (ps(i := p')) n'"
proof -
  have ri: "rank (ps i) = i" using flood_readyD(1) [OF ready i] .
  from run obtain p1 n1 where a: "(if CIRCLE_ABORT_FLAG (ps i) \<noteq> 0 then CIRCLE_abort_start E (ps i) n False else Inr (ps i, n)) = Inr (p1, n1)"
    by (auto simp: CIRCLE_abort_check_def outcome)
  have s1: "flood_ready E posted k ranks (ps(i := p1)) n1" "told E chan k ranks {} (ps(i := p1)) n1"
    using a start_floods [OF comm k i ready told_fewer [OF told]] ready told by (auto split: if_splits simp: fun_upd_triv)
  have r1: "rank p1 = i" using flood_readyD(1) [OF s1(1) i] by simp
  obtain po n2 where pr: "mpi_iprobe E n1 i (MPI_ANY_SOURCE E) CIRCLE_TAG_ABORT_REQUEST = (po, n2)" by fastforce
  obtain p3 n3 where b: "(case po of None \<Rightarrow> Inr (p1, n2) | Some status \<Rightarrow>
      andThen (recv_empty E n2 i (MPI_SOURCE status) CIRCLE_TAG_ABORT_REQUEST) (\<lambda>n.
      andThen (MPI_Send E n i (MPI_SOURCE status) CIRCLE_TAG_ABORT_REPLY (Bytes [])) (\<lambda>n.
      CIRCLE_abort_start E p1 n False))) = Inr (p3, n3)"
    and c: "(if abort_outstanding p3 \<noteq> 0
     then andThen (arr_prefix (abort_req p3) (abort_num_req p3)) (\<lambda>reqs.
          case MPI_Testall E n3 reqs of (flag, reqs', n) \<Rightarrow>
          let p = p3\<lparr>abort_req := map_option (\<lambda>rs. reqs' @ drop (length reqs') rs) (abort_req p3)\<rparr>
          in Inr (if flag then p\<lparr>abort_outstanding := 0\<rparr> else p, n))
     else Inr (p3, n3)) = Inr (p', n')"
    using run a pr by (cases po) (auto simp: CIRCLE_abort_check_def outcome r1)
  have s3: "flood_ready E posted k ranks (ps(i := p3)) n3 \<and> told E chan k ranks {} (ps(i := p3)) n3"
  proof (cases po)
    case None
    then have "p3 = p1" "n3 = n2" using b by simp_all
    moreover have "chan n2 = chan n1" "posted n2 = posted n1" using mpi_comm.probe_keeps [OF comm pr] by simp_all
    ultimately show ?thesis using flood_ready_net [OF s1(1)] told_net [OF s1(2)] by simp
  next
    case (Some status)
    then show ?thesis using answer_floods [OF comm k i s1 pr [unfolded Some], of p3 n3] b by simp
  qed
  show ?thesis
  proof (cases "abort_outstanding p3 \<noteq> 0")
    case True
    then obtain reqs where pre: "arr_prefix (abort_req p3) (abort_num_req p3) = Inr reqs" using c by (auto simp: outcome)
    obtain flag reqs' n4 where t: "MPI_Testall E n3 reqs = (flag, reqs', n4)" by (metis prod_cases3)
    show ?thesis
      using testall_floods [OF comm i conjunct1 [OF s3] conjunct2 [OF s3] t, of p'] c True pre t by (auto simp: Let_def)
  qed (use c s3 in simp)
qed

lemma flood_steps_keep:
  assumes comm: "mpi_comm E chan posted" and k: "0 < k" and "(flood_step E chan posted ranks)\<^sup>*\<^sup>* s s'"
    and "flood_ready E posted k ranks (fst s) (snd s)" and "told E chan k ranks {} (fst s) (snd s)"
  shows "flood_ready E posted k ranks (fst s') (snd s') \<and> told E chan k ranks {} (fst s') (snd s')"
  using assms(3)
proof (induction rule: rtranclp_induct)
  case base
  then show ?case using assms(4,5) by simp
next
  case (step s s')
  from step(2) show ?case
  proof cases
    case (check i ps n p' n')
    then have "flood_ready E posted k ranks ps n" "told E chan k ranks {} ps n" using step(3) by simp_all
    then show ?thesis unfolding check(1,2) fst_conv snd_conv using check_floods [OF comm k check(3)] check(4) by blast
  next
    case (abort i ps n)
    then show ?thesis using step(3) by (auto simp: flood_ready_def told_def CIRCLE_bcast_abort_def tree_ok_def)
  next
    case (other i ps n p' n')
    then show ?thesis using step(3) by (auto simp: flood_ready_def told_def off_abort_def tree_ok_def net_ok_def)
  qed
qed

text \<open>When no request is under way, whoever has aborted has neighbours that have, and so have all ranks.\<close>

lemma told_all:
  assumes k: "0 < k" and told: "told E chan k ranks {} ps n"
    and quiet: "\<And>a b. chan n (a, b, CIRCLE_TAG_ABORT_REQUEST) = []"
    and i: "i \<in> {0..<ranks}" "abort_state (ps i) \<noteq> 0" and j: "j \<in> {0..<ranks}"
  shows "abort_state (ps j) \<noteq> 0"
proof -
  have near: "abort_state (ps b) \<noteq> 0"
    if "a \<in> {0..<ranks}" "b \<in> {0..<ranks}" "b \<in> set (abort_peers E k ranks a)" "abort_state (ps a) \<noteq> 0" for a b
    using told that quiet unfolding told_def by blast
  have up: "abort_state (ps c) \<noteq> 0 \<longleftrightarrow> abort_state (ps (tree_parent k c)) \<noteq> 0" if c: "0 < c" "c < ranks" for c
  proof -
    have p: "c \<in> {0..<ranks}" "tree_parent k c \<in> {0..<ranks}" using tree_facts(1) [OF k c] c by auto
    note pc = abort_peers_facts(3) [OF k p(1) c, of E]
    then have "c \<in> set (abort_peers E k ranks (tree_parent k c))"
      using abort_peers_facts(2) [OF k p(1,2), of E] by simp
    then show ?thesis using near [OF p(1) p(2) pc] near [OF p(2) p(1)] by blast
  qed
  have root: "abort_state (ps r) \<noteq> 0 \<longleftrightarrow> abort_state (ps 0) \<noteq> 0" if "0 \<le> r" "r < ranks" for r
    using that by (induction rule: rank_tree.from_root [OF tree_facts(3) [OF k], consumes 2, case_names root kid]) (use up in auto)
  show ?thesis using root [of i] root [of j] i j by simp
qed

section \<open>Properties\<close>

text \<open>
  C30. Starting to abort uses exactly the slots that were made for it. With the array \<open>abort_req\<close> as the initialisation
  leaves it, for any tree, \<open>CIRCLE_abort_start\<close> never writes out of bounds, fills every slot with a request, sends one
  empty request to the parent and to each child and nothing else, and posts the receive of each reply.
\<close>

theorem abort_start_fills_slots:
  assumes "mpi_comm E chan posted" and "tree_ok E k ranks p" and "0 < k" and "rank p \<in> {0..<ranks}" and "abort_state p = 0"
    and "abort_num_req p = 2 * (children (tree p) + (if parent_rank (tree p) \<noteq> MPI_PROC_NULL E then 1 else 0))"
    and "abort_req p = Some (replicate (nat (abort_num_req p)) MPI_REQUEST_NULL)"
  shows "\<exists>ids p' n'. CIRCLE_abort_start E p n False = Inr (p', n')
    \<and> abort_req p' = Some (map MPI_Req ids) \<and> int (length ids) = abort_num_req p
    \<and> CIRCLE_ABORT_FLAG p' = 1 \<and> abort_state p' = 1 \<and> (abort_num_req p > 0 \<longrightarrow> abort_outstanding p' = 1) \<and> queue p' = queue p
    \<and> chan n' = fan (chan n) (rank p) (abort_peers E k ranks (rank p)) CIRCLE_TAG_ABORT_REQUEST (Bytes [])
    \<and> posted n' = posted n \<union> (\<lambda>c. (c, rank p, CIRCLE_TAG_ABORT_REPLY)) ` set (abort_peers E k ranks (rank p))"
proof -
  have num: "abort_num_req p = 2 * int (length (abort_peers E k ranks (rank p)))"
    using assms(6) parent_null [OF assms(1,2,4,3)] tree_okD(2) [OF assms(2)] by (simp add: abort_peers_def)
  then have "length (replicate (nat (abort_num_req p)) MPI_REQUEST_NULL) = 2 * length (abort_peers E k ranks (rank p))" by simp
  from abort_start_result [OF assms(1-5,7) this, of n] obtain ids n' where
    r: "CIRCLE_abort_start E p n False = Inr (if abort_peers E k ranks (rank p) = []
        then p\<lparr>CIRCLE_ABORT_FLAG := 1, abort_state := 1, abort_req := Some (map MPI_Req ids)\<rparr>
        else p\<lparr>CIRCLE_ABORT_FLAG := 1, abort_state := 1, abort_req := Some (map MPI_Req ids), abort_outstanding := 1\<rparr>, n')"
      "length ids = length (replicate (nat (abort_num_req p)) MPI_REQUEST_NULL)"
      "chan n' = fan (chan n) (rank p) (abort_peers E k ranks (rank p)) CIRCLE_TAG_ABORT_REQUEST (Bytes [])"
      "posted n' = posted n \<union> (\<lambda>c. (c, rank p, CIRCLE_TAG_ABORT_REPLY)) ` set (abort_peers E k ranks (rank p))" by blast
  show ?thesis
    unfolding r(1) by (rule exI [of _ ids], rule exI, rule exI [of _ n'], rule conjI [OF refl]) (use r(2-4) num in simp)
qed

theorem abort_start_fills_slots_witness:
  "\<exists>p' n'. CIRCLE_abort_start fifo_mpi (idle_pair 1) (quiet_net 2) False = Inr (p', n')
     \<and> f_chan n' (1, 0, CIRCLE_TAG_ABORT_REQUEST) = [Bytes []] \<and> fifo_posted n' = {(0, 1, CIRCLE_TAG_ABORT_REPLY)}"
proof -
  obtain n where run: "CIRCLE_init_local_state fifo_mpi 1 2 (demo_init (small_queue\<lparr>count := 0\<rparr>) 1) (quiet_net 2) = Inr (idle_pair 1, n)"
    using idle_pair_init [of 1] by auto
  note r = init_local_state_run [OF run, of 2]
  have peers: "abort_peers fifo_mpi 2 2 1 = [0]" by (simp add: abort_peers_def tree_parent_def tree_kids_def)
  show ?thesis
    using abort_start_fills_slots [OF fifo.mpi_comm_axioms r(3) _ _ r(23,25,26), of "quiet_net 2"] r(1) peers
    by (auto simp: demo_input_def INT32_MAX_def fan_def quiet_posted)
qed

text \<open>
  C13. An abort reaches every process. Let the processes of a run, none of which has started to abort, call
  \<open>CIRCLE_abort_check\<close> in the main loop in any interleaving, with calls of \<open>CIRCLE_abort\<close> and anything else in between that leaves
  the requests alone. Whenever no request is under way and one process has started to abort, all have, and their
  \<open>CIRCLE_ABORT_FLAG\<close> is set. (In the cleanup loop a process that starts to abort tells nobody, so this is about the
  main loop only; after the cleanup the states are combined by \<open>CIRCLE_abort_reduce\<close>, theory AbortReduce.)
\<close>

theorem abort_reaches_all:
  assumes "mpi_comm E chan posted" and "0 < k" and "flood_ready E posted k ranks ps0 n0"
    and "\<And>i. i \<in> {0..<ranks} \<Longrightarrow> abort_state (ps0 i) = 0"
    and "(flood_step E chan posted ranks)\<^sup>*\<^sup>* (ps0, n0) (ps, n)"
    and "\<And>a b. chan n (a, b, CIRCLE_TAG_ABORT_REQUEST) = []"
    and "i \<in> {0..<ranks}" and "abort_state (ps i) \<noteq> 0" and "j \<in> {0..<ranks}"
  shows "abort_state (ps j) \<noteq> 0 \<and> CIRCLE_ABORT_FLAG (ps j) \<noteq> 0"
proof -
  have "told E chan k ranks {} ps0 n0" using assms(4) by (simp add: told_def)
  then have inv: "flood_ready E posted k ranks ps n" "told E chan k ranks {} ps n"
    using flood_steps_keep [OF assms(1,2,5)] assms(3) by simp_all
  have "abort_state (ps j) \<noteq> 0" by (rule told_all [OF assms(2) inv(2) assms(6-9)])
  then show ?thesis using flood_readyD(3) [OF inv(1) assms(9)] by simp
qed

text \<open>Rank 1 aborts, asks rank 0 to, which does and asks back.\<close>

lemma idle_pair_floods:
  "case CIRCLE_abort_check fifo_mpi (CIRCLE_bcast_abort (idle_pair 1)) (quiet_net 2) False of
     Inr (p1, n1) \<Rightarrow> (case CIRCLE_abort_check fifo_mpi (idle_pair 0) n1 False of
       Inr (p0, n0) \<Rightarrow> (case CIRCLE_abort_check fifo_mpi p1 n0 False of
         Inr (q1, m1) \<Rightarrow> abort_state q1 = 1 \<and> list_all (\<lambda>x. snd (snd (fst x)) \<noteq> CIRCLE_TAG_ABORT_REQUEST) (f_msgs m1)
       | Inl _ \<Rightarrow> False)
     | Inl _ \<Rightarrow> False)
   | Inl _ \<Rightarrow> False"
  by code_simp

lemma idle_pair_ready:
  "flood_ready fifo_mpi fifo_posted 2 2 idle_pair (quiet_net 2)" "i \<in> {0..<2} \<Longrightarrow> abort_state (idle_pair i) = 0"
proof -
  have a: "abort_state (idle_pair i) = 0 \<and> (\<exists>rs. abort_req (idle_pair i) = Some rs \<and> length rs = 2 * length (abort_peers fifo_mpi 2 2 i))"
    if i: "i \<in> {0..<2}" for i
  proof -
    obtain n where run: "CIRCLE_init_local_state fifo_mpi i 2 (demo_init (small_queue\<lparr>count := 0\<rparr>) i) (quiet_net 2) = Inr (idle_pair i, n)"
      using idle_pair_init [OF i] by blast
    note r = init_local_state_run [OF run, of 2]
    have "i = 0 \<or> i = 1" using i by auto
    then show ?thesis
      using r(3,23,25,26) idle_pair_run(1) [OF i] tree_okD [OF idle_pair_run(2) [OF i]] i
      by (auto simp: demo_input_def INT32_MAX_def abort_peers_def tree_kids_def tree_parent_def)
  qed
  then show "flood_ready fifo_mpi fifo_posted 2 2 idle_pair (quiet_net 2)"
    using idle_pair_run by (auto simp: flood_ready_def net_ok_def quiet_posted)
  show "i \<in> {0..<2} \<Longrightarrow> abort_state (idle_pair i) = 0" using a by blast
qed

theorem abort_reaches_all_witness:
  "\<exists>ps n. (flood_step fifo_mpi f_chan fifo_posted 2)\<^sup>*\<^sup>* (idle_pair, quiet_net 2) (ps, n) \<and> CIRCLE_ABORT_FLAG (ps 0) \<noteq> 0"
proof -
  obtain p1 n1 p0 n0 q1 m1 where r: "CIRCLE_abort_check fifo_mpi (CIRCLE_bcast_abort (idle_pair 1)) (quiet_net 2) False = Inr (p1, n1)"
    "CIRCLE_abort_check fifo_mpi (idle_pair 0) n1 False = Inr (p0, n0)" "CIRCLE_abort_check fifo_mpi p1 n0 False = Inr (q1, m1)"
    "abort_state q1 = 1" "list_all (\<lambda>x. snd (snd (fst x)) \<noteq> CIRCLE_TAG_ABORT_REQUEST) (f_msgs m1)"
    using idle_pair_floods by (elim returnsE) (clarsimp elim!: returnsE)
  let ?S = "flood_step fifo_mpi f_chan fifo_posted 2"
  define a where "a = idle_pair(1 := CIRCLE_bcast_abort (idle_pair 1))"
  have s1: "?S (idle_pair, quiet_net 2) (a, quiet_net 2)" unfolding a_def by (rule flood_step.abort) simp
  define b where "b = a(1 := p1)"
  define c where "c = b(0 := p0)"
  define d where "d = c(1 := q1)"
  have s2: "?S (a, quiet_net 2) (b, n1)" unfolding b_def by (rule flood_step.check) (use r(1) in \<open>simp_all add: a_def\<close>)
  have s3: "?S (b, n1) (c, n0)" unfolding c_def by (rule flood_step.check) (use r(2) in \<open>simp_all add: b_def a_def\<close>)
  have s4: "?S (c, n0) (d, m1)" unfolding d_def by (rule flood_step.check) (use r(3) in \<open>simp_all add: c_def b_def\<close>)
  have run: "?S\<^sup>*\<^sup>* (idle_pair, quiet_net 2) (d, m1)"
    using s1 s2 s3 s4 by (meson converse_rtranclp_into_rtranclp rtranclp.rtrancl_refl)
  have quiet: "f_chan m1 (x, y, CIRCLE_TAG_ABORT_REQUEST) = []" for x y
    using r(5) by (auto simp: f_chan_def list_all_iff filter_empty_conv)
  show ?thesis
    using abort_reaches_all [OF fifo.mpi_comm_axioms _ idle_pair_ready run quiet, of 1 0] r(4) run
    by (intro exI [of _ d] exI [of _ m1]) (simp add: d_def)
qed

end
