(* ===== verification/Echo.thy ===== *)
theory Echo
  imports Tree
begin

text \<open>
  An abstract protocol over the tree of ranks: a value rises from the leaves, each rank combining its own
  with those of its children, and the result of the root falls to all ranks. Theory \<open>AbortReduce\<close>
  shows that the processes in \<open>CIRCLE_abort_reduce\<close> follow it.
\<close>

section \<open>Steps\<close>

text \<open>
  \<open>e_own\<close> is the flag a rank brings, \<open>e_up\<close> the flag it has computed, \<open>e_end\<close> the flag it has left with;
  \<open>e_rise\<close> and \<open>e_fall\<close> are the messages under way to and from the parent of a rank.
\<close>

record echo =
  e_own :: "int \<Rightarrow> bool"
  e_up :: "int \<Rightarrow> bool option"
  e_end :: "int \<Rightarrow> bool option"
  e_rise :: "int \<Rightarrow> bool list"
  e_fall :: "int \<Rightarrow> bool list"

definition joined :: "echo \<Rightarrow> (int \<Rightarrow> int list) \<Rightarrow> (int \<Rightarrow> bool) \<Rightarrow> int \<Rightarrow> bool" where
  "joined s kids v i \<longleftrightarrow> e_own s i \<or> (\<exists>c \<in> set (kids i). v c)"

inductive echo_step :: "int \<Rightarrow> (int \<Rightarrow> int list) \<Rightarrow> echo \<Rightarrow> echo \<Rightarrow> bool" for ranks kids where
  rise: "i \<in> {0..<ranks} \<Longrightarrow> e_up s i = None \<Longrightarrow> (\<And>c. c \<in> set (kids i) \<Longrightarrow> e_rise s c = v c # ms c) \<Longrightarrow>
    b = joined s kids v i \<Longrightarrow>
    echo_step ranks kids s (s\<lparr>e_up := (e_up s)(i := Some b),
      e_rise := (\<lambda>j. if j \<in> set (kids i) then ms j else if j = i \<and> i \<noteq> 0 then e_rise s i @ [b] else e_rise s j)\<rparr>)"
| fall: "i \<in> {0..<ranks} \<Longrightarrow> e_up s i = Some b0 \<Longrightarrow> e_end s i = None \<Longrightarrow>
    (if i = 0 then b = b0 \<and> fs = e_fall s 0 else e_fall s i = b # fs) \<Longrightarrow>
    echo_step ranks kids s (s\<lparr>e_end := (e_end s)(i := Some b),
      e_fall := (\<lambda>j. if j \<in> set (kids i) then e_fall s j @ [b] else if j = i then fs else e_fall s j)\<rparr>)"

section \<open>The invariant\<close>

definition echo_inv :: "int \<Rightarrow> (int \<Rightarrow> int) \<Rightarrow> (int \<Rightarrow> int list) \<Rightarrow> echo \<Rightarrow> bool" where
  "echo_inv ranks parent kids s \<longleftrightarrow>
     (\<forall>i \<in> {0..<ranks}. \<forall>b. e_up s i = Some b \<longrightarrow> (\<forall>c \<in> set (kids i). e_up s c \<noteq> None)
        \<and> b = joined s kids (\<lambda>c. e_up s c = Some True) i)
     \<and> (\<forall>i \<in> {0<..<ranks}. e_rise s i = (case e_up s i of None \<Rightarrow> []
          | Some b \<Rightarrow> if e_up s (parent i) = None then [b] else []))
     \<and> (\<forall>i \<in> {0<..<ranks}. e_fall s i = (case e_end s (parent i) of None \<Rightarrow> []
          | Some b \<Rightarrow> if e_end s i = None then [b] else []))
     \<and> (\<forall>i \<in> {0..<ranks}. \<forall>b. e_end s i = Some b \<longrightarrow> e_up s 0 = Some b \<and> (0 < i \<longrightarrow> e_end s (parent i) \<noteq> None))"

context rank_tree
begin

lemma echo_invD:
  assumes "echo_inv ranks parent kids s" and "i \<in> {0..<ranks}"
  shows "e_up s i = Some b \<Longrightarrow> c \<in> set (kids i) \<Longrightarrow> e_up s c \<noteq> None"
    and "e_up s i = Some b \<Longrightarrow> b = joined s kids (\<lambda>c. e_up s c = Some True) i"
    and "0 < i \<Longrightarrow> e_rise s i = (case e_up s i of None \<Rightarrow> [] | Some b \<Rightarrow> if e_up s (parent i) = None then [b] else [])"
    and "0 < i \<Longrightarrow> e_fall s i = (case e_end s (parent i) of None \<Rightarrow> [] | Some b \<Rightarrow> if e_end s i = None then [b] else [])"
    and "e_end s i = Some b \<Longrightarrow> e_up s 0 = Some b"
    and "e_end s i = Some b \<Longrightarrow> 0 < i \<Longrightarrow> e_end s (parent i) \<noteq> None"
  using assms unfolding echo_inv_def by (auto simp: Ball_def)

lemma echo_invI:
  assumes "\<And>i b c. i \<in> {0..<ranks} \<Longrightarrow> e_up s i = Some b \<Longrightarrow> c \<in> set (kids i) \<Longrightarrow> e_up s c \<noteq> None"
    and "\<And>i b. i \<in> {0..<ranks} \<Longrightarrow> e_up s i = Some b \<Longrightarrow> b = joined s kids (\<lambda>c. e_up s c = Some True) i"
    and "\<And>i. i \<in> {0<..<ranks} \<Longrightarrow> e_rise s i = (case e_up s i of None \<Rightarrow> [] | Some b \<Rightarrow> if e_up s (parent i) = None then [b] else [])"
    and "\<And>i. i \<in> {0<..<ranks} \<Longrightarrow> e_fall s i = (case e_end s (parent i) of None \<Rightarrow> [] | Some b \<Rightarrow> if e_end s i = None then [b] else [])"
    and "\<And>i b. i \<in> {0..<ranks} \<Longrightarrow> e_end s i = Some b \<Longrightarrow> e_up s 0 = Some b \<and> (0 < i \<longrightarrow> e_end s (parent i) \<noteq> None)"
  shows "echo_inv ranks parent kids s"
  unfolding echo_inv_def using assms by blast

text \<open>A child of a rank, and the parent of one.\<close>

lemma kid_ranks:
  assumes "i \<in> {0..<ranks}" and "c \<in> set (kids i)"
  shows "c \<in> {0<..<ranks}" "parent c = i" "c \<noteq> i"
  using assms kids_iff [of i c] kids_range [of i c] by auto

lemma is_kid: "c \<in> {0<..<ranks} \<Longrightarrow> c \<in> set (kids (parent c)) \<and> parent c \<in> {0..<ranks} \<and> parent c \<noteq> c"
  using parent_below [of c] kids_iff [of "parent c" c] by auto

text \<open>When a rank has all its values, so has every rank below it; if it has the result, its own value counted.\<close>

lemma echo_up_root:
  assumes inv: "echo_inv ranks parent kids s" and "i \<in> {0..<ranks}" and "e_up s 0 \<noteq> None"
  shows "e_up s i \<noteq> None"
proof -
  have "0 \<le> i" "i < ranks" using assms(2) by auto
  then show ?thesis
  proof (induction rule: from_root)
    case (kid c)
    then show ?case using is_kid [of c] echo_invD(1) [OF inv, of "parent c" _ c] by auto
  qed (use assms(3) in simp)
qed

lemma echo_value:
  assumes inv: "echo_inv ranks parent kids s" and r: "0 < ranks" and top: "e_up s 0 = Some b"
  shows "b \<longleftrightarrow> (\<exists>i \<in> {0..<ranks}. e_own s i)"
proof
  assume b: "b"
  show "\<exists>i \<in> {0..<ranks}. e_own s i"
  proof (rule ccontr)
    assume none: "\<not> (\<exists>i \<in> {0..<ranks}. e_own s i)"
    have "0 \<le> (0 :: int)" "0 < ranks" using r by simp_all
    then have "e_up s 0 \<noteq> Some True"
    proof (induction rule: from_leaves)
      case (node p)
      then show ?case using echo_invD(2) [OF inv, of p True] none by (auto simp: joined_def)
    qed
    with top b show False by simp
  qed
next
  assume "\<exists>i \<in> {0..<ranks}. e_own s i"
  then obtain i where i: "0 \<le> i" "i < ranks" "e_own s i" by auto
  have all: "e_up s j \<noteq> None" if "j \<in> {0..<ranks}" for j using echo_up_root [OF inv that] top by simp
  have "e_up s i = Some True"
    using all [of i] echo_invD(2) [OF inv, of i] i by (auto simp: joined_def)
  moreover have "e_up s r = Some True \<longrightarrow> e_up s 0 = Some True" if "0 \<le> r" "r < ranks" for r
    using that
  proof (induction rule: from_root)
    case (kid c)
    have "e_up s c = Some True \<longrightarrow> e_up s (parent c) = Some True"
      using is_kid [of c] kid(1,2) all [of "parent c"] echo_invD(2) [OF inv, of "parent c"] by (auto simp: joined_def)
    then show ?case using kid(3) by simp
  qed simp
  ultimately show b using top i by simp
qed

end

section \<open>Every step keeps the invariant\<close>

context rank_tree
begin

lemma echo_rise_keeps:
  assumes inv: "echo_inv ranks parent kids s" and i: "i \<in> {0..<ranks}" and up: "e_up s i = None"
    and v: "\<And>c. c \<in> set (kids i) \<Longrightarrow> e_rise s c = v c # ms c" and b: "b = joined s kids v i"
  shows "echo_inv ranks parent kids (s\<lparr>e_up := (e_up s)(i := Some b),
      e_rise := (\<lambda>j. if j \<in> set (kids i) then ms j else if j = i \<and> i \<noteq> 0 then e_rise s i @ [b] else e_rise s j)\<rparr>)"
    (is "echo_inv _ _ _ ?s")
proof -
  have kid: "e_up s c = Some (v c)" "ms c = []" if "c \<in> set (kids i)" for c
    using v [OF that] echo_invD(3) [OF inv, of c] kid_ranks [OF i that] by (auto split: option.splits if_splits)
  have pi: "e_up s (parent i) = None" if "0 < i"
    using echo_invD(1) [OF inv, of "parent i" _ i] is_kid [of i] i up that by (cases "e_up s (parent i)") auto
  have top: "e_up s 0 = Some x \<Longrightarrow> False" for x using echo_up_root [OF inv i] up by simp
  have none: "e_end s j = None" if "j \<in> {0..<ranks}" for j using echo_invD(5) [OF inv that] top by (cases "e_end s j") auto
  have up1: "(\<forall>c \<in> set (kids j). e_up ?s c \<noteq> None) \<and> x = joined ?s kids (\<lambda>c. e_up ?s c = Some True) j"
    if j: "j \<in> {0..<ranks}" and x: "e_up ?s j = Some x" for j x
  proof (cases "j = i")
    case True
    have "joined ?s kids (\<lambda>c. e_up ?s c = Some True) i = b"
      unfolding b using kid kid_ranks(3) [OF i] by (auto simp: joined_def)
    moreover have "x = b" using True x by simp
    ultimately show ?thesis unfolding True using kid by auto
  next
    case False
    then have x': "e_up s j = Some x" using x by simp
    then have "i \<notin> set (kids j)" using echo_invD(1) [OF inv j x'] up by blast
    then show ?thesis
      using echo_invD(1,2) [OF inv j x'] by (auto simp: joined_def)
  qed
  have rise1: "e_rise ?s j = (case e_up ?s j of None \<Rightarrow> [] | Some b \<Rightarrow> if e_up ?s (parent j) = None then [b] else [])"
    if j: "j \<in> {0<..<ranks}" for j
  proof -
    consider (kid) "j \<in> set (kids i)" | (self) "j = i" | (else) "j \<notin> set (kids i)" "j \<noteq> i" by blast
    then show ?thesis
    proof cases
      case kid
      then show ?thesis using \<open>\<And>c. c \<in> set (kids i) \<Longrightarrow> ms c = []\<close> kid_ranks [OF i kid] \<open>\<And>c. c \<in> set (kids i) \<Longrightarrow> e_up s c = Some (v c)\<close>
        by simp
    next
      case self
      then show ?thesis using kid_ranks(3) [OF i, of i] echo_invD(3) [OF inv i] j up pi is_kid [OF j] by auto
    next
      case else
      then have "parent j \<noteq> i" using is_kid [OF j] by auto
      then show ?thesis using echo_invD(3) [OF inv, of j] j else by (auto split: option.split)
    qed
  qed
  show ?thesis
  proof (rule echo_invI, goal_cases)
    case (1 j x c) then show ?case using up1 by blast
  next
    case (2 j x) then show ?case using up1 by blast
  next
    case (3 j) then show ?case by (rule rise1)
  next
    case (4 j) then show ?case using echo_invD(4) [OF inv, of j] by (simp split: option.split)
  next
    case (5 j x) then show ?case using none by simp
  qed
qed

lemma echo_fall_keeps:
  assumes inv: "echo_inv ranks parent kids s" and i: "i \<in> {0..<ranks}" and up: "e_up s i = Some b0" and no: "e_end s i = None"
    and b: "if i = 0 then b = b0 \<and> fs = e_fall s 0 else e_fall s i = b # fs"
  shows "echo_inv ranks parent kids (s\<lparr>e_end := (e_end s)(i := Some b),
      e_fall := (\<lambda>j. if j \<in> set (kids i) then e_fall s j @ [b] else if j = i then fs else e_fall s j)\<rparr>)"
    (is "echo_inv _ _ _ ?s")
proof -
  have here: "e_end s (parent i) = Some b \<and> fs = []" if "0 < i"
    using echo_invD(4) [OF inv i] b that no by (auto split: option.splits if_splits)
  have top: "e_up s 0 = Some b"
    using b up here echo_invD(5) [OF inv, of "parent i" b] is_kid [of i] i by (cases "i = 0") auto
  have below: "e_end s c = None" "e_fall s c = []" if "c \<in> set (kids i)" for c
    using kid_ranks [OF i that] echo_invD(6) [OF inv, of c] echo_invD(4) [OF inv, of c] no
    by (cases "e_end s c"; auto)+
  have fall1: "e_fall ?s j = (case e_end ?s (parent j) of None \<Rightarrow> [] | Some b \<Rightarrow> if e_end ?s j = None then [b] else [])"
    if j: "j \<in> {0<..<ranks}" for j
  proof -
    consider (kid) "j \<in> set (kids i)" | (self) "j = i" | (else) "j \<notin> set (kids i)" "j \<noteq> i" by blast
    then show ?thesis
    proof cases
      case kid
      then show ?thesis using below [OF kid] kid_ranks [OF i kid] by simp
    next
      case self
      then show ?thesis using kid_ranks(3) [OF i, of i] here j is_kid [OF j] by auto
    next
      case else
      then have "parent j \<noteq> i" using is_kid [OF j] by auto
      then show ?thesis using echo_invD(4) [OF inv, of j] j else by (auto split: option.split)
    qed
  qed
  show ?thesis
  proof (rule echo_invI, goal_cases)
    case (1 j x c) then show ?case using echo_invD(1) [OF inv, of j] by simp
  next
    case (2 j x) then show ?case using echo_invD(2) [OF inv, of j] by (simp add: joined_def)
  next
    case (3 j) then show ?case using echo_invD(3) [OF inv, of j] by (simp split: option.split)
  next
    case (4 j) then show ?case by (rule fall1)
  next
    case (5 j x)
    then show ?case
      using echo_invD(5,6) [OF inv, of j] top here by (cases "j = i") auto
  qed
qed

lemma echo_step_keeps: "echo_step ranks kids s s' \<Longrightarrow> echo_inv ranks parent kids s \<Longrightarrow> echo_inv ranks parent kids s'"
  by (erule echo_step.cases) (auto intro: echo_rise_keeps echo_fall_keeps)

end

section \<open>Progress\<close>

text \<open>
  Until every rank has left, some rank can go on: one whose children have all reported, or one whose
  parent has answered.
\<close>

definition can_rise :: "(int \<Rightarrow> int list) \<Rightarrow> echo \<Rightarrow> int \<Rightarrow> bool" where
  "can_rise kids s i \<longleftrightarrow> e_up s i = None \<and> (\<forall>c \<in> set (kids i). e_rise s c \<noteq> [])"

definition can_fall :: "echo \<Rightarrow> int \<Rightarrow> bool" where
  "can_fall s i \<longleftrightarrow> e_up s i \<noteq> None \<and> e_end s i = None \<and> (i \<noteq> 0 \<longrightarrow> e_fall s i \<noteq> [])"

context rank_tree
begin

lemma echo_start_inv:
  assumes "e_up s = (\<lambda>_. None)" and "e_end s = (\<lambda>_. None)"
    and "\<And>i. i \<in> {0<..<ranks} \<Longrightarrow> e_rise s i = [] \<and> e_fall s i = []"
  shows "echo_inv ranks parent kids s"
  unfolding echo_inv_def using assms by simp

lemma echo_progress:
  assumes inv: "echo_inv ranks parent kids s" and j: "j \<in> {0..<ranks}" "e_end s j = None"
  shows "\<exists>i \<in> {0..<ranks}. can_rise kids s i \<or> can_fall s i"
proof (cases "\<exists>i \<in> {0..<ranks}. e_up s i = None")
  case True
  then obtain i where i: "i \<in> {0..<ranks}" "e_up s i = None" and later: "\<And>c. i < c \<Longrightarrow> c < ranks \<Longrightarrow> e_up s c \<noteq> None"
    by (metis last_rank [where P = "\<lambda>i. e_up s i = None"])
  have "e_rise s c \<noteq> []" if "c \<in> set (kids i)" for c
    using kid_ranks [OF i(1) that] kids_range [of i c] later [of c] i that echo_invD(3) [OF inv, of c] by auto
  then show ?thesis using i by (auto simp: can_rise_def)
next
  case False
  obtain i where i: "i \<in> {0..<ranks}" "e_end s i = None" and earlier: "\<And>c. 0 \<le> c \<Longrightarrow> c < i \<Longrightarrow> e_end s c \<noteq> None"
    using first_rank [where P = "\<lambda>i. e_end s i = None", OF j] by metis
  have "e_fall s i \<noteq> []" if "i \<noteq> 0"
    using parent_below [of i] earlier [of "parent i"] echo_invD(4) [OF inv i(1)] i that by auto
  then show ?thesis using i False by (auto simp: can_fall_def)
qed

end

end
