(* ===== verification/AbortReduce.thy ===== *)
theory AbortReduce
  imports Init Echo
begin

text \<open>
  The reduction of the abort states at the end of a run, by all processes in any interleaving: it follows
  the protocol of theory \<open>Echo\<close>, so all processes agree on whether the run was aborted, and
  it always completes.
\<close>

unbundle bit_operations_syntax

section \<open>The processes in the reduction\<close>

text \<open>
  \<open>j_up\<close> is what a process has computed, and perhaps sent to its parent, \<open>j_out\<close> says that it has
  returned. A process first runs up to the point where it waits for its parent, then from the answer on.
  Any traffic with other tags may go on.
\<close>

record ('u, 'n) joint =
  j_proc :: "int \<Rightarrow> 'u proc"
  j_net :: 'n
  j_up :: "int \<Rightarrow> int option"
  j_out :: "int \<Rightarrow> bool"

inductive joint_step ::
  "('n, 'z) mpi_scheme \<Rightarrow> ('n \<Rightarrow> channel \<Rightarrow> payload list) \<Rightarrow> int \<Rightarrow> ('u, 'n) joint \<Rightarrow> ('u, 'n) joint \<Rightarrow> bool"
  for E chan ranks where
  up: "i \<in> {0..<ranks} \<Longrightarrow> j_up s i = None \<Longrightarrow> abort_reduce_up E (j_proc s i) (j_net s) = Inr (flag, n') \<Longrightarrow>
    joint_step E chan ranks s (s\<lparr>j_net := n', j_up := (j_up s)(i := Some flag)\<rparr>)"
| down: "i \<in> {0..<ranks} \<Longrightarrow> j_up s i = Some flag \<Longrightarrow> \<not> j_out s i \<Longrightarrow>
    abort_reduce_down E (j_proc s i) (j_net s) flag = Inr (p', n') \<Longrightarrow>
    joint_step E chan ranks s (s\<lparr>j_proc := (j_proc s)(i := p'), j_net := n', j_out := (j_out s)(i := True)\<rparr>)"
| other: "(\<And>a b. chan n' (a, b, CIRCLE_TAG_ABORT_REDUCE) = chan (j_net s) (a, b, CIRCLE_TAG_ABORT_REDUCE)) \<Longrightarrow>
    joint_step E chan ranks s (s\<lparr>j_net := n'\<rparr>)"

section \<open>The messages of the children\<close>

text \<open>The messages of the reduction carry a flag.\<close>

definition flag_msg :: "bool \<Rightarrow> payload" where
  "flag_msg b = Ints [of_bool b]"

definition is_flag :: "payload \<Rightarrow> bool" where
  "is_flag m \<longleftrightarrow> m = flag_msg True \<or> m = flag_msg False"

definition flag_of :: "payload \<Rightarrow> bool" where
  "flag_of m \<longleftrightarrow> m = flag_msg True"

lemma flag_of_msg [simp]: "flag_of (flag_msg b) = b" "is_flag (flag_msg b)"
  by (auto simp: flag_of_def is_flag_def flag_msg_def)

lemma is_flagE: "is_flag m \<Longrightarrow> m = flag_msg (flag_of m)"
  by (auto simp: is_flag_def flag_of_def flag_msg_def)

text \<open>The first message from each of the ranks \<open>cs\<close> taken.\<close>

definition drained :: "(channel \<Rightarrow> payload list) \<Rightarrow> int \<Rightarrow> int list \<Rightarrow> int \<Rightarrow> channel \<Rightarrow> payload list" where
  "drained c me cs t key = (if fst key \<in> set cs \<and> snd key = (me, t) then tl (c key) else c key)"

lemma drained_Nil [simp]: "drained c me [] t = c"
  by (simp add: drained_def fun_eq_iff)

lemma drained_Cons:
  assumes "x \<notin> set cs"
  shows "drained (c((x, me, t) := tl (c (x, me, t)))) me cs t = drained c me (x # cs) t"
  using assms by (auto simp: drained_def fun_eq_iff)

lemma of_bool_or: "(of_bool a :: int) OR of_bool b = of_bool (a \<or> b)"
  by (cases a; cases b) simp_all

abbreviation collect_flags :: "('n, 'z) mpi_scheme \<Rightarrow> int \<Rightarrow> int list \<Rightarrow> int \<times> 'n \<Rightarrow> (int \<times> 'n) result" where
  "collect_flags E me \<equiv> for_list (\<lambda>child (flag, n).
     andThen (recv_int E n me child CIRCLE_TAG_ABORT_REDUCE) (\<lambda>(child_flag, n). Inr (flag OR child_flag, n)))"

lemma collect_flags_result:
  assumes comm: "mpi_comm E chan posted" and "distinct cs"
    and "collect_flags E me cs (of_bool a, n) = Inr (flag, n')"
    and "\<forall>c \<in> set cs. \<forall>m \<in> set (chan n (c, me, CIRCLE_TAG_ABORT_REDUCE)). is_flag m"
  shows "(\<forall>c \<in> set cs. chan n (c, me, CIRCLE_TAG_ABORT_REDUCE) \<noteq> [])
    \<and> flag = of_bool (a \<or> (\<exists>c \<in> set cs. flag_of (hd (chan n (c, me, CIRCLE_TAG_ABORT_REDUCE)))))
    \<and> chan n' = drained (chan n) me cs CIRCLE_TAG_ABORT_REDUCE"
  using assms(2-4)
proof (induction cs arbitrary: a n)
  case (Cons x cs)
  from Cons.prems(2) obtain v n1 where v: "recv_int E n me x CIRCLE_TAG_ABORT_REDUCE = Inr (v, n1)"
    and rest: "collect_flags E me cs (of_bool a OR v, n1) = Inr (flag, n')" by (auto simp: outcome)
  from mpi_comm.MPI_Recv_takes [OF comm] v obtain ms where
    ch: "chan n (x, me, CIRCLE_TAG_ABORT_REDUCE) = Ints [v] # ms" "chan n1 = (chan n)((x, me, CIRCLE_TAG_ABORT_REDUCE) := ms)"
    unfolding recv_int_eq by blast
  have "is_flag (Ints [v])" using Cons.prems(3) ch(1) by simp
  then obtain b where v': "v = of_bool b" using that [of True] that [of False] by (auto simp: is_flag_def flag_msg_def)
  then have b: "flag_of (Ints [v]) = b" using flag_of_msg(1) [of b] by (simp add: flag_msg_def)
  have rest': "collect_flags E me cs (of_bool (a \<or> b), n1) = Inr (flag, n')"
    using rest unfolding v' of_bool_or .
  have other: "chan n1 (c, me, CIRCLE_TAG_ABORT_REDUCE) = chan n (c, me, CIRCLE_TAG_ABORT_REDUCE)" if "c \<in> set cs" for c
    using that Cons.prems(1) ch(2) by auto
  have same: "(\<forall>c \<in> set cs. chan n1 (c, me, CIRCLE_TAG_ABORT_REDUCE) \<noteq> []) = (\<forall>c \<in> set cs. chan n (c, me, CIRCLE_TAG_ABORT_REDUCE) \<noteq> [])"
    "(\<exists>c \<in> set cs. flag_of (hd (chan n1 (c, me, CIRCLE_TAG_ABORT_REDUCE)))) = (\<exists>c \<in> set cs. flag_of (hd (chan n (c, me, CIRCLE_TAG_ABORT_REDUCE))))"
    using other by auto
  have "\<forall>c \<in> set cs. \<forall>m \<in> set (chan n1 (c, me, CIRCLE_TAG_ABORT_REDUCE)). is_flag m"
    using other Cons.prems(3) by simp
  then have ih: "(\<forall>c \<in> set cs. chan n1 (c, me, CIRCLE_TAG_ABORT_REDUCE) \<noteq> [])
    \<and> flag = of_bool ((a \<or> b) \<or> (\<exists>c \<in> set cs. flag_of (hd (chan n1 (c, me, CIRCLE_TAG_ABORT_REDUCE)))))
    \<and> chan n' = drained (chan n1) me cs CIRCLE_TAG_ABORT_REDUCE"
    using Cons.prems(1) by (intro Cons.IH [OF _ rest']) auto
  have "chan n1 = (chan n)((x, me, CIRCLE_TAG_ABORT_REDUCE) := tl (chan n (x, me, CIRCLE_TAG_ABORT_REDUCE)))" using ch by simp
  then have "drained (chan n1) me cs CIRCLE_TAG_ABORT_REDUCE = drained (chan n) me (x # cs) CIRCLE_TAG_ABORT_REDUCE"
    using drained_Cons [of x cs "chan n"] Cons.prems(1) by simp
  then show ?case using ih [unfolded same] ch(1) b by (simp add: disj_assoc)
qed simp

lemma collect_flags_total:
  assumes comm: "mpi_comm E chan posted" and "distinct cs"
    and "\<forall>c \<in> set cs. \<forall>m \<in> set (chan n (c, me, CIRCLE_TAG_ABORT_REDUCE)). is_flag m"
    and "\<And>c. c \<in> set cs \<Longrightarrow> chan n (c, me, CIRCLE_TAG_ABORT_REDUCE) \<noteq> []"
  shows "\<exists>r. collect_flags E me cs (a, n) = Inr r"
  using assms(2-4)
proof (induction cs arbitrary: a n)
  case (Cons x cs)
  obtain m ms where m: "chan n (x, me, CIRCLE_TAG_ABORT_REDUCE) = m # ms" using Cons.prems(3) [of x] by (auto simp: neq_Nil_conv)
  obtain v where v: "m = Ints [v]" using is_flagE [of m] Cons.prems(2) m by (auto simp: flag_msg_def)
  from mpi_comm.MPI_Recv_gets [OF comm m] obtain n1 where
    "MPI_Recv E n me x CIRCLE_TAG_ABORT_REDUCE = Inr (m, n1)" and n1: "chan n1 = (chan n)((x, me, CIRCLE_TAG_ABORT_REDUCE) := ms)"
    by blast
  then have "recv_int E n me x CIRCLE_TAG_ABORT_REDUCE = Inr (v, n1)" by (simp add: recv_int_eq v)
  moreover have "chan n1 (c, me, CIRCLE_TAG_ABORT_REDUCE) = chan n (c, me, CIRCLE_TAG_ABORT_REDUCE)" if "c \<in> set cs" for c
    using that Cons.prems(1) n1 by auto
  then have "\<exists>r. collect_flags E me cs (a OR v, n1) = Inr r" using Cons.prems by (intro Cons.IH) auto
  ultimately show ?case by (simp add: outcome)
qed simp

section \<open>The two parts of the call\<close>

lemma reduce_up_result:
  assumes comm: "mpi_comm E chan posted" and t: "tree_ok E k ranks p" and own: "CIRCLE_ABORT_FLAG p = of_bool a" and k: "0 < k"
    and r: "rank p \<in> {0..<ranks}"
    and flags: "\<forall>c \<in> set (tree_kids k ranks (rank p)). \<forall>m \<in> set (chan n (c, rank p, CIRCLE_TAG_ABORT_REDUCE)). is_flag m"
    and run: "abort_reduce_up E p n = Inr (flag, n')"
  obtains b where "flag = of_bool b"
    and "b = (a \<or> (\<exists>c \<in> set (tree_kids k ranks (rank p)). flag_of (hd (chan n (c, rank p, CIRCLE_TAG_ABORT_REDUCE)))))"
    and "\<And>c. c \<in> set (tree_kids k ranks (rank p)) \<Longrightarrow> chan n (c, rank p, CIRCLE_TAG_ABORT_REDUCE) \<noteq> []"
    and "chan n' = (let c = drained (chan n) (rank p) (tree_kids k ranks (rank p)) CIRCLE_TAG_ABORT_REDUCE in
      if rank p = 0 then c else put c (rank p, tree_parent k (rank p), CIRCLE_TAG_ABORT_REDUCE) (flag_msg b))"
proof -
  obtain n1 where c: "collect_flags E (rank p) (tree_kids k ranks (rank p)) (of_bool a, n) = Inr (flag, n1)"
    and n': "if rank p = 0 then n' = n1
      else MPI_Send E n1 (rank p) (tree_parent k (rank p)) CIRCLE_TAG_ABORT_REDUCE (Ints [flag]) = Inr n'"
    using run t own parent_null [OF comm t r k] by (auto simp: abort_reduce_up_def outcome tree_ok_def split: if_splits)
  have "distinct (tree_kids k ranks (rank p))" by (simp add: tree_kids_def)
  note c = collect_flags_result [OF comm this c flags]
  show ?thesis
    by (rule that [OF conjunct1 [OF conjunct2 [OF c]] refl])
      (use c n' mpi_comm.MPI_Send_adds [OF comm, of n1] in \<open>auto simp: put_def flag_msg_def Let_def split: if_splits\<close>)
qed

lemma reduce_up_total:
  assumes comm: "mpi_comm E chan posted" and buf: "sends_buffered E" and t: "tree_ok E k ranks p"
    and flags: "\<forall>c \<in> set (tree_kids k ranks (rank p)). \<forall>m \<in> set (chan n (c, rank p, CIRCLE_TAG_ABORT_REDUCE)). is_flag m"
    and "\<And>c. c \<in> set (tree_kids k ranks (rank p)) \<Longrightarrow> chan n (c, rank p, CIRCLE_TAG_ABORT_REDUCE) \<noteq> []"
  shows "\<exists>flag n'. abort_reduce_up E p n = Inr (flag, n')"
proof -
  have "distinct (tree_kids k ranks (rank p))" by (simp add: tree_kids_def)
  from collect_flags_total [OF comm this flags assms(5)] obtain flag n1 where
    "collect_flags E (rank p) (tree_kids k ranks (rank p)) (CIRCLE_ABORT_FLAG p, n) = Inr (flag, n1)" by fastforce
  moreover obtain n2 where "MPI_Send E n1 (rank p) (parent_rank (tree p)) CIRCLE_TAG_ABORT_REDUCE (Ints [flag]) = Inr n2"
    using buffered_send [OF buf] by blast
  ultimately show ?thesis using tree_okD(1) [OF t] by (simp add: abort_reduce_up_def)
qed

lemma signed_flag [simp]: "signed_take_bit 7 (of_bool b :: int) = of_bool b"
  by (cases b) simp_all

lemma reduce_down_result:
  assumes comm: "mpi_comm E chan posted" and t: "tree_ok E k ranks p" and k: "0 < k" and r: "rank p \<in> {0..<ranks}"
    and flags: "\<And>m. m \<in> set (chan n (tree_parent k (rank p), rank p, CIRCLE_TAG_ABORT_REDUCE)) \<Longrightarrow> is_flag m"
    and run: "abort_reduce_down E p n (of_bool b0) = Inr (p', n')"
  obtains b fs where "if rank p = 0 then b = b0 \<and> fs = chan n (tree_parent k (rank p), rank p, CIRCLE_TAG_ABORT_REDUCE)
      else chan n (tree_parent k (rank p), rank p, CIRCLE_TAG_ABORT_REDUCE) = flag_msg b # fs"
    and "p' = p\<lparr>CIRCLE_ABORT_FLAG := of_bool b, abort_state := of_bool b\<rparr>"
    and "chan n' = fan ((chan n)((tree_parent k (rank p), rank p, CIRCLE_TAG_ABORT_REDUCE) := fs)) (rank p)
      (tree_kids k ranks (rank p)) CIRCLE_TAG_ABORT_REDUCE (flag_msg b)"
proof -
  let ?key = "(tree_parent k (rank p), rank p, CIRCLE_TAG_ABORT_REDUCE)"
  obtain v n1 where a: "(if rank p = 0 then Inr (of_bool b0, n)
        else recv_int E n (rank p) (tree_parent k (rank p)) CIRCLE_TAG_ABORT_REDUCE) = Inr (v, n1)"
    and c: "send_children E (tree p) n1 (rank p) CIRCLE_TAG_ABORT_REDUCE (Ints [v]) = Inr n'"
    and p': "p' = p\<lparr>CIRCLE_ABORT_FLAG := signed_take_bit 7 v, abort_state := v\<rparr>"
    using run parent_null [OF comm t r k] tree_okD(3) [OF t] by (auto simp: abort_reduce_down_def outcome split: if_splits)
  obtain b fs where b: "v = of_bool b" "chan n1 = (chan n)(?key := fs)"
    "if rank p = 0 then b = b0 \<and> fs = chan n ?key else chan n ?key = flag_msg b # fs"
  proof (cases "rank p = 0")
    case True
    then show ?thesis using a that [of b0 "chan n ?key"] by simp
  next
    case False
    then obtain ms where ms: "chan n ?key = Ints [v] # ms" "chan n1 = (chan n)(?key := ms)"
      using a mpi_comm.MPI_Recv_takes [OF comm] unfolding recv_int_eq if_not_P [OF False] by blast
    then have "is_flag (Ints [v])" using flags by simp
    then show ?thesis using that [of True ms] that [of False ms] ms False by (auto simp: is_flag_def flag_msg_def)
  qed
  from send_children_run [OF comm t c] b p' show ?thesis
    by (intro that [of b fs]) (simp_all add: flag_msg_def)
qed

lemma reduce_down_total:
  assumes comm: "mpi_comm E chan posted" and buf: "sends_buffered E" and t: "tree_ok E k ranks p" and k: "0 < k" and r: "rank p \<in> {0..<ranks}"
    and flags: "\<And>m. m \<in> set (chan n (tree_parent k (rank p), rank p, CIRCLE_TAG_ABORT_REDUCE)) \<Longrightarrow> is_flag m"
    and "rank p \<noteq> 0 \<Longrightarrow> chan n (tree_parent k (rank p), rank p, CIRCLE_TAG_ABORT_REDUCE) \<noteq> []"
  shows "\<exists>p' n'. abort_reduce_down E p n flag = Inr (p', n')"
proof -
  note sends = buffered_sends [OF buf]
  have "\<exists>v n1. (if rank p = 0 then Inr (flag, n)
        else recv_int E n (rank p) (tree_parent k (rank p)) CIRCLE_TAG_ABORT_REDUCE) = Inr (v, n1)"
  proof (cases "rank p = 0")
    case False
    then obtain m ms where m: "chan n (tree_parent k (rank p), rank p, CIRCLE_TAG_ABORT_REDUCE) = m # ms"
      using assms(7) by (auto simp: neq_Nil_conv)
    moreover obtain v where "m = Ints [v]" using is_flagE [OF flags [of m]] m by (auto simp: flag_msg_def)
    ultimately show ?thesis using mpi_comm.MPI_Recv_gets [OF comm m] False by (auto simp: recv_int_eq)
  qed simp
  then show ?thesis
    using tree_okD [OF t] parent_null [OF comm t r k] sends
    by (auto simp: abort_reduce_down_def send_children_def outcome)
qed

section \<open>The processes follow the protocol\<close>

definition echo_of :: "('n \<Rightarrow> channel \<Rightarrow> payload list) \<Rightarrow> int \<Rightarrow> (int \<Rightarrow> bool) \<Rightarrow> ('u, 'n) joint \<Rightarrow> echo" where
  "echo_of chan k own s = \<lparr>e_own = own, e_up = (\<lambda>i. map_option (\<lambda>v. v \<noteq> 0) (j_up s i)),
     e_end = (\<lambda>i. if j_out s i then Some (CIRCLE_ABORT_FLAG (j_proc s i) \<noteq> 0) else None),
     e_rise = (\<lambda>i. map flag_of (chan (j_net s) (i, tree_parent k i, CIRCLE_TAG_ABORT_REDUCE))),
     e_fall = (\<lambda>i. map flag_of (chan (j_net s) (tree_parent k i, i, CIRCLE_TAG_ABORT_REDUCE)))\<rparr>"

definition joint_ok ::
  "('n, 'z) mpi_scheme \<Rightarrow> ('n \<Rightarrow> channel \<Rightarrow> payload list) \<Rightarrow> int \<Rightarrow> int \<Rightarrow> (int \<Rightarrow> bool) \<Rightarrow> ('u, 'n) joint \<Rightarrow> bool" where
  "joint_ok E chan k ranks own s \<longleftrightarrow>
     (\<forall>i \<in> {0..<ranks}. rank (j_proc s i) = i \<and> tree_ok E k ranks (j_proc s i)
        \<and> (\<not> j_out s i \<longrightarrow> CIRCLE_ABORT_FLAG (j_proc s i) = of_bool (own i))
        \<and> (j_out s i \<longrightarrow> j_up s i \<noteq> None \<and> (\<exists>b. CIRCLE_ABORT_FLAG (j_proc s i) = of_bool b \<and> abort_state (j_proc s i) = of_bool b))
        \<and> (\<forall>v. j_up s i = Some v \<longrightarrow> (\<exists>b. v = of_bool b)))
     \<and> (\<forall>a b. \<forall>m \<in> set (chan (j_net s) (a, b, CIRCLE_TAG_ABORT_REDUCE)). is_flag m)"

lemma joint_okD:
  assumes "joint_ok E chan k ranks own s"
  shows "i \<in> {0..<ranks} \<Longrightarrow> rank (j_proc s i) = i" "i \<in> {0..<ranks} \<Longrightarrow> tree_ok E k ranks (j_proc s i)"
    "i \<in> {0..<ranks} \<Longrightarrow> \<not> j_out s i \<Longrightarrow> CIRCLE_ABORT_FLAG (j_proc s i) = of_bool (own i)"
    "i \<in> {0..<ranks} \<Longrightarrow> j_up s i = None \<Longrightarrow> \<not> j_out s i"
    "i \<in> {0..<ranks} \<Longrightarrow> j_up s i = Some v \<Longrightarrow> \<exists>b. v = of_bool b"
    "\<forall>m \<in> set (chan (j_net s) (a, b, CIRCLE_TAG_ABORT_REDUCE)). is_flag m"
  using assms unfolding joint_ok_def by blast+

text \<open>The two rules of the step relation.\<close>

lemma joint_up_simulates:
  assumes comm: "mpi_comm E chan posted" and k: "0 < k" and ok: "joint_ok E chan k ranks own s"
    and irange: "i \<in> {0..<ranks}" and up: "j_up s i = None" and run: "abort_reduce_up E (j_proc s i) (j_net s) = Inr (flag, n')"
    and s': "s' = s\<lparr>j_net := n', j_up := (j_up s)(i := Some flag)\<rparr>"
  shows "echo_step ranks (tree_kids k ranks) (echo_of chan k own s) (echo_of chan k own s') \<and> joint_ok E chan k ranks own s'"
proof -
  let ?t = CIRCLE_TAG_ABORT_REDUCE and ?e = "echo_of chan k own s"
  note i = irange and ap = tree_apart [OF k irange]
  have r: "rank (j_proc s i) = i" "tree_ok E k ranks (j_proc s i)" using joint_okD(1,2) [OF ok i] .
  have own: "CIRCLE_ABORT_FLAG (j_proc s i) = of_bool (own i)" using joint_okD(3,4) [OF ok i] up by simp
  obtain b where b: "flag = of_bool b"
    "b = (own i \<or> (\<exists>c \<in> set (tree_kids k ranks i). flag_of (hd (chan (j_net s) (c, i, ?t)))))"
    "\<And>c. c \<in> set (tree_kids k ranks i) \<Longrightarrow> chan (j_net s) (c, i, ?t) \<noteq> []"
    "chan n' = (let c = drained (chan (j_net s)) i (tree_kids k ranks i) ?t in
      if i = 0 then c else put c (i, tree_parent k i, ?t) (flag_msg b))"
    using reduce_up_result [OF comm r(2) own k _ _ run] joint_okD(6) [OF ok] i unfolding r(1) by blast
  define v where "v c = flag_of (hd (chan (j_net s) (c, i, ?t)))" for c
  define ms where "ms c = map flag_of (tl (chan (j_net s) (c, i, ?t)))" for c
  have rises: "e_rise ?e c = v c # ms c" if "c \<in> set (tree_kids k ranks i)" for c
    using b(3) [OF that] ap(1) [OF that] by (cases "chan (j_net s) (c, i, ?t)") (simp_all add: echo_of_def v_def ms_def)
  have view: "echo_of chan k own s' = ?e\<lparr>e_up := (e_up ?e)(i := Some b),
      e_rise := (\<lambda>j. if j \<in> set (tree_kids k ranks i) then ms j else if j = i \<and> i \<noteq> 0 then e_rise ?e i @ [b] else e_rise ?e j)\<rparr>"
    using ap unfolding s' echo_of_def ms_def
    by (auto simp: b(1,4) fun_eq_iff drained_def put_apply Let_def)
  have "echo_step ranks (tree_kids k ranks) ?e (echo_of chan k own s')"
    unfolding view
    by (rule echo_step.rise [OF i _ rises]) (use up b(2) in \<open>simp_all add: echo_of_def joined_def v_def\<close>)
  moreover have "is_flag m" if "m \<in> set (chan n' (x, y, ?t))" for m x y
  proof -
    have "set (tl xs) \<subseteq> set xs" for xs :: "payload list" by (cases xs) auto
    note tl = subsetD [OF this]
    have "m \<in> set (chan (j_net s) (x, y, ?t)) \<or> m = flag_msg b"
      using that unfolding b(4) by (auto simp: drained_def put_apply Let_def dest: tl split: if_splits)
    then show ?thesis using joint_okD(6) [OF ok] by auto
  qed
  then have "joint_ok E chan k ranks own s'" using ok b(1) unfolding joint_ok_def s' by auto
  ultimately show ?thesis by blast
qed

lemma joint_down_simulates:
  assumes comm: "mpi_comm E chan posted" and k: "0 < k" and ok: "joint_ok E chan k ranks own s"
    and i: "i \<in> {0..<ranks}" and up: "j_up s i = Some flag" and out: "\<not> j_out s i"
    and run: "abort_reduce_down E (j_proc s i) (j_net s) flag = Inr (p', n')"
    and s': "s' = s\<lparr>j_proc := (j_proc s)(i := p'), j_net := n', j_out := (j_out s)(i := True)\<rparr>"
  shows "echo_step ranks (tree_kids k ranks) (echo_of chan k own s) (echo_of chan k own s') \<and> joint_ok E chan k ranks own s'"
proof -
  let ?t = CIRCLE_TAG_ABORT_REDUCE and ?e = "echo_of chan k own s" and ?key = "(tree_parent k i, i, CIRCLE_TAG_ABORT_REDUCE)"
  note ap = tree_apart [OF k i]
  have r: "rank (j_proc s i) = i" "tree_ok E k ranks (j_proc s i)" using joint_okD(1,2) [OF ok i] .
  obtain b0 where b0: "flag = of_bool b0" using joint_okD(5) [OF ok i up] by blast
  note run' = run [unfolded b0]
  obtain b fs where b: "if i = 0 then b = b0 \<and> fs = chan (j_net s) ?key else chan (j_net s) ?key = flag_msg b # fs"
    "p' = (j_proc s i)\<lparr>CIRCLE_ABORT_FLAG := of_bool b, abort_state := of_bool b\<rparr>"
    "chan n' = fan ((chan (j_net s))(?key := fs)) i (tree_kids k ranks i) ?t (flag_msg b)"
    using reduce_down_result [OF comm r(2) k _ _ run'] joint_okD(6) [OF ok] i unfolding r(1) by blast
  have fs0: "i = 0 \<Longrightarrow> fs = chan (j_net s) ?key" using b(1) by simp
  have view: "echo_of chan k own s' = ?e\<lparr>e_end := (e_end ?e)(i := Some b),
      e_fall := (\<lambda>j. if j \<in> set (tree_kids k ranks i) then e_fall ?e j @ [b] else if j = i then map flag_of fs else e_fall ?e j)\<rparr>"
    using ap fs0 unfolding s' echo_of_def
    by (auto simp: b(2,3) fun_eq_iff fan_def)
  have "echo_step ranks (tree_kids k ranks) ?e (echo_of chan k own s')"
    unfolding view
    by (rule echo_step.fall [OF i, where ?b0.0 = b0]) (use up out b0 b(1) in \<open>auto simp: echo_of_def\<close>)
  moreover have "is_flag m" if "m \<in> set (chan n' (x, y, ?t))" for m x y
    using that joint_okD(6) [OF ok, of x y] b(1) unfolding b(3) by (auto simp: fan_def split: if_splits)
  then have "joint_ok E chan k ranks own s'"
    using ok up b(2) unfolding joint_ok_def s' by (auto simp: tree_ok_def)
  ultimately show ?thesis by blast
qed

lemma joint_step_simulates:
  assumes comm: "mpi_comm E chan posted" and k: "0 < k" and ok: "joint_ok E chan k ranks own s"
    and step: "joint_step E chan ranks s s'"
  shows "(echo_of chan k own s' = echo_of chan k own s
      \<or> echo_step ranks (tree_kids k ranks) (echo_of chan k own s) (echo_of chan k own s'))
    \<and> joint_ok E chan k ranks own s'"
  using step
proof cases
  case (up i flag n')
  then show ?thesis using joint_up_simulates [OF comm k ok] by blast
next
  case (down i flag p' n')
  then show ?thesis using joint_down_simulates [OF comm k ok] by blast
next
  case (other n')
  then have "echo_of chan k own s' = echo_of chan k own s" by (auto simp: echo_of_def fun_eq_iff)
  then show ?thesis using ok other by (simp add: joint_ok_def)
qed
section \<open>All runs\<close>

text \<open>The start: every process knows its place in the tree, and no message of the reduction is under way.\<close>

definition joint_start ::
  "('n, 'z) mpi_scheme \<Rightarrow> ('n \<Rightarrow> channel \<Rightarrow> payload list) \<Rightarrow> int \<Rightarrow> int \<Rightarrow> ('u, 'n) joint \<Rightarrow> bool" where
  "joint_start E chan k ranks s \<longleftrightarrow> j_up s = (\<lambda>_. None) \<and> j_out s = (\<lambda>_. False)
     \<and> (\<forall>i \<in> {0..<ranks}. rank (j_proc s i) = i \<and> tree_ok E k ranks (j_proc s i)
          \<and> (CIRCLE_ABORT_FLAG (j_proc s i) = 0 \<or> CIRCLE_ABORT_FLAG (j_proc s i) = 1))
     \<and> (\<forall>a b. chan (j_net s) (a, b, CIRCLE_TAG_ABORT_REDUCE) = [])"

definition joint_inv ::
  "('n, 'z) mpi_scheme \<Rightarrow> ('n \<Rightarrow> channel \<Rightarrow> payload list) \<Rightarrow> int \<Rightarrow> int \<Rightarrow> (int \<Rightarrow> bool) \<Rightarrow> ('u, 'n) joint \<Rightarrow> bool" where
  "joint_inv E chan k ranks own s \<longleftrightarrow> joint_ok E chan k ranks own s
     \<and> echo_inv ranks (tree_parent k) (tree_kids k ranks) (echo_of chan k own s)"

lemma joint_start_inv:
  assumes "joint_start E chan k ranks s" and "0 < k"
  shows "joint_inv E chan k ranks (\<lambda>i. CIRCLE_ABORT_FLAG (j_proc s i) = 1) s"
proof -
  have "echo_inv ranks (tree_parent k) (tree_kids k ranks) (echo_of chan k (\<lambda>i. CIRCLE_ABORT_FLAG (j_proc s i) = 1) s)"
    by (rule rank_tree.echo_start_inv [OF tree_facts(3) [OF assms(2)]])
      (use assms(1) in \<open>simp_all add: joint_start_def echo_of_def\<close>)
  then show ?thesis using assms(1) by (auto simp: joint_inv_def joint_ok_def joint_start_def)
qed

lemma joint_steps_keep:
  assumes comm: "mpi_comm E chan posted" and k: "0 < k" and "(joint_step E chan ranks)\<^sup>*\<^sup>* s s'" and "joint_inv E chan k ranks own s"
  shows "joint_inv E chan k ranks own s'"
  using assms(3,4)
proof (induction rule: rtranclp_induct)
  case (step s s')
  have ok: "joint_ok E chan k ranks own s" and e: "echo_inv ranks (tree_parent k) (tree_kids k ranks) (echo_of chan k own s)"
    using step(3) [OF step(4)] by (simp_all add: joint_inv_def)
  note sim = joint_step_simulates [OF comm k ok step(2)]
  then have "echo_inv ranks (tree_parent k) (tree_kids k ranks) (echo_of chan k own s')"
    using rank_tree.echo_step_keeps [OF tree_facts(3) [OF k] _ e] e by metis
  then show ?case using sim by (simp add: joint_inv_def)
qed simp

text \<open>A process that has returned has the flag of the root, which is the disjunction of all.\<close>

lemma joint_result:
  assumes inv: "joint_inv E chan k ranks own s" and k: "0 < k" and i: "i \<in> {0..<ranks}" and out: "j_out s i"
  shows "CIRCLE_ABORT_FLAG (j_proc s i) = of_bool (\<exists>j \<in> {0..<ranks}. own j)"
    and "abort_state (j_proc s i) = of_bool (\<exists>j \<in> {0..<ranks}. own j)"
proof -
  obtain b where b: "CIRCLE_ABORT_FLAG (j_proc s i) = of_bool b" "abort_state (j_proc s i) = of_bool b"
    using inv i out unfolding joint_inv_def joint_ok_def by blast
  note e = conjunct2 [OF inv [unfolded joint_inv_def]]
  have "e_end (echo_of chan k own s) i = Some b" using out b(1) by (simp add: echo_of_def)
  then have "e_up (echo_of chan k own s) 0 = Some b" by (rule rank_tree.echo_invD(5) [OF tree_facts(3) [OF k] e i])
  from rank_tree.echo_value [OF tree_facts(3) [OF k] e _ this] i b show
    "CIRCLE_ABORT_FLAG (j_proc s i) = of_bool (\<exists>j \<in> {0..<ranks}. own j)"
    "abort_state (j_proc s i) = of_bool (\<exists>j \<in> {0..<ranks}. own j)" by (simp_all add: echo_of_def)
qed

text \<open>As long as a process has not returned, some process can go on.\<close>

lemma joint_progress:
  assumes comm: "mpi_comm E chan posted" and buf: "sends_buffered E" and k: "0 < k" and inv: "joint_inv E chan k ranks own s"
    and j: "j \<in> {0..<ranks}" "\<not> j_out s j"
  obtains i where "i \<in> {0..<ranks}" and "(j_up s i = None \<and> (\<exists>r. abort_reduce_up E (j_proc s i) (j_net s) = Inr r))
      \<or> (\<exists>flag. j_up s i = Some flag \<and> \<not> j_out s i \<and> (\<exists>r. abort_reduce_down E (j_proc s i) (j_net s) flag = Inr r))"
proof -
  let ?e = "echo_of chan k own s"
  have ok: "joint_ok E chan k ranks own s" and e: "echo_inv ranks (tree_parent k) (tree_kids k ranks) ?e"
    using inv by (simp_all add: joint_inv_def)
  have "e_end ?e j = None" using j(2) by (simp add: echo_of_def)
  from rank_tree.echo_progress [OF tree_facts(3) [OF k] e j(1) this] obtain i where
    i: "i \<in> {0..<ranks}" "can_rise (tree_kids k ranks) ?e i \<or> can_fall ?e i" by blast
  have r: "rank (j_proc s i) = i" "tree_ok E k ranks (j_proc s i)" using joint_okD(1,2) [OF ok i(1)] .
  show ?thesis
  proof (cases "can_rise (tree_kids k ranks) ?e i")
    case True
    then have "chan (j_net s) (c, i, CIRCLE_TAG_ABORT_REDUCE) \<noteq> []" if "c \<in> set (tree_kids k ranks i)" for c
      using that tree_apart(1) [OF k i(1) that] by (auto simp: can_rise_def echo_of_def)
    then have "\<exists>flag n'. abort_reduce_up E (j_proc s i) (j_net s) = Inr (flag, n')"
      using reduce_up_total [OF comm buf r(2), of "j_net s"] joint_okD(6) [OF ok] unfolding r(1) by blast
    then show ?thesis using that [OF i(1)] True by (auto simp: can_rise_def echo_of_def)
  next
    case False
    then have f: "j_up s i \<noteq> None" "\<not> j_out s i" "i \<noteq> 0 \<Longrightarrow> chan (j_net s) (tree_parent k i, i, CIRCLE_TAG_ABORT_REDUCE) \<noteq> []"
      using i(2) by (auto simp: can_fall_def echo_of_def split: if_splits)
    then obtain flag where flag: "j_up s i = Some flag" by blast
    have "\<exists>p' n'. abort_reduce_down E (j_proc s i) (j_net s) flag = Inr (p', n')"
      using reduce_down_total [OF comm buf r(2) k, of "j_net s" flag] joint_okD(6) [OF ok] f(3) i(1) unfolding r(1) by blast
    then show ?thesis using that [OF i(1)] flag f(2) by auto
  qed
qed

lemma joint_completes:
  assumes comm: "mpi_comm E chan posted" and buf: "sends_buffered E" and k: "0 < k" and "joint_inv E chan k ranks own s"
  shows "\<exists>s'. (joint_step E chan ranks)\<^sup>*\<^sup>* s s' \<and> (\<forall>i \<in> {0..<ranks}. j_out s' i)"
  using assms(4)
proof (induction "card {i \<in> {0..<ranks}. j_up s i = None} + card {i \<in> {0..<ranks}. \<not> j_out s i}" arbitrary: s rule: less_induct)
  case less
  show ?case
  proof (cases "\<forall>i \<in> {0..<ranks}. j_out s i")
    case False
    then obtain j where j: "j \<in> {0..<ranks}" "\<not> j_out s j" by blast
    have drop: "card {i \<in> {0..<ranks}. P i \<and> i \<noteq> x} < card {i \<in> {0..<ranks}. P i}" if "x \<in> {0..<ranks}" "P x" for P x
      using that by (intro psubset_card_mono) (auto intro: finite_subset [of _ "{0..<ranks}"])
    have go: ?thesis if st: "joint_step E chan ranks s s1"
      and small: "card {i \<in> {0..<ranks}. j_up s1 i = None} + card {i \<in> {0..<ranks}. \<not> j_out s1 i}
        < card {i \<in> {0..<ranks}. j_up s i = None} + card {i \<in> {0..<ranks}. \<not> j_out s i}" for s1
    proof -
      have "joint_inv E chan k ranks own s1" by (rule joint_steps_keep [OF comm k r_into_rtranclp less.prems]) (rule st)
      from less.hyps [OF small this] obtain s' where
        "(joint_step E chan ranks)\<^sup>*\<^sup>* s1 s'" "\<forall>i \<in> {0..<ranks}. j_out s' i" by blast
      then show ?thesis using converse_rtranclp_into_rtranclp [where r = "joint_step E chan ranks", OF st] by blast
    qed
    obtain i where i: "i \<in> {0..<ranks}" and "(j_up s i = None \<and> (\<exists>r. abort_reduce_up E (j_proc s i) (j_net s) = Inr r))
      \<or> (\<exists>flag. j_up s i = Some flag \<and> \<not> j_out s i \<and> (\<exists>r. abort_reduce_down E (j_proc s i) (j_net s) flag = Inr r))"
      by (rule joint_progress [OF comm buf k less.prems j])
    then show ?thesis
    proof (elim disjE exE conjE, goal_cases)
      case (1 r)
      then have st: "joint_step E chan ranks s (s\<lparr>j_net := snd r, j_up := (j_up s)(i := Some (fst r))\<rparr>)"
        by (intro joint_step.up [OF i]) simp_all
      have "{l \<in> {0..<ranks}. ((j_up s)(i := Some (fst r))) l = None} = {l \<in> {0..<ranks}. j_up s l = None \<and> l \<noteq> i}" by auto
      then show ?thesis using go [OF st] drop [of i "\<lambda>l. j_up s l = None"] i 1 by simp
    next
      case (2 flag r)
      then have st: "joint_step E chan ranks s
          (s\<lparr>j_proc := (j_proc s)(i := fst r), j_net := snd r, j_out := (j_out s)(i := True)\<rparr>)"
        by (intro joint_step.down [OF i]) simp_all
      have "{l \<in> {0..<ranks}. \<not> ((j_out s)(i := True)) l} = {l \<in> {0..<ranks}. \<not> j_out s l \<and> l \<noteq> i}" by auto
      then show ?thesis using go [OF st] drop [of i "\<lambda>l. \<not> j_out s l"] i 2 by simp
    qed
  qed blast
qed

section \<open>Properties\<close>

text \<open>
  C14. The processes agree on the outcome of a run. Let all processes call \<open>CIRCLE_abort_reduce\<close>, in any
  interleaving and for any tree width and number of ranks. When the call returns at a process, its
  \<open>CIRCLE_ABORT_FLAG\<close> and its abort state are 1 if the flag of some process was set when the calls began, and 0
  otherwise.
\<close>

theorem abort_reduce_agrees:
  assumes "mpi_comm E chan posted" and "0 < k" and "joint_start E chan k ranks s0"
    and "(joint_step E chan ranks)\<^sup>*\<^sup>* s0 s" and "i \<in> {0..<ranks}" and "j_out s i"
  shows "CIRCLE_ABORT_FLAG (j_proc s i) = of_bool (\<exists>j \<in> {0..<ranks}. CIRCLE_ABORT_FLAG (j_proc s0 j) = 1)
    \<and> abort_state (j_proc s i) = of_bool (\<exists>j \<in> {0..<ranks}. CIRCLE_ABORT_FLAG (j_proc s0 j) = 1)"
proof -
  note inv = joint_steps_keep [OF assms(1,2,4) joint_start_inv [OF assms(3,2)]]
  show ?thesis using joint_result [OF inv assms(2,5,6)] by blast
qed

text \<open>Two processes, of which rank 1 has aborted.\<close>

definition one_aborts :: "(unit, fifo_net) joint" where
  "one_aborts = \<lparr>j_proc = idle_pair(1 := idle_pair 1\<lparr>CIRCLE_ABORT_FLAG := 1\<rparr>), j_net = quiet_net 2,
     j_up = (\<lambda>_. None), j_out = (\<lambda>_. False)\<rparr>"

lemma one_aborts_start: "joint_start fifo_mpi f_chan 2 2 one_aborts"
  using idle_pair_run by (auto simp: joint_start_def one_aborts_def tree_ok_def)

lemma one_aborts_run:
  "case abort_reduce_up fifo_mpi (j_proc one_aborts 1) (j_net one_aborts) of
     Inr (f1, n1) \<Rightarrow> (case abort_reduce_up fifo_mpi (j_proc one_aborts 0) n1 of
       Inr (f0, n0) \<Rightarrow> (case abort_reduce_down fifo_mpi (j_proc one_aborts 0) n0 f0 of
         Inr (p0, m0) \<Rightarrow> True | Inl _ \<Rightarrow> False)
     | Inl _ \<Rightarrow> False)
   | Inl _ \<Rightarrow> False"
  by code_simp

theorem abort_reduce_agrees_witness:
  "\<exists>s :: (unit, fifo_net) joint. (joint_step fifo_mpi f_chan 2)\<^sup>*\<^sup>* one_aborts s
     \<and> CIRCLE_ABORT_FLAG (j_proc one_aborts 0) = 0 \<and> CIRCLE_ABORT_FLAG (j_proc s 0) = 1"
proof -
  obtain f1 n1 f0 n0 p0 m0 where r: "abort_reduce_up fifo_mpi (j_proc one_aborts 1) (j_net one_aborts) = Inr (f1, n1)"
    "abort_reduce_up fifo_mpi (j_proc one_aborts 0) n1 = Inr (f0, n0)"
    "abort_reduce_down fifo_mpi (j_proc one_aborts 0) n0 f0 = Inr (p0, m0)"
    using one_aborts_run by (elim returnsE) (clarsimp elim!: returnsE)
  define s1 where "s1 = one_aborts\<lparr>j_net := n1, j_up := (j_up one_aborts)(1 := Some f1)\<rparr>"
  define s2 where "s2 = s1\<lparr>j_net := n0, j_up := (j_up s1)(0 := Some f0)\<rparr>"
  define s3 where "s3 = s2\<lparr>j_proc := (j_proc s2)(0 := p0), j_net := m0, j_out := (j_out s2)(0 := True)\<rparr>"
  let ?S = "joint_step fifo_mpi f_chan 2"
  have "?S one_aborts s1" unfolding s1_def by (rule joint_step.up) (use r(1) in \<open>simp_all add: one_aborts_def\<close>)
  moreover have "?S s1 s2" unfolding s2_def by (rule joint_step.up) (use r(2) in \<open>simp_all add: s1_def one_aborts_def\<close>)
  moreover have "?S s2 s3"
    unfolding s3_def by (rule joint_step.down) (use r(3) in \<open>simp_all add: s2_def s1_def one_aborts_def\<close>)
  ultimately have run: "?S\<^sup>*\<^sup>* one_aborts s3" by auto
  have "CIRCLE_ABORT_FLAG (j_proc one_aborts 1) = 1" "CIRCLE_ABORT_FLAG (j_proc one_aborts 0) = 0"
    using idle_pair_run by (simp_all add: one_aborts_def)
  then show ?thesis
    using abort_reduce_agrees [OF fifo.mpi_comm_axioms _ one_aborts_start run, of 0] run
    by (intro exI [of _ s3]) (force simp: s3_def)
qed

text \<open>
  C29. The reduction of the abort states cannot deadlock. From every state that processes in \<open>CIRCLE_abort_reduce\<close>
  reach, in any interleaving, some continuation has every process return, with a library that buffers what
  is sent: the receives alone, each of which waits for one process, never wait for each other.
\<close>

theorem abort_reduce_completes:
  assumes "mpi_comm E chan posted" and "sends_buffered E" and "0 < k" and "joint_start E chan k ranks s0"
    and "(joint_step E chan ranks)\<^sup>*\<^sup>* s0 s"
  shows "\<exists>s'. (joint_step E chan ranks)\<^sup>*\<^sup>* s s' \<and> (\<forall>i \<in> {0..<ranks}. j_out s' i)"
  by (rule joint_completes [OF assms(1-3) joint_steps_keep [OF assms(1,3,5) joint_start_inv [OF assms(4,3)]]])

theorem abort_reduce_completes_witness:
  "\<exists>s :: (unit, fifo_net) joint. (joint_step fifo_mpi f_chan 2)\<^sup>*\<^sup>* one_aborts s \<and> j_out s 0 \<and> j_out s 1"
  using abort_reduce_completes [OF fifo.mpi_comm_axioms fifo_buffered _ one_aborts_start rtranclp.rtrancl_refl] by force

end
