(* ===== verification/Single.thy ===== *)
theory Single
  imports Init
begin

text \<open>
  A run on one rank with termination by the tree: the main loop ends when the program makes progress,
  with every item processed or the run aborted. No message is ever sent, so the handlers of the loop
  do nothing, and a pass processes one item or ends the loop.
\<close>

unbundle bit_operations_syntax

section \<open>The state of a single process\<close>

definition single :: "('n, 'z) mpi_scheme \<Rightarrow> ('n \<Rightarrow> channel \<Rightarrow> payload list) \<Rightarrow> 'u proc \<Rightarrow> 'n \<Rightarrow> bool" where
  "single E chan p n \<longleftrightarrow> comm_size p = 1 \<and> child_list (tree p) = Inr [] \<and> children (tree p) = 0
     \<and> parent_rank (tree p) = MPI_PROC_NULL E \<and> term_tree_enabled p \<noteq> 0 \<and> work_outstanding p = 0 \<and> term_up p = 0
     \<and> term_replies p = 0 \<and> term_flag p \<noteq> 0 \<and> work_requested p = 0 \<and> work_request_req p = MPI_REQUEST_NULL
     \<and> next_processor p = MPI_PROC_NULL E \<and> reduce_enabled p = 0 \<and> abort_outstanding p = 0 \<and> send_count p = 0
     \<and> reduce_outstanding p = 0 \<and> token_send_req p = MPI_REQUEST_NULL
     \<and> barrier_started p = 0 \<and> barrier_up p = 0 \<and> barrier_replies p = 0 \<and> (\<forall>key. chan n key = [])"

text \<open>What a pass of the loop sees of the handlers: an abort is recorded, nothing else changes.\<close>

definition noted :: "'u proc \<Rightarrow> 'u proc \<Rightarrow> bool" where
  "noted p p' \<longleftrightarrow> (\<exists>a. p' = (if CIRCLE_ABORT_FLAG p \<noteq> 0 then p\<lparr>CIRCLE_ABORT_FLAG := 1, abort_state := a\<rparr> else p))"

lemma probe_none:
  assumes "mpi_comm E chan posted" and "\<And>key. chan n key = []" and "mpi_iprobe E n me src tag = (po, n')"
  shows "po = None" "\<And>key. chan n' key = []"
proof -
  show "\<And>key. chan n' key = []" using mpi_comm.probe_keeps [OF assms(1,3)] assms(2) by simp
  show "po = None" using mpi_comm.probe_hit [OF assms(1), of n me src tag _ n'] assms(2,3) by (cases po) auto
qed

lemma abort_check_single:
  assumes comm: "mpi_comm E chan posted" and s: "single E chan p n"
  obtains p' n' where "CIRCLE_abort_check E p n False = Inr (p', n')" "noted p p'" "single E chan p' n'"
proof -
  obtain p1 where p1: "(if CIRCLE_ABORT_FLAG p \<noteq> 0 then CIRCLE_abort_start E p n False else Inr (p, n)) = Inr (p1, n)"
    "noted p p1"
  proof (cases "CIRCLE_ABORT_FLAG p = 0")
    case True
    then show ?thesis using that [of p] by (simp add: noted_def)
  next
    case False
    have "\<exists>a. CIRCLE_abort_start E p n False = Inr (p\<lparr>CIRCLE_ABORT_FLAG := 1, abort_state := a\<rparr>, n)"
    proof (cases "abort_state p = 0")
      case True
      then show ?thesis using s by (intro exI [of _ 1]) (simp add: CIRCLE_abort_start_def Let_def single_def)
    next
      case False
      then show ?thesis by (intro exI [of _ "abort_state p"]) (simp add: CIRCLE_abort_start_def Let_def)
    qed
    then show ?thesis using that False by (auto simp: noted_def)
  qed
  have s1: "single E chan p1 n" using s p1(2) by (cases "CIRCLE_ABORT_FLAG p = 0") (auto simp: noted_def single_def)
  obtain po n1 where pr: "mpi_iprobe E n (rank p1) (MPI_ANY_SOURCE E) CIRCLE_TAG_ABORT_REQUEST = (po, n1)" by fastforce
  have "chan n key = []" for key using s by (cases key) (simp add: single_def)
  note no = probe_none [OF comm this pr]
  have "CIRCLE_abort_check E p n False = Inr (p1, n1)"
    using p1(1) pr no(1) s1 by (simp add: CIRCLE_abort_check_def single_def)
  moreover have "single E chan p1 n1" using s1 no(2) by (simp add: single_def)
  ultimately show ?thesis using that p1(2) by blast
qed

lemma request_work_single:
  assumes "single E chan p n"
  shows "CIRCLE_request_work E p n False = Inr (0, p, n)"
  using assms by (simp add: CIRCLE_request_work_def single_def)

lemma term_single:
  assumes "single E chan p n"
  shows "\<exists>p'. CIRCLE_check_for_term_allreduce E p n = Inr (TERMINATE, p', n) \<and> queue p' = queue p
    \<and> CIRCLE_ABORT_FLAG p' = CIRCLE_ABORT_FLAG p \<and> single E chan p' n"
  using assms
  by (simp add: CIRCLE_check_for_term_allreduce_def term_loop.simps [of E p n] term_contribute_def term_result_def
      send_children_def single_def)

text \<open>A pass: one item, or the end of the loop.\<close>

lemma single_pass:
  assumes comm: "mpi_comm E chan posted" and s: "single E chan p n"
  obtains p1 n1 where "noted p p1" "single E chan p1 n1"
    "work_iteration E p n = work_or_terminate E p1 n1"
proof -
  obtain po n0 where pr: "mpi_iprobe E n (rank p) (MPI_ANY_SOURCE E) CIRCLE_TAG_WORK_REQUEST = (po, n0)" by fastforce
  have "chan n key = []" for key using s by (cases key) (simp add: single_def)
  note no = probe_none [OF comm this pr]
  have rq: "CIRCLE_workreq_check E p n False = Inr (p, n0)"
    using s pr no(1) by (simp add: CIRCLE_workreq_check_def workreq_loop.simps single_def)
  have s0: "single E chan p n0" using s no(2) by (simp add: single_def)
  obtain p1 n1 where ab: "CIRCLE_abort_check E p n0 False = Inr (p1, n1)" "noted p p1" "single E chan p1 n1"
    by (rule abort_check_single [OF comm s0])
  have "work_iteration E p n = work_or_terminate E p1 n1"
    using rq s0 ab(1,3) request_work_single [OF ab(3)]
    by (simp add: work_iteration_def CIRCLE_workreceipt_check.simps CIRCLE_worksend_check_def reduce_progress_def single_def)
  then show ?thesis using that ab by blast
qed

lemma single_callback:
  assumes "only_user p p'" and "single E chan p n"
  shows "single E chan p' n"
proof -
  have same: "f (CIRCLE_state_st.truncate p') = f (CIRCLE_state_st.truncate p)" for f
    using assms(1) by (simp add: only_user_def)
  show ?thesis
    using assms(2) only_user_same [OF assms(1)] same [of work_request_req] same [of reduce_enabled] same [of abort_outstanding]
      same [of token_send_req] same [of barrier_started] same [of barrier_up] same [of barrier_replies]
    by (simp add: single_def CIRCLE_state_st.truncate_def)
qed

section \<open>The loop ends\<close>

text \<open>How the loop leaves the process.\<close>

definition single_end :: "('n, 'z) mpi_scheme \<Rightarrow> ('n \<Rightarrow> channel \<Rightarrow> payload list) \<Rightarrow> 'u proc \<Rightarrow> 'n \<Rightarrow> bool" where
  "single_end E chan p n \<longleftrightarrow> single E chan p n \<and> queue_wf E (queue p)
     \<and> (CIRCLE_ABORT_FLAG p = 0 \<and> count (queue p) = 0 \<or> CIRCLE_ABORT_FLAG p = 1)"

lemma single_loop_ends:
  fixes \<mu> :: "CIRCLE_internal_queue_t \<Rightarrow> 'u \<Rightarrow> nat" and p :: "'u proc"
  assumes comm: "mpi_comm E chan posted" and ample: "mem_ample E"
    and f: "process_cb (input p) = Some f" and ok: "\<And>u. cb_ok (CIRCLE_MAX_STRING_LEN E) True (f u)"
    and progress: "\<And>q. process_cb (input q) = Some f \<Longrightarrow> queue_wf E (queue q) \<Longrightarrow> 0 < count (queue q) \<Longrightarrow>
      \<exists>q'. run_callback E (f (user q)) q = Inr q' \<and> \<mu> (queue q') (user q') < \<mu> (queue q) (user q)"
    and s: "single E chan p n" and wf: "queue_wf E (queue p)"
    and small: "local_objects_processed p + int (\<mu> (queue p) (user p)) \<le> INT32_MAX" and nn: "0 \<le> local_objects_processed p"
  shows "\<exists>p' n'. main_loop E p n = Some (Inr (p', n')) \<and> single_end E chan p' n'"
  using f s wf small nn
proof (induction "\<mu> (queue p) (user p)" arbitrary: p n rule: less_induct)
  case less
  obtain p1 n1 where pass: "noted p p1" "single E chan p1 n1" "work_iteration E p n = work_or_terminate E p1 n1"
    by (rule single_pass [OF comm less.prems(2)])
  have same: "queue p1 = queue p" "user p1 = user p" "input p1 = input p" "local_objects_processed p1 = local_objects_processed p"
    using pass(1) by (cases "CIRCLE_ABORT_FLAG p = 0"; auto simp: noted_def)+
  show ?case
  proof (cases "count (queue p1) > 0 \<and> CIRCLE_ABORT_FLAG p1 = 0")
    case True
    obtain q where q: "run_callback E (f (user p1)) p1 = Inr q" "\<mu> (queue q) (user q) < \<mu> (queue p1) (user p1)"
      using progress [of p1] True same less.prems(1,3) by auto
    note o = run_callback_only [OF q(1)] and u = run_callback_step [OF q(1) ok _ ample]
    have ops: "local_objects_processed q = local_objects_processed p"
    proof -
      have "local_objects_processed (CIRCLE_state_st.truncate q) = local_objects_processed (CIRCLE_state_st.truncate p1)"
        using o by (simp add: only_user_def)
      then show ?thesis using same by (simp add: CIRCLE_state_st.truncate_def)
    qed
    define p2 where "p2 = q\<lparr>local_objects_processed := local_objects_processed p + 1\<rparr>"
    have it: "work_iteration E p n = Inr (False, p2, n1)"
      using pass(3) True q ops same less.prems(1,4,5)
      by (simp add: work_or_terminate_def run_process_def p2_def c_int_def INT32_MAX_def)
    have "\<exists>p' n'. main_loop E p2 n1 = Some (Inr (p', n')) \<and> single_end E chan p' n'"
    proof (rule less.hyps)
      show "\<mu> (queue p2) (user p2) < \<mu> (queue p) (user p)" using q(2) same by (simp add: p2_def)
      show "process_cb (input p2) = Some f"
        using settings_same(2) [of "input q" "input p1"] o same less.prems(1) by (simp add: p2_def only_user_def)
      show "single E chan p2 n1" using single_callback [OF o pass(2)] by (simp add: p2_def single_def)
      show "queue_wf E (queue p2)" using u same less.prems(3) by (simp add: user_step_def p2_def)
      show "local_objects_processed p2 + int (\<mu> (queue p2) (user p2)) \<le> INT32_MAX" "0 \<le> local_objects_processed p2"
        using q(2) same less.prems(4,5) by (simp_all add: p2_def)
    qed
    then show ?thesis using it by (subst main_loop.simps) simp
  next
    case False
    obtain p2 where p2: "CIRCLE_check_for_term_allreduce E p1 n1 = Inr (TERMINATE, p2, n1)" "queue p2 = queue p1"
      "CIRCLE_ABORT_FLAG p2 = CIRCLE_ABORT_FLAG p1" "single E chan p2 n1" using term_single [OF pass(2)] by blast
    have "work_iteration E p n = Inr (True, p2, n1)"
      using pass(2,3) False p2(1) by (auto simp: work_or_terminate_def single_def)
    moreover have "CIRCLE_ABORT_FLAG p1 = 0 \<or> CIRCLE_ABORT_FLAG p1 = 1"
      using pass(1) by (cases "CIRCLE_ABORT_FLAG p = 0") (auto simp: noted_def)
    then have "single_end E chan p2 n1"
      using p2(2-4) False same less.prems(3) queue_wf_count [OF less.prems(3)] by (auto simp: single_end_def)
    ultimately show ?thesis by (subst main_loop.simps) auto
  qed
qed

text \<open>From the initialisation on, for any network without messages.\<close>

lemma single_run_ends:
  fixes \<mu> :: "CIRCLE_internal_queue_t \<Rightarrow> 'u \<Rightarrow> nat" and p :: "'u proc"
  assumes "mpi_comm E chan posted" and "mem_ample E" and "\<And>s. 0 \<le> fst (rand_r E s)"
    and "CIRCLE_init_local_state E 0 1 p0 n0 = Inr (p1, n1)" and "run_create E p1 = Inr p"
    and "queue_wf E (queue p0)" and "input_ok (CIRCLE_MAX_STRING_LEN E) (input p0)"
    and "process_cb (input p0) = Some f" and "options (input p0) AND CIRCLE_TERM_TREE \<noteq> 0" and "reduce_period (input p0) \<le> 0"
    and "0 < tree_width (input p0)" and "tree_width (input p0) \<le> INT32_MAX"
    and "\<And>q. process_cb (input q) = Some f \<Longrightarrow> queue_wf E (queue q) \<Longrightarrow> 0 < count (queue q) \<Longrightarrow>
      \<exists>q'. run_callback E (f (user q)) q = Inr q' \<and> \<mu> (queue q') (user q') < \<mu> (queue q) (user q)"
    and "int (\<mu> (queue p) (user p)) \<le> INT32_MAX" and "\<And>key. chan n key = []"
  shows "\<exists>p' n'. main_loop E p n = Some (Inr (p', n')) \<and> single_end E chan p' n'"
proof -
  note r = init_local_state_run [OF assms(4) _ _ assms(11) refl _ assms(2,3), simplified, OF assms(12)]
  have o: "only_user p1 p" by (rule run_create_only [OF assms(5)])
  have "single E chan p1 n"
    using r assms(9,10,15) by (simp add: single_def tree_ok_def tree_kids_def)
  then have s: "single E chan p n" by (rule single_callback [OF o])
  have inp: "process_cb (input p) = Some f"
    using settings_same(2) [of "input p" "input p1"] o r(8) assms(8) by (simp add: only_user_def)
  have ok: "cb_ok (CIRCLE_MAX_STRING_LEN E) True (f u)" for u using assms(7,8) by (simp add: input_ok_def)
  have wf: "queue_wf E (queue p)"
    using run_create_queue_wf [OF assms(5) _ _ assms(2)] assms(6,7) r(7,8) by simp
  have "local_objects_processed (CIRCLE_state_st.truncate p) = local_objects_processed (CIRCLE_state_st.truncate p1)"
    using o by (simp add: only_user_def)
  then have "local_objects_processed p = 0" using r(29) by (simp add: CIRCLE_state_st.truncate_def)
  then show ?thesis
    using single_loop_ends [OF assms(1,2) inp ok assms(13) s wf] assms(14) by simp
qed

section \<open>Property\<close>

text \<open>
  C28. A run on one process ends. Let a process that is alone be initialised with termination by the tree and without
  periodic reductions, let its create callback have returned, and let its process callback return on every queued item and
  decrease some measure of the queue and the state of the program (for a program that adds no work, the number of
  items). Then the main loop ends, and the queue is empty or the program has aborted.
\<close>

theorem single_process_terminates:
  fixes \<mu> :: "CIRCLE_internal_queue_t \<Rightarrow> 'u \<Rightarrow> nat" and p :: "'u proc"
  assumes "mpi_comm E chan posted" and "mem_ample E" and "\<And>s. 0 \<le> fst (rand_r E s)"
    and "CIRCLE_init_local_state E 0 1 p0 n0 = Inr (p1, n1)" and "run_create E p1 = Inr p"
    and "queue_wf E (queue p0)" and "input_ok (CIRCLE_MAX_STRING_LEN E) (input p0)"
    and "process_cb (input p0) = Some f" and "options (input p0) AND CIRCLE_TERM_TREE \<noteq> 0" and "reduce_period (input p0) \<le> 0"
    and "0 < tree_width (input p0)" and "tree_width (input p0) \<le> INT32_MAX"
    and "\<And>q. process_cb (input q) = Some f \<Longrightarrow> queue_wf E (queue q) \<Longrightarrow> 0 < count (queue q) \<Longrightarrow>
      \<exists>q'. run_callback E (f (user q)) q = Inr q' \<and> \<mu> (queue q') (user q') < \<mu> (queue q) (user q)"
    and "int (\<mu> (queue p) (user p)) \<le> INT32_MAX" and "\<And>key. chan n key = []"
  shows "\<exists>p' n'. main_loop E p n = Some (Inr (p', n')) \<and> (count (queue p') = 0 \<or> CIRCLE_ABORT_FLAG p' \<noteq> 0)"
  using single_run_ends [OF assms] by (force simp: single_end_def)

text \<open>Two items and a program that takes one off the queue at a time.\<close>

definition alone :: "unit proc" where
  "alone = (small_proc 1 0 small_queue)\<lparr>input := consumer_input 10\<rparr>"

lemma alone_starts: "\<not> isl (CIRCLE_init_local_state fifo_mpi 0 1 alone (quiet_net 1))"
  by code_simp

theorem single_process_terminates_witness:
  "\<exists>p n p' n'. CIRCLE_init_local_state fifo_mpi 0 1 alone (quiet_net 1) = Inr (p, n) \<and> count (queue p) = 2
     \<and> main_loop fifo_mpi p (quiet_net 1) = Some (Inr (p', n')) \<and> (count (queue p') = 0 \<or> CIRCLE_ABORT_FLAG p' \<noteq> 0)"
proof -
  obtain p n where run: "CIRCLE_init_local_state fifo_mpi 0 1 alone (quiet_net 1) = Inr (p, n)"
    using alone_starts by (cases "CIRCLE_init_local_state fifo_mpi 0 1 alone (quiet_net 1)") auto
  have a: "queue alone = small_queue" "input alone = consumer_input 10" by (simp_all add: alone_def small_proc_def)
  note r = init_local_state_run [OF run, of 64]
  have q: "queue p = small_queue" "input p = consumer_input 10"
    using r(7,8) a by (simp_all add: consumer_input_def INT32_MAX_def)
  then have create: "run_create fifo_mpi p = Inr p" by (simp add: run_create_def consumer_input_def)
  have ok: "input_ok (CIRCLE_MAX_STRING_LEN fifo_mpi) (consumer_input 10)" by (simp add: input_ok_def consumer_input_def consume_def)
  have "\<exists>p' n'. main_loop fifo_mpi p (quiet_net 1) = Some (Inr (p', n')) \<and> (count (queue p') = 0 \<or> CIRCLE_ABORT_FLAG p' \<noteq> 0)"
  proof (rule single_process_terminates [where f = consume and \<mu> = "\<lambda>q u. nat (count q)", OF fifo.mpi_comm_axioms _ _ run create])
    fix s :: "unit proc"
    assume "queue_wf fifo_mpi (queue s)" "0 < count (queue s)"
    from consume_progress [OF this] this(2) show "\<exists>s'. run_callback fifo_mpi (consume (user s)) s = Inr s'
      \<and> nat (count (queue s')) < nat (count (queue s))" by fastforce
  qed (use a q ok small_queue_fifo in \<open>simp_all add: consumer_input_def INT32_MAX_def small_queue_def\<close>)
  with run q show ?thesis by (auto simp: small_queue_def)
qed

end
