(* ===== verification/Session.thy ===== *)
theory Session
  imports Single Lib
begin

text \<open>
  A whole session of the library on one process: \<open>CIRCLE_begin\<close> initialises, creates the work, runs both
  loops, and writes a checkpoint when the program has aborted. It returns, and nothing that was queued is
  lost.
\<close>

unbundle bit_operations_syntax

section \<open>The start\<close>

lemma init_alone:
  assumes comm: "mpi_comm E chan posted" and ample: "mem_ample E"
    and k: "0 < tree_width (input p0)" "tree_width (input p0) \<le> INT32_MAX"
  obtains p n where "CIRCLE_init_local_state E 0 1 p0 n0 = Inr (p, n)" "chan n = chan n0"
proof -
  define st where "st = p0\<lparr>rank := 0, comm_size := 1, token_is_local := 1, token_src := (0 - 1 + 1) smod 1,
      token_dest := (0 + 1 + 1) smod 1, token_proc := WHITE, token_buf := BLACK, token_send_req := MPI_REQUEST_NULL,
      offsets_count := str_count (queue p0), offsets_recv_buf := malloc_arr E (\<lambda>_. 0) 4 (nat (str_count (queue p0))),
      requestors := malloc_arr E (\<lambda>_. 0) 4 1, seed := 0\<rparr>"
  have g: "CIRCLE_get_next_proc E st = Inr (st\<lparr>next_processor := MPI_PROC_NULL E\<rparr>)"
    by (simp add: CIRCLE_get_next_proc_def st_def)
  obtain t where t: "CIRCLE_tree_init E n0 0 1 (tree_width (input p0)) = Inr (t, n0)" "children t = 0" "parent_rank t = MPI_PROC_NULL E"
    using tree_init_result [of "tree_width (input p0)" 0 1 E n0] k ample by (auto simp: tree_kids_def)
  obtain now n1 where w: "mpi_wtime E n0 = (now, n1)" by fastforce
  have "\<exists>p. CIRCLE_init_local_state E 0 1 p0 n0 = Inr (p, n1)"
    using g t w by (simp add: CIRCLE_init_local_state_def Let_def st_def cong: if_cong)
  then show ?thesis using that mpi_comm.wtime_keeps [OF comm w] by blast
qed

section \<open>The end\<close>

text \<open>The first pass of the cleanup loop completes the barrier.\<close>

lemma cleanup_single:
  assumes "single_end E chan p n"
  obtains p' where "cleanup_loop E p n = Some (Inr (p', n))" "single_end E chan p' n" "queue p' = queue p"
    "CIRCLE_ABORT_FLAG p' = CIRCLE_ABORT_FLAG p"
proof -
  define p' where "p' = p\<lparr>barrier_started := 0, barrier_up := 0, barrier_replies := 0\<rparr>"
  have "nothing_outstanding p" using assms by (simp add: nothing_outstanding_def single_end_def single_def)
  then have "cleanup_iteration E p n = Inr (True, p', n)"
    using assms
    by (simp add: cleanup_iteration_def CIRCLE_barrier_start_def CIRCLE_barrier_test_def barrier_collect_def barrier_report_def
        barrier_released_def send_children_def single_end_def single_def p'_def)
  then have "cleanup_loop E p n = Some (Inr (p', n))" by (subst cleanup_loop.simps) simp
  then show ?thesis using that [of p'] assms by (simp add: p'_def single_end_def single_def)
qed

lemma finish_single:
  assumes "single_end E chan p n"
  shows "finish_run E p n = Inr (p\<lparr>abort_state := CIRCLE_ABORT_FLAG p\<rparr>, n)"
proof -
  have "signed_take_bit 7 (CIRCLE_ABORT_FLAG p) = CIRCLE_ABORT_FLAG p" using assms by (auto simp: single_end_def)
  then show ?thesis
    using assms
    by (simp add: finish_run_def CIRCLE_worksend_wait_def CIRCLE_abort_reduce_def abort_reduce_up_def abort_reduce_down_def
        send_children_def single_end_def single_def)
qed

lemma work_loop_single:
  assumes "main_loop E p n = Some (Inr (q, m))" and "single_end E chan q m"
  obtains p' where "CIRCLE_work_loop E p n = Some (Inr (p', m))" "queue p' = queue q" "CIRCLE_ABORT_FLAG p' = CIRCLE_ABORT_FLAG q"
proof -
  obtain q' where q': "cleanup_loop E q m = Some (Inr (q', m))" "single_end E chan q' m" "queue q' = queue q"
    "CIRCLE_ABORT_FLAG q' = CIRCLE_ABORT_FLAG q" by (rule cleanup_single [OF assms(2)])
  show ?thesis
    using that [of "q'\<lparr>abort_state := CIRCLE_ABORT_FLAG q'\<rparr>"] assms(1) q' finish_single [OF q'(2)]
    by (simp add: CIRCLE_work_loop_def)
qed

section \<open>Property\<close>

text \<open>
  C6. A session on one process returns and loses nothing. Let the library be set up with termination by the tree
  and no periodic reductions, let the create callback return, and let the process callback return on
  every queued item and decrease some measure. Then \<open>CIRCLE_begin\<close> returns with an empty queue. What the
  main loop left, nothing unless the program aborted, is in the checkpoint file.
\<close>

theorem session_alone:
  fixes \<mu> :: "CIRCLE_internal_queue_t \<Rightarrow> 'u \<Rightarrow> nat" and l :: "'u lib"
  assumes "mpi_comm E chan posted" and "mem_ample E" and "\<And>s. 0 \<le> fst (rand_r E s)" and "io_ok io"
    and "\<not> queue_null l" and "CIRCLE_global_rank l = 0" and "\<And>key. chan n0 key = []"
    and "queue_wf E (queue (lib_proc l))" and "input_ok (CIRCLE_MAX_STRING_LEN E) (input (lib_proc l))"
    and "create_cb (input (lib_proc l)) = Some g" and "process_cb (input (lib_proc l)) = Some f"
    and "options (input (lib_proc l)) AND CIRCLE_TERM_TREE \<noteq> 0" and "reduce_period (input (lib_proc l)) \<le> 0"
    and "0 < tree_width (input (lib_proc l))" and "tree_width (input (lib_proc l)) \<le> INT32_MAX"
    and "\<And>q. queue_wf E (queue q) \<Longrightarrow> \<exists>q'. run_callback E (g (user q)) q = Inr q' \<and> int (\<mu> (queue q') (user q')) \<le> INT32_MAX"
    and "\<And>q. process_cb (input q) = Some f \<Longrightarrow> queue_wf E (queue q) \<Longrightarrow> 0 < count (queue q) \<Longrightarrow>
      \<exists>q'. run_callback E (f (user q)) q = Inr q' \<and> \<mu> (queue q') (user q') < \<mu> (queue q) (user q)"
  shows "\<exists>p1 p n q m l' fs'. CIRCLE_init_local_state E 0 1 (lib_proc l) n0 = Inr (p1, n) \<and> run_create E p1 = Inr p
    \<and> main_loop E p n = Some (Inr (q, m)) \<and> CIRCLE_begin E io fs 1 l n0 = Some (Inr (l', fs', m))
    \<and> count (queue (lib_proc l')) = 0
    \<and> (if items (queue q) = [] then fs' = fs
       else CIRCLE_ABORT_FLAG q = 1 \<and> fs' = fs(checkpoint_filename 0 \<mapsto> checkpoint_text (rev (items (queue q)))))"
proof -
  obtain p1 n where ini: "CIRCLE_init_local_state E 0 1 (lib_proc l) n0 = Inr (p1, n)" and n: "chan n = chan n0"
    by (rule init_alone [OF assms(1,2,14,15)])
  note r = init_local_state_run [OF ini _ _ assms(14) refl _ assms(2,3), simplified, OF assms(15)]
  obtain p where cr: "run_create E p1 = Inr p" and small: "int (\<mu> (queue p) (user p)) \<le> INT32_MAX"
    using assms(16) [of p1] assms(8,10) r(1,7,8) by (auto simp: run_create_def)
  have "chan n key = []" for key using assms(7) n by simp
  from single_run_ends [OF assms(1,2,3) ini cr assms(8,9,11,12,13,14,15,17) small this]
  obtain q m where loop: "main_loop E p n = Some (Inr (q, m))" and e: "single_end E chan q m" by blast
  obtain q' where q': "CIRCLE_work_loop E p n = Some (Inr (q', m))" "queue q' = queue q" "CIRCLE_ABORT_FLAG q' = CIRCLE_ABORT_FLAG q"
    by (rule work_loop_single [OF loop e])
  have wf: "queue_wf E (queue q)" "items (queue q) = [] \<longleftrightarrow> count (queue q) = 0" using e items_empty_iff by (auto simp: single_end_def)
  have fin: "queue (CIRCLE_finalize_local_state x) = queue x" for x :: "'u proc"
    by (simp add: CIRCLE_finalize_local_state_def CIRCLE_worksend_free_def)
  let ?fs = "if items (queue q) = [] then fs else fs(checkpoint_filename 0 \<mapsto> checkpoint_text (rev (items (queue q))))"
  have "\<exists>x. (if CIRCLE_ABORT_FLAG q' \<noteq> 0
       then andThen (CIRCLE_checkpoint_wrapper E io fs 0 q') (\<lambda>(rc, p, fs). Inr (p, fs)) else Inr (q', fs)) = Inr (x, ?fs)
     \<and> count (queue x) = 0"
  proof (cases "items (queue q) = []")
    case True
    then show ?thesis using q' wf(2) by (simp add: CIRCLE_checkpoint_wrapper_def CIRCLE_internal_queue_write_def)
  next
    case False
    obtain y where "CIRCLE_internal_queue_write E io fs (queue q) 0 = Inr (0, y, ?fs)" "queue_wf E y" "items y = []"
      using write_file [OF wf(1) _ assms(4), of fs 0] wf(2) False by auto
    moreover have "CIRCLE_ABORT_FLAG q' \<noteq> 0" using e False wf(2) q'(3) by (auto simp: single_end_def)
    ultimately show ?thesis using q'(2) items_empty_iff by (auto simp: CIRCLE_checkpoint_wrapper_def)
  qed
  then obtain x where x: "(if CIRCLE_ABORT_FLAG q' \<noteq> 0
       then andThen (CIRCLE_checkpoint_wrapper E io fs 0 q') (\<lambda>(rc, p, fs). Inr (p, fs)) else (Inr :: _ \<Rightarrow> _ result) (q', fs)) = Inr (x, ?fs)"
    "count (queue x) = 0" by blast
  have run: "CIRCLE_begin E io fs 1 l n0 = Some (Inr (l\<lparr>lib_proc := CIRCLE_finalize_local_state x\<rparr>, ?fs, m))"
    using assms(5,6) ini cr q'(1) x(1) by (simp add: CIRCLE_begin_def CIRCLE_worker_def)
  have flag: "items (queue q) \<noteq> [] \<Longrightarrow> CIRCLE_ABORT_FLAG q = 1" using e wf(2) by (auto simp: single_end_def)
  have empty: "count (queue (lib_proc (l\<lparr>lib_proc := CIRCLE_finalize_local_state x\<rparr>))) = 0" using x(2) fin by simp
  show ?thesis
    by (intro exI [of _ p1] exI [of _ p] exI [of _ n] exI [of _ q] exI [of _ m]
        exI [of _ "l\<lparr>lib_proc := CIRCLE_finalize_local_state x\<rparr>"] exI [of _ ?fs] conjI ini cr loop run empty)
      (simp add: flag)
qed

text \<open>The two items of theory Single, taken off one at a time.\<close>

definition alone_lib :: "unit lib" where
  "alone_lib = \<lparr>lib_proc = alone, queue_null = False, CIRCLE_debug_level = CIRCLE_LOG_INFO, CIRCLE_global_rank = 0,
     CIRCLE_must_finalize_mpi = 0\<rparr>"

theorem session_alone_witness:
  "\<exists>l' fs' m. CIRCLE_begin fifo_mpi good_stdio Map.empty 1 alone_lib (quiet_net 1) = Some (Inr (l', fs', m))
     \<and> count (queue (lib_proc alone_lib)) = 2 \<and> count (queue (lib_proc l')) = 0"
proof -
  have a: "queue alone = small_queue" "input alone = consumer_input 10" by (simp_all add: alone_def small_proc_def)
  have ok: "input_ok (CIRCLE_MAX_STRING_LEN fifo_mpi) (consumer_input 10)" by (simp add: input_ok_def consumer_input_def consume_def)
  have create: "\<exists>q'. run_callback fifo_mpi (CB_return (user q)) q = Inr q' \<and> int (nat (count (queue q'))) \<le> INT32_MAX"
    if "queue_wf fifo_mpi (queue q)" for q :: "unit proc" using queue_wf_count [OF that] by simp
  have process: "\<exists>q'. run_callback fifo_mpi (consume (user q)) q = Inr q' \<and> nat (count (queue q')) < nat (count (queue q))"
    if "queue_wf fifo_mpi (queue q)" "0 < count (queue q)" for q :: "unit proc"
    using consume_progress [OF that] that(2) by fastforce
  have "\<exists>p1 p n q m l' fs'. CIRCLE_init_local_state fifo_mpi 0 1 (lib_proc alone_lib) (quiet_net 1) = Inr (p1, n)
    \<and> run_create fifo_mpi p1 = Inr p \<and> main_loop fifo_mpi p n = Some (Inr (q, m))
    \<and> CIRCLE_begin fifo_mpi good_stdio Map.empty 1 alone_lib (quiet_net 1) = Some (Inr (l', fs', m))
    \<and> count (queue (lib_proc l')) = 0
    \<and> (if items (queue q) = [] then fs' = Map.empty
       else CIRCLE_ABORT_FLAG q = 1 \<and> fs' = Map.empty(checkpoint_filename 0 \<mapsto> checkpoint_text (rev (items (queue q)))))"
    by (rule session_alone [where g = CB_return and f = consume and \<mu> = "\<lambda>q u. nat (count q)", OF fifo.mpi_comm_axioms])
      (use a ok small_queue_fifo create process in \<open>simp_all add: alone_lib_def consumer_input_def INT32_MAX_def\<close>)
  then show ?thesis using a by (auto simp: alone_lib_def small_queue_def)
qed

end
