(* ===== verification/ReduceSum.thy ===== *)
theory ReduceSum
  imports Init
begin

text \<open>
  The final reduction, by all processes in any order the messages allow: the counts of the processes
  are added up over the tree, so the root reports the number of items processed by all.
\<close>

section \<open>Sums over the tree\<close>

context rank_tree
begin

text \<open>When each rank has its own value and those of its children, the root has all.\<close>

lemma sum_at_root:
  fixes up own :: "int \<Rightarrow> int"
  assumes "0 < ranks" and "\<And>i. i \<in> {0..<ranks} \<Longrightarrow> up i = own i + (\<Sum>c \<in> set (kids i). up c)"
  shows "up 0 = (\<Sum>i \<in> {0..<ranks}. own i)"
proof -
  have kids: "set (kids i) = {c \<in> {0<..<ranks}. parent c = i}" if "i \<in> {0..<ranks}" for i
    using kids_iff [of i] that by auto
  have "(\<Sum>i \<in> {0..<ranks}. \<Sum>c \<in> set (kids i). up c) = (\<Sum>i \<in> {0..<ranks}. \<Sum>c \<in> {c \<in> {0<..<ranks}. parent c = i}. up c)"
    using kids by simp
  also have "\<dots> = (\<Sum>c \<in> {0<..<ranks}. up c)"
  proof (rule sum.group)
    show "parent ` {0<..<ranks} \<subseteq> {0..<ranks}" using parent_below by fastforce
  qed simp_all
  finally have "(\<Sum>i \<in> {0..<ranks}. up i) = (\<Sum>i \<in> {0..<ranks}. own i) + (\<Sum>c \<in> {0<..<ranks}. up c)"
    using assms(2) by (simp add: sum.distrib)
  moreover have "{0..<ranks} = insert 0 {0<..<ranks}" using assms(1) by auto
  ultimately show ?thesis by simp
qed

end

section \<open>The messages of a process\<close>

abbreviation running_total :: "('a) CIRCLE_state_st_scheme \<Rightarrow> int" where
  "running_total st \<equiv> fst (snd (reduce_buf st))"

text \<open>What a process sends to its parent: its total, and the user's data when the size is positive.\<close>

definition count_msgs :: "int \<Rightarrow> payload list \<Rightarrow> bool" where
  "count_msgs x ms \<longleftrightarrow> (\<exists>v b. b \<le> INT32_MAX \<and> - INT32_MAX - 1 \<le> b
     \<and> (if b > 0 then \<exists>d. ms = [LongLongs [v, x, b], Bytes d] else ms = [LongLongs [v, x, b]]))"

lemma to_int32_range: "to_int32 w \<le> INT32_MAX" "- INT32_MAX - 1 \<le> to_int32 w"
proof -
  have "signed_take_bit 31 (uint w) < 2 ^ 31" "- (2 ^ 31) \<le> signed_take_bit 31 (uint w)"
    by (rule signed_take_bit_int_less_exp, rule signed_take_bit_int_greater_eq_minus_exp)
  then show "to_int32 w \<le> INT32_MAX" "- INT32_MAX - 1 \<le> to_int32 w" by (simp_all add: to_int32_def INT32_MAX_def)
qed

lemma word_of_size:
  assumes "b \<le> INT32_MAX" and "- INT32_MAX - 1 \<le> b"
  shows "(word_of_int b :: 64 word) > 0 \<longleftrightarrow> b \<noteq> 0"
proof -
  have "(word_of_int b :: 64 word) = 0 \<longleftrightarrow> 2 ^ 64 dvd b" by (simp add: word_of_int_eq_0_iff)
  also have "\<dots> \<longleftrightarrow> b = 0" using dvd_imp_le_int [of b "2 ^ 64"] assms by (auto simp: INT32_MAX_def)
  finally show ?thesis by (simp add: word_greater_zero_iff)
qed

lemma run_reduce_only:
  shows "run_reduce_op E p inbuf insize = Inr p' \<Longrightarrow> only_user p p'" and "run_reduce_init E p = Inr p' \<Longrightarrow> only_user p p'"
    and "run_reduce_fini E p = Inr p' \<Longrightarrow> only_user p p'"
  using run_callback_only by (auto simp: run_reduce_op_def run_reduce_init_def run_reduce_fini_def split: option.splits)

text \<open>One child: its messages are taken, all of them, and its total is added.\<close>

lemma sync_child_result:
  assumes comm: "mpi_comm E chan posted" and run: "reduce_sync_child E c (p, n) = Inr (p', n')"
    and ms: "chan n (c, rank p, CIRCLE_TAG_REDUCE) = [] \<or> count_msgs x (chan n (c, rank p, CIRCLE_TAG_REDUCE))"
  shows "chan n (c, rank p, CIRCLE_TAG_REDUCE) \<noteq> []" and "chan n' = (chan n)((c, rank p, CIRCLE_TAG_REDUCE) := [])"
    and "running_total p' = running_total p + x" and "rank p' = rank p" and "tree p' = tree p"
proof -
  obtain v tot b0 where rb: "reduce_buf p = (v, tot, b0)" by (metis prod_cases3)
  obtain valid cnt sz n1 where r: "recv_long_longs3 E n (rank p) c CIRCLE_TAG_REDUCE = Inr ((valid, cnt, sz), n1)"
    and "andThen (recv_user_data E n1 (rank p) c sz) (\<lambda>(inbuf, insize, n).
        andThen (run_reduce_op E (p\<lparr>reduce_buf := (v, tot + cnt, b0)\<rparr>) inbuf insize) (\<lambda>p. Inr (p, n))) = Inr (p', n')"
    using run rb by (auto simp: reduce_sync_child_def outcome Let_def)
  then obtain inbuf insize where ud: "recv_user_data E n1 (rank p) c sz = Inr (inbuf, insize, n')"
    and op: "run_reduce_op E (p\<lparr>reduce_buf := (v, tot + cnt, b0)\<rparr>) inbuf insize = Inr p'"
    by (elim andThen_InrE) (auto split: prod.splits elim!: andThen_InrE)
  from mpi_comm.MPI_Recv_takes [OF comm] r obtain rest where
    ch: "chan n (c, rank p, CIRCLE_TAG_REDUCE) = LongLongs [valid, cnt, sz] # rest"
      "chan n1 = (chan n)((c, rank p, CIRCLE_TAG_REDUCE) := rest)" unfolding recv_long_longs3_eq by blast
  then have b: "sz \<le> INT32_MAX" "- INT32_MAX - 1 \<le> sz" "cnt = x" "if sz > 0 then \<exists>d. rest = [Bytes d] else rest = []"
    using ms by (auto simp: count_msgs_def split: if_splits)
  have "chan n' = (chan n)((c, rank p, CIRCLE_TAG_REDUCE) := [])"
  proof (cases "sz = 0")
    case True
    then show ?thesis using ud ch(2) b by (simp add: recv_user_data_def)
  next
    case False
    then obtain bs where "MPI_Recv E n1 (rank p) c CIRCLE_TAG_REDUCE = Inr (Bytes bs, n')"
      using ud word_of_size [OF b(1,2)] by (auto simp: recv_user_data_def Let_def outcome recv_eqs split: if_splits)
    from mpi_comm.MPI_Recv_takes [OF comm this] ch(2) b(4) show ?thesis by (auto split: if_splits)
  qed
  then show "chan n' = (chan n)((c, rank p, CIRCLE_TAG_REDUCE) := [])" .
  show "chan n (c, rank p, CIRCLE_TAG_REDUCE) \<noteq> []" using ch by simp
  show "running_total p' = running_total p + x" "rank p' = rank p" "tree p' = tree p"
    using only_user_same [OF run_reduce_only(1) [OF op]] rb b(3) by simp_all
qed

definition cleared :: "(channel \<Rightarrow> payload list) \<Rightarrow> int \<Rightarrow> int list \<Rightarrow> channel \<Rightarrow> payload list" where
  "cleared c me cs key = (if fst key \<in> set cs \<and> snd key = (me, CIRCLE_TAG_REDUCE) then [] else c key)"

lemma cleared_Cons: "cleared (c((x, me, CIRCLE_TAG_REDUCE) := [])) me cs = cleared c me (x # cs)"
  by (auto simp: cleared_def fun_eq_iff)

lemma sync_children_result:
  assumes comm: "mpi_comm E chan posted" and "distinct cs" and "for_list (reduce_sync_child E) cs (p, n) = Inr (p', n')"
    and "\<forall>c \<in> set cs. chan n (c, rank p, CIRCLE_TAG_REDUCE) = [] \<or> count_msgs (x c) (chan n (c, rank p, CIRCLE_TAG_REDUCE))"
  shows "(\<forall>c \<in> set cs. chan n (c, rank p, CIRCLE_TAG_REDUCE) \<noteq> []) \<and> chan n' = cleared (chan n) (rank p) cs
    \<and> running_total p' = running_total p + (\<Sum>c \<in> set cs. x c) \<and> rank p' = rank p \<and> tree p' = tree p"
  using assms(2-4)
proof (induction cs arbitrary: p n)
  case Nil
  then show ?case by (simp add: cleared_def fun_eq_iff)
next
  case (Cons c cs)
  then obtain p1 n1 where f: "reduce_sync_child E c (p, n) = Inr (p1, n1)" "for_list (reduce_sync_child E) cs (p1, n1) = Inr (p', n')"
    by (auto simp: outcome)
  note r = sync_child_result [OF comm f(1), of "x c"]
  have ne: "chan n (c, rank p, CIRCLE_TAG_REDUCE) \<noteq> []" and n1: "chan n1 = (chan n)((c, rank p, CIRCLE_TAG_REDUCE) := [])"
    and p1: "running_total p1 = running_total p + x c" "rank p1 = rank p" "tree p1 = tree p" using r Cons.prems(3) by simp_all
  have other: "chan n1 (d, rank p, CIRCLE_TAG_REDUCE) = chan n (d, rank p, CIRCLE_TAG_REDUCE)" if "d \<in> set cs" for d
    using that Cons.prems(1) n1 by auto
  have "distinct cs" using Cons.prems(1) by simp
  from Cons.IH [OF this f(2)] Cons.prems(3) other p1(2) have
    "(\<forall>d \<in> set cs. chan n (d, rank p, CIRCLE_TAG_REDUCE) \<noteq> []) \<and> chan n' = cleared (chan n1) (rank p) cs
    \<and> running_total p' = running_total p1 + (\<Sum>d \<in> set cs. x d) \<and> rank p' = rank p1 \<and> tree p' = tree p1" by simp
  then show ?case using ne p1 Cons.prems(1) n1 cleared_Cons [of "chan n" c "rank p" cs] by simp
qed

lemma send_parent_result:
  assumes comm: "mpi_comm E chan posted" and run: "reduce_send_parent E p n True = Inr (p', n')"
  obtains ms where "count_msgs (running_total p) ms" and "running_total p' = running_total p" "rank p' = rank p" "tree p' = tree p"
    and "chan n' = (chan n)((rank p, parent_rank (tree p), CIRCLE_TAG_REDUCE)
      := chan n (rank p, parent_rank (tree p), CIRCLE_TAG_REDUCE) @ ms)"
proof -
  obtain v tot b where rb: "reduce_buf p = (v, tot, b)" by (metis prod_cases3)
  define bt where "bt = to_int32 (reduce_buf_size (input p))"
  obtain n1 where n1: "MPI_Send E n (rank p) (parent_rank (tree p)) CIRCLE_TAG_REDUCE (LongLongs [v, tot, bt]) = Inr n1"
    using run rb by (auto simp: reduce_send_parent_def Let_def outcome bt_def [symmetric])
  have range: "bt \<le> INT32_MAX" "- INT32_MAX - 1 \<le> bt" unfolding bt_def by (rule to_int32_range)+
  note s = mpi_comm.MPI_Send_adds [OF comm n1] mpi_comm.MPI_Send_adds [OF comm, of n1]
  show ?thesis
  proof (cases "bt > 0")
    case True
    then obtain data where "MPI_Send E n1 (rank p) (parent_rank (tree p)) CIRCLE_TAG_REDUCE (Bytes data) = Inr n'"
      "p' = p\<lparr>reduce_buf := (v, tot, bt)\<rparr>"
      using run rb n1 by (auto simp: reduce_send_parent_def Let_def outcome bt_def [symmetric] split: if_splits)
    moreover have "count_msgs tot [LongLongs [v, tot, bt], Bytes data]"
      unfolding count_msgs_def using True range by (intro exI [of _ v] exI [of _ bt]) simp
    ultimately show ?thesis
      using that [of "[LongLongs [v, tot, bt], Bytes data]"] s rb by simp
  next
    case False
    then have "n' = n1" "p' = p\<lparr>reduce_buf := (v, tot, bt)\<rparr>"
      using run rb n1 by (auto simp: reduce_send_parent_def Let_def outcome bt_def [symmetric] split: if_splits)
    moreover have "count_msgs tot [LongLongs [v, tot, bt]]"
      unfolding count_msgs_def using False range by (intro exI [of _ v] exI [of _ bt]) simp
    ultimately show ?thesis using that [of "[LongLongs [v, tot, bt]]"] s(1) rb by simp
  qed
qed

lemma reduce_sync_result:
  assumes comm: "mpi_comm E chan posted" and t: "tree_ok E k ranks p" and k: "0 < k" and r: "rank p \<in> {0..<ranks}"
    and run: "CIRCLE_reduce_sync E p n cnt = Inr (p', n')"
    and ms: "\<forall>c \<in> set (tree_kids k ranks (rank p)). chan n (c, rank p, CIRCLE_TAG_REDUCE) = []
      \<or> count_msgs (x c) (chan n (c, rank p, CIRCLE_TAG_REDUCE))"
  shows "\<forall>c \<in> set (tree_kids k ranks (rank p)). chan n (c, rank p, CIRCLE_TAG_REDUCE) \<noteq> []"
    and "running_total p' = cnt + (\<Sum>c \<in> set (tree_kids k ranks (rank p)). x c)" and "rank p' = rank p" and "tree p' = tree p"
    and "\<exists>ms. count_msgs (running_total p') ms \<and> chan n' = (let c = cleared (chan n) (rank p) (tree_kids k ranks (rank p));
        key = (rank p, tree_parent k (rank p), CIRCLE_TAG_REDUCE) in if rank p = 0 then c else c(key := c key @ ms))"
proof -
  from run obtain p1 where i: "run_reduce_init E (p\<lparr>reduce_buf := (MSG_VALID, cnt, 0)\<rparr>) = Inr p1"
    and rest: "andThen (child_list (tree p1)) (\<lambda>cs. andThen (for_list (reduce_sync_child E) cs (p1, n)) (\<lambda>(p, n).
      if parent_rank (tree p) \<noteq> MPI_PROC_NULL E then reduce_send_parent E p n True
      else andThen (run_reduce_fini E p) (\<lambda>p. Inr (p, n)))) = Inr (p', n')"
    unfolding CIRCLE_reduce_sync_def by (erule andThen_InrE)
  have "child_list (tree p1) = Inr (tree_kids k ranks (rank p))"
    using tree_okD(1) [OF t] only_user_same(3) [OF run_reduce_only(2) [OF i]] by simp
  then obtain p2 n2 where c: "for_list (reduce_sync_child E) (tree_kids k ranks (rank p)) (p1, n) = Inr (p2, n2)"
    and fin: "(if parent_rank (tree p2) \<noteq> MPI_PROC_NULL E then reduce_send_parent E p2 n2 True
       else andThen (run_reduce_fini E p2) (\<lambda>p. (Inr :: _ \<Rightarrow> _ result) (p, n2))) = Inr (p', n')"
    using rest by (auto elim!: andThen_InrE)
  note u = only_user_same [OF run_reduce_only(2) [OF i]]
  have p1: "rank p1 = rank p" "tree p1 = tree p" "running_total p1 = cnt" using u(1,3,10) by simp_all
  have "distinct (tree_kids k ranks (rank p))" by (simp add: tree_kids_def)
  from sync_children_result [OF comm this c, of x] ms p1(1) have
    ne: "\<forall>c \<in> set (tree_kids k ranks (rank p)). chan n (c, rank p, CIRCLE_TAG_REDUCE) \<noteq> []"
    and n2: "chan n2 = cleared (chan n) (rank p) (tree_kids k ranks (rank p))"
    and p2: "running_total p2 = cnt + (\<Sum>c \<in> set (tree_kids k ranks (rank p)). x c)" "rank p2 = rank p" "tree p2 = tree p"
    using p1 by simp_all
  have "running_total p' = running_total p2 \<and> rank p' = rank p \<and> tree p' = tree p
    \<and> (\<exists>ms. count_msgs (running_total p2) ms \<and> chan n' = (let key = (rank p, tree_parent k (rank p), CIRCLE_TAG_REDUCE)
       in if rank p = 0 then chan n2 else (chan n2)(key := chan n2 key @ ms)))"
  proof (cases "rank p = 0")
    case True
    then have "run_reduce_fini E p2 = Inr p'" "n' = n2" using fin parent_null [OF comm t r k] p2(3) by (auto simp: outcome)
    moreover have "count_msgs (running_total p2) [LongLongs [0, running_total p2, 0]]"
      unfolding count_msgs_def by (intro exI [of _ 0]) (simp add: INT32_MAX_def)
    ultimately show ?thesis using only_user_same [OF run_reduce_only(3), of E p2 p'] p2 True by auto
  next
    case False
    then have "reduce_send_parent E p2 n2 True = Inr (p', n')" using fin parent_null [OF comm t r k] p2(3) by simp
    then show ?thesis
      by (rule send_parent_result [OF comm]) (use False tree_okD(3) [OF t] p2 in \<open>auto simp: Let_def\<close>)
  qed
  then show "\<forall>c \<in> set (tree_kids k ranks (rank p)). chan n (c, rank p, CIRCLE_TAG_REDUCE) \<noteq> []"
    "running_total p' = cnt + (\<Sum>c \<in> set (tree_kids k ranks (rank p)). x c)" "rank p' = rank p" "tree p' = tree p"
    "\<exists>ms. count_msgs (running_total p') ms \<and> chan n' = (let c = cleared (chan n) (rank p) (tree_kids k ranks (rank p));
        key = (rank p, tree_parent k (rank p), CIRCLE_TAG_REDUCE) in if rank p = 0 then c else c(key := c key @ ms))"
    using ne p2(1) unfolding n2 Let_def by simp_all
qed

section \<open>All processes\<close>

text \<open>
  A process calls \<open>CIRCLE_reduce_sync\<close> with its own count, once; the call goes on when the messages of
  its children are there. Other traffic may go on.
\<close>

inductive sync_step ::
  "('n, 'z) mpi_scheme \<Rightarrow> ('n \<Rightarrow> channel \<Rightarrow> payload list) \<Rightarrow> int \<Rightarrow>
     (int \<Rightarrow> 'u proc) \<times> 'n \<times> (int \<Rightarrow> bool) \<Rightarrow> (int \<Rightarrow> 'u proc) \<times> 'n \<times> (int \<Rightarrow> bool) \<Rightarrow> bool" for E chan ranks where
  sync: "i \<in> {0..<ranks} \<Longrightarrow> \<not> done i \<Longrightarrow>
    CIRCLE_reduce_sync E (ps i) n (local_objects_processed (ps i)) = Inr (p', n') \<Longrightarrow>
    sync_step E chan ranks (ps, n, done) (ps(i := p'), n', done(i := True))"
| other: "(\<And>a b. chan n' (a, b, CIRCLE_TAG_REDUCE) = chan n (a, b, CIRCLE_TAG_REDUCE)) \<Longrightarrow>
    sync_step E chan ranks (ps, n, done) (ps, n', done)"

definition sync_inv ::
  "('n, 'z) mpi_scheme \<Rightarrow> ('n \<Rightarrow> channel \<Rightarrow> payload list) \<Rightarrow> int \<Rightarrow> int \<Rightarrow> (int \<Rightarrow> int) \<Rightarrow>
     (int \<Rightarrow> 'u proc) \<Rightarrow> 'n \<Rightarrow> (int \<Rightarrow> bool) \<Rightarrow> bool" where
  "sync_inv E chan k ranks own ps n done \<longleftrightarrow>
     (\<forall>i \<in> {0..<ranks}. rank (ps i) = i \<and> tree_ok E k ranks (ps i) \<and> (\<not> done i \<longrightarrow> local_objects_processed (ps i) = own i)
        \<and> (done i \<longrightarrow> (\<forall>c \<in> set (tree_kids k ranks i). done c)
             \<and> running_total (ps i) = own i + (\<Sum>c \<in> set (tree_kids k ranks i). running_total (ps c))))
     \<and> (\<forall>i \<in> {0<..<ranks}. if done i \<and> \<not> done (tree_parent k i)
          then count_msgs (running_total (ps i)) (chan n (i, tree_parent k i, CIRCLE_TAG_REDUCE))
          else chan n (i, tree_parent k i, CIRCLE_TAG_REDUCE) = [])"

lemma sync_invD:
  assumes "sync_inv E chan k ranks own ps n done"
  shows "i \<in> {0..<ranks} \<Longrightarrow> rank (ps i) = i" "i \<in> {0..<ranks} \<Longrightarrow> tree_ok E k ranks (ps i)"
    "i \<in> {0..<ranks} \<Longrightarrow> \<not> done i \<Longrightarrow> local_objects_processed (ps i) = own i"
    "i \<in> {0..<ranks} \<Longrightarrow> done i \<Longrightarrow> c \<in> set (tree_kids k ranks i) \<Longrightarrow> done c"
    "i \<in> {0..<ranks} \<Longrightarrow> done i \<Longrightarrow> running_total (ps i) = own i + (\<Sum>c \<in> set (tree_kids k ranks i). running_total (ps c))"
  using assms unfolding sync_inv_def by blast+

lemma sync_inv_msgs:
  assumes "sync_inv E chan k ranks own ps n done" and "0 < i" and "i < ranks"
  shows "if done i \<and> \<not> done (tree_parent k i)
    then count_msgs (running_total (ps i)) (chan n (i, tree_parent k i, CIRCLE_TAG_REDUCE))
    else chan n (i, tree_parent k i, CIRCLE_TAG_REDUCE) = []"
  using assms(1) unfolding sync_inv_def by (elim conjE, elim bspec) (use assms(2,3) in simp)

lemma count_msgs_some: "count_msgs x ms \<Longrightarrow> ms \<noteq> []"
  by (auto simp: count_msgs_def split: if_splits)

lemma sync_keeps:
  assumes comm: "mpi_comm E chan posted" and k: "0 < k" and inv: "sync_inv E chan k ranks own ps n done"
    and i: "i \<in> {0..<ranks}" and nd: "\<not> done i"
    and run: "CIRCLE_reduce_sync E (ps i) n (local_objects_processed (ps i)) = Inr (p', n')"
  shows "sync_inv E chan k ranks own (ps(i := p')) n' (done(i := True))"
proof -
  let ?kids = "set (tree_kids k ranks i)" and ?t = CIRCLE_TAG_REDUCE
  note ap = tree_apart [OF k i]
  have ri: "rank (ps i) = i" and ti: "tree_ok E k ranks (ps i)" using sync_invD(1,2) [OF inv i] .
  have own: "local_objects_processed (ps i) = own i" using sync_invD(3) [OF inv i nd] .
  have kid: "c \<in> {0<..<ranks}" if "c \<in> ?kids" for c using that tree_facts(2) [OF k] i by auto
  have par: "\<not> done (tree_parent k i)" if "0 < i"
  proof -
    have p: "tree_parent k i \<in> {0..<ranks}" using tree_facts(1) [OF k that, of ranks] i by auto
    have "i \<in> set (tree_kids k ranks (tree_parent k i))" using tree_facts(2) [OF k] p that i by auto
    then show ?thesis using sync_invD(4) [OF inv p] nd by blast
  qed
  have msgs: "chan n (c, i, ?t) = [] \<or> count_msgs (running_total (ps c)) (chan n (c, i, ?t))" if "c \<in> ?kids" for c
    using sync_inv_msgs [OF inv, of c] kid [OF that] ap(1) [OF that] by (auto split: if_splits)
  have ir: "rank (ps i) \<in> {0..<ranks}" using ri i by simp
  note res = reduce_sync_result [OF comm ti k ir run, of "\<lambda>c. running_total (ps c)", unfolded ri, OF ballI, OF msgs]
  have p': "rank p' = i" "tree p' = tree (ps i)" "running_total p' = own i + (\<Sum>c \<in> ?kids. running_total (ps c))"
    using res(2-4) ri own by simp_all
  have kdone: "done c" if "c \<in> ?kids" for c
    using sync_inv_msgs [OF inv, of c] kid [OF that] ap(1) [OF that] res(1) that by (auto split: if_splits)
  obtain ms where ms: "count_msgs (running_total p') ms" and n': "chan n' = (let c = cleared (chan n) i (tree_kids k ranks i);
      key = (i, tree_parent k i, ?t) in if i = 0 then c else c(key := c key @ ms))" using res(5) by blast
  have kt: "(\<Sum>c \<in> ?kids. running_total ((ps(i := p')) c)) = (\<Sum>c \<in> ?kids. running_total (ps c))" using ap(1) by (intro sum.cong) auto
  show ?thesis
    unfolding sync_inv_def
  proof (intro conjI ballI, goal_cases)
    case (1 j) then show ?case using sync_invD(1) [OF inv 1] p'(1) by simp
  next
    case (2 j) then show ?case using sync_invD(2) [OF inv 2] ti p'(1,2) ri by (auto simp: tree_ok_def)
  next
    case (3 j) then show ?case using sync_invD(3) [OF inv 3] by simp
  next
    case (4 j)
    show ?case
    proof (cases "j = i")
      case True
      then show ?thesis using kdone p'(3) kt by auto
    next
      case False
      have "(\<Sum>c \<in> set (tree_kids k ranks j). running_total ((ps(i := p')) c)) = (\<Sum>c \<in> set (tree_kids k ranks j). running_total (ps c))" if "done j"
        using sync_invD(4) [OF inv 4 that] nd by (intro sum.cong) auto
      then show ?thesis using sync_invD(4,5) [OF inv 4] False by auto
    qed
  next
    case (5 j)
    consider (kid) "j \<in> ?kids" | (self) "j = i" | (else) "j \<notin> ?kids" "j \<noteq> i" by blast
    then show ?case
    proof cases
      case kid
      then show ?thesis using ap(1) [OF kid] ap(3) n' by (auto simp: cleared_def Let_def)
    next
      case self
      have "chan n (i, tree_parent k i, ?t) = []" using sync_inv_msgs [OF inv, of i] 5 self nd by auto
      then show ?thesis using self 5 par ap ms n' by (auto simp: cleared_def Let_def)
    next
      case else
      have "tree_parent k j \<noteq> i" using else tree_facts(2) [OF k, of i ranks j] i 5 by auto
      then show ?thesis using sync_inv_msgs [OF inv, of j] 5 else n' by (auto simp: cleared_def Let_def)
    qed
  qed
qed

definition sync_start ::
  "('n, 'z) mpi_scheme \<Rightarrow> ('n \<Rightarrow> channel \<Rightarrow> payload list) \<Rightarrow> int \<Rightarrow> int \<Rightarrow> (int \<Rightarrow> 'u proc) \<Rightarrow> 'n \<Rightarrow> bool" where
  "sync_start E chan k ranks ps n \<longleftrightarrow> (\<forall>i \<in> {0..<ranks}. rank (ps i) = i \<and> tree_ok E k ranks (ps i))
     \<and> (\<forall>i \<in> {0<..<ranks}. chan n (i, tree_parent k i, CIRCLE_TAG_REDUCE) = [])"

lemma sync_steps_keep:
  assumes comm: "mpi_comm E chan posted" and k: "0 < k" and start: "sync_start E chan k ranks ps0 n0"
    and "(sync_step E chan ranks)\<^sup>*\<^sup>* (ps0, n0, \<lambda>_. False) s"
  shows "case s of (ps, n, done) \<Rightarrow> sync_inv E chan k ranks (\<lambda>i. local_objects_processed (ps0 i)) ps n done"
  using assms(4)
proof (induction rule: rtranclp_induct)
  case base
  then show ?case using start by (simp add: sync_start_def sync_inv_def)
next
  case (step s s')
  from step(2) show ?case
  proof cases
    case (sync i d ps n p' n')
    then have inv: "sync_inv E chan k ranks (\<lambda>i. local_objects_processed (ps0 i)) ps n d" using step(3) by simp
    show ?thesis unfolding sync(2) prod.case by (rule sync_keeps [OF comm k inv sync(3-5)])
  next
    case (other n' n ps d)
    then have "sync_inv E chan k ranks (\<lambda>i. local_objects_processed (ps0 i)) ps n d" using step(3) by simp
    then show ?thesis unfolding other(2) prod.case sync_inv_def other(3) .
  qed
qed

section \<open>Property\<close>

text \<open>
  C15. The final reduction counts everything. Let all processes call \<open>CIRCLE_reduce_sync\<close>, each with the number of
  items it has processed, in any order in which the calls can return, for any tree and any callbacks. When the call
  returns at rank 0, all processes have called, and the total it holds is the sum of the counts of
  all processes.
\<close>

theorem reduce_sync_counts_all:
  assumes "mpi_comm E chan posted" and "0 < k" and "0 < ranks" and "sync_start E chan k ranks ps0 n0"
    and "(sync_step E chan ranks)\<^sup>*\<^sup>* (ps0, n0, \<lambda>_. False) (ps, n, done)" and "done 0"
  shows "fst (snd (reduce_buf (ps 0))) = (\<Sum>i \<in> {0..<ranks}. local_objects_processed (ps0 i)) \<and> (\<forall>i \<in> {0..<ranks}. done i)"
proof -
  have inv: "sync_inv E chan k ranks (\<lambda>i. local_objects_processed (ps0 i)) ps n done"
    using sync_steps_keep [OF assms(1,2,4,5)] by simp
  have all: "done i" if "0 \<le> i" "i < ranks" for i
    using that
  proof (induction rule: rank_tree.from_root [OF tree_facts(3) [OF assms(2)], consumes 2, case_names root kid])
    case (kid c)
    have "tree_parent k c \<in> {0..<ranks}" using tree_facts(1) [OF assms(2) kid(1,2)] kid(2) by auto
    then show ?case
      using sync_invD(4) [OF inv _ kid(3), of c] tree_facts(2) [OF assms(2), of "tree_parent k c" ranks c] kid(1,2) by auto
  qed (rule assms(6))
  moreover have "fst (snd (reduce_buf (ps 0))) = (\<Sum>i \<in> {0..<ranks}. local_objects_processed (ps0 i))"
    by (rule rank_tree.sum_at_root [OF tree_facts(3) [OF assms(2)] assms(3)]) (use sync_invD(5) [OF inv] all in auto)
  ultimately show ?thesis by simp
qed

text \<open>Two processes that have handled three and four items.\<close>

definition counted_pair :: "int \<Rightarrow> unit proc" where
  "counted_pair i = (idle_pair i)\<lparr>local_objects_processed := 3 + i\<rparr>"

lemma counted_pair_runs:
  "case CIRCLE_reduce_sync fifo_mpi (counted_pair 1) (quiet_net 2) 4 of
     Inr (p1, n1) \<Rightarrow> (case CIRCLE_reduce_sync fifo_mpi (counted_pair 0) n1 3 of Inr (p0, n0) \<Rightarrow> True | Inl _ \<Rightarrow> False)
   | Inl _ \<Rightarrow> False"
  by code_simp

theorem reduce_sync_counts_all_witness:
  "\<exists>p1 n1 p0 n0. CIRCLE_reduce_sync fifo_mpi (counted_pair 1) (quiet_net 2) 4 = Inr (p1, n1)
     \<and> CIRCLE_reduce_sync fifo_mpi (counted_pair 0) n1 3 = Inr (p0, n0) \<and> fst (snd (reduce_buf p0)) = 7"
proof -
  obtain p1 n1 p0 n0 where r: "CIRCLE_reduce_sync fifo_mpi (counted_pair 1) (quiet_net 2) 4 = Inr (p1, n1)"
    "CIRCLE_reduce_sync fifo_mpi (counted_pair 0) n1 3 = Inr (p0, n0)"
    using counted_pair_runs by (elim returnsE) (clarsimp elim!: returnsE)
  let ?S = "sync_step fifo_mpi f_chan 2" and ?d = "\<lambda>i :: int. False"
  have s1: "?S (counted_pair, quiet_net 2, ?d) (counted_pair(1 := p1), n1, ?d(1 := True))"
    by (rule sync_step.sync) (use r(1) in \<open>simp_all add: counted_pair_def\<close>)
  have s2: "?S (counted_pair(1 := p1), n1, ?d(1 := True)) ((counted_pair(1 := p1))(0 := p0), n0, (?d(1 := True))(0 := True))"
    by (rule sync_step.sync) (use r(2) in \<open>simp_all add: counted_pair_def\<close>)
  have run: "?S\<^sup>*\<^sup>* (counted_pair, quiet_net 2, ?d) ((counted_pair(1 := p1))(0 := p0), n0, (?d(1 := True))(0 := True))"
    using s1 s2 by (meson converse_rtranclp_into_rtranclp rtranclp.rtrancl_refl)
  have start: "sync_start fifo_mpi f_chan 2 2 counted_pair (quiet_net 2)"
    using idle_pair_run by (simp add: sync_start_def counted_pair_def tree_ok_def)
  have "{0..<2} = {0, 1 :: int}" by auto
  then have "(\<Sum>i \<in> {0..<2}. local_objects_processed (counted_pair i)) = 7" by (simp add: counted_pair_def)
  then show ?thesis
    using reduce_sync_counts_all [OF fifo.mpi_comm_axioms _ _ start run] r by simp
qed

end
