(* ===== verification/Edges.thy ===== *)
theory Edges
  imports Session ReduceSum
begin

text \<open>
  Where the library begins and where it ends: what \<open>CIRCLE_init\<close> sets up, what a callback can reach through the handle,
  a restart that repeats work, and inputs for which the code runs into undefined behaviour (an empty reduction, the counter of
  processed items, the debug output of the queue).
\<close>

section \<open>Within\<close>

text \<open>What a session leaves of the library besides the process.\<close>

lemma begin_keeps:
  "CIRCLE_begin E io fs sz l n = Some (Inr (l', fs', n')) \<Longrightarrow>
    CIRCLE_must_finalize_mpi l' = CIRCLE_must_finalize_mpi l \<and> queue_null l' = queue_null l"
  by (auto simp: CIRCLE_begin_def outcome split: if_splits option.splits)

text \<open>
  C33. \<open>CIRCLE_init\<close> leaves a library that is ready to run, or reports failure. When MPI cannot be initialised it returns -1. Otherwise,
  with memory for the queue, it returns the rank of the process with an empty, well-formed queue, none of the five callbacks, no
  reduction buffer, the given options and the defaults; and \<open>CIRCLE_finalize\<close>, called at once or
  after any session, finalises MPI exactly if \<open>CIRCLE_init\<close> has initialised it.
\<close>

theorem init_ready:
  fixes l :: "'u lib" and E :: "('n, 'z) mpi_scheme"
  assumes "mem_ample E" and "int (CIRCLE_INITIAL_INTERNAL_QUEUE_SIZE E) \<le> INT32_MAX"
  shows "if mpi_initialized_rc m \<noteq> 0 \<or> \<not> mpi_initialized m \<and> mpi_init_rc m \<noteq> 0
    then \<exists>l'. CIRCLE_init E m opts l = Inr (-1, l')
    else \<exists>l'. CIRCLE_init E m opts l = Inr (mpi_world_rank m, l') \<and> CIRCLE_global_rank l' = mpi_world_rank m
      \<and> \<not> queue_null l' \<and> queue_wf E (queue (lib_proc l')) \<and> items (queue (lib_proc l')) = []
      \<and> input (lib_proc l') = \<lparr>create_cb = None, process_cb = None, reduce_init_cb = None, reduce_op_cb = None,
          reduce_fini_cb = None, user_reduce_buf = None, reduce_buf_size = 0, reduce_period = 0, options = opts, tree_width = 64\<rparr>
      \<and> (fst (snd (CIRCLE_finalize l')) \<longleftrightarrow> \<not> mpi_initialized m)
      \<and> (\<forall>io fs sz n l'' fs' n'. CIRCLE_begin E io fs sz l' n = Some (Inr (l'', fs', n')) \<longrightarrow>
          (fst (snd (CIRCLE_finalize l'')) \<longleftrightarrow> \<not> mpi_initialized m))"
proof (cases "mpi_initialized_rc m \<noteq> 0 \<or> \<not> mpi_initialized m \<and> mpi_init_rc m \<noteq> 0")
  case True
  then show ?thesis by (auto simp: CIRCLE_init_def Let_def)
next
  case False
  obtain q where q: "CIRCLE_internal_queue_init E = Inr (Some q)"
    using assms(1) by (simp add: CIRCLE_internal_queue_init_def Let_def malloc_arr_def)
  note wf = init_wf(1,2) [OF q assms(2)]
  from False have ok: "mpi_initialized_rc m = 0" "mpi_initialized m \<or> mpi_init_rc m = 0" by simp_all
  define l' where "l' = snd (projr (CIRCLE_init E m opts l))"
  have init: "CIRCLE_init E m opts l = Inr (mpi_world_rank m, l')"
    using ok q by (cases "mpi_initialized m") (simp_all add: l'_def CIRCLE_init_def Let_def map_input_def CIRCLE_set_options_def)
  have l': "CIRCLE_global_rank l' = mpi_world_rank m"
    "\<not> queue_null l'" "queue (lib_proc l') = q" "CIRCLE_must_finalize_mpi l' = (if mpi_initialized m then 0 else 1)"
    "input (lib_proc l') = \<lparr>create_cb = None, process_cb = None, reduce_init_cb = None, reduce_op_cb = None,
        reduce_fini_cb = None, user_reduce_buf = None, reduce_buf_size = 0, reduce_period = 0, options = opts, tree_width = 64\<rparr>"
    using ok q by (cases "mpi_initialized m"; simp add: l'_def CIRCLE_init_def Let_def map_input_def CIRCLE_set_options_def)+
  have "fst (snd (CIRCLE_finalize l'')) \<longleftrightarrow> \<not> mpi_initialized m" if "CIRCLE_must_finalize_mpi l'' = CIRCLE_must_finalize_mpi l'" for l'' :: "'u lib"
    using that l'(4) by (simp add: CIRCLE_finalize_def)
  note fin = this
  have "fst (snd (CIRCLE_finalize l'')) \<longleftrightarrow> \<not> mpi_initialized m"
    if "CIRCLE_begin E io fs sz l' n = Some (Inr (l'', fs', n'))" for io fs sz n l'' fs' n'
    using fin begin_keeps [OF that] by blast
  then show ?thesis unfolding if_not_P [OF False] using init l' wf fin by (intro exI [of _ l'] conjI) simp_all
qed

theorem init_ready_witness:
  "\<exists>l'. CIRCLE_init fifo_mpi \<lparr>mpi_initialized_rc = 0, mpi_initialized = False, mpi_init_rc = 0, mpi_world_rank = 3\<rparr> 10 alone_lib
      = Inr (3, l') \<and> items (queue (lib_proc l')) = [] \<and> fst (snd (CIRCLE_finalize l'))"
  using init_ready [of fifo_mpi "\<lparr>mpi_initialized_rc = 0, mpi_initialized = False, mpi_init_rc = 0, mpi_world_rank = 3\<rparr>" 10 alone_lib]
  by (auto simp: INT32_MAX_def)

text \<open>
  C34. What a callback can reach. Whatever calls of the handle a callback makes, in whatever order and depending on whatever they
  return, the queue stays well formed, the process state the library keeps for itself and the settings are untouched, an
  abort is not taken back, and a callback that does not enqueue adds no work.
\<close>

theorem callback_keeps_process:
  assumes "run_callback H cb p = Inr p'" and "cb_ok (CIRCLE_MAX_STRING_LEN H) e cb" and "queue_wf H (queue p)" and "mem_ample H"
  shows "queue_wf H (queue p') \<and> CIRCLE_state_st.truncate p' = CIRCLE_state_st.truncate p
    \<and> settings (input p') = settings (input p) \<and> (CIRCLE_ABORT_FLAG p \<noteq> 0 \<longrightarrow> CIRCLE_ABORT_FLAG p' \<noteq> 0)
    \<and> (\<not> e \<longrightarrow> count (queue p') \<le> count (queue p))"
  using run_callback_step [OF assms] run_callback_only [OF assms(1)] by (simp add: user_step_def only_user_def)

text \<open>A callback that takes an item, puts another back and aborts.\<close>

definition swapping :: "unit callback" where
  "swapping = CB_dequeue (Some 8) (\<lambda>rc s. CB_enqueue (Some ''d'') (\<lambda>rc. CB_abort (CB_return ())))"

lemma swapping_runs:
  "case run_callback fifo_mpi swapping alone of
     Inr p' \<Rightarrow> items (queue p') = [''ab'', ''d''] \<and> CIRCLE_ABORT_FLAG p' = 1 | Inl _ \<Rightarrow> False"
  by code_simp

theorem callback_keeps_process_witness:
  "\<exists>p'. run_callback fifo_mpi swapping alone = Inr p' \<and> items (queue p') = [''ab'', ''d''] \<and> queue_wf fifo_mpi (queue p')"
proof -
  obtain p' where r: "run_callback fifo_mpi swapping alone = Inr p'" "items (queue p') = [''ab'', ''d'']"
    using swapping_runs by (elim returnsE) auto
  have "cb_ok (CIRCLE_MAX_STRING_LEN fifo_mpi) True swapping" by (simp add: swapping_def c_str_def NUL_def)
  moreover have "queue alone = small_queue" by (simp add: alone_def small_proc_def)
  then have "queue_wf fifo_mpi (queue alone)" using small_queue_fifo by (simp only:)
  ultimately have "queue_wf fifo_mpi (queue p')" by (rule callback_keeps_process [OF r(1), THEN conjunct1]) simp
  with r show ?thesis by blast
qed

section \<open>Beyond\<close>




text \<open>
  C35. A reduction without data after one with data crashes. If the user calls \<open>CIRCLE_reduce\<close> with bytes in one reduction and
  with none in the next, the old buffer is freed but its size is kept, and passing the result to the parent reads from a null
  pointer once the message with the count has been sent.
\<close>

theorem reduce_empty_crashes:
  assumes "0 < length buf" and "int (length buf) \<le> INT32_MAX" and "malloc_ok E (length buf)"
    and "parent_rank (tree p) \<noteq> MPI_PROC_NULL E" and "reduce_buf p = (MSG_VALID, total_sum, b)"
    and "mpi_send E n (rank p) (parent_rank (tree p)) CIRCLE_TAG_REDUCE
      (LongLongs [MSG_VALID, total_sum + cnt, int (length buf)]) \<noteq> None"
  shows "reduce_finish E (CIRCLE_reduce E (CIRCLE_reduce E p buf) []) n cnt = Inl Null_Deref"
proof -
  have "to_int32 (of_nat (length buf)) = int (length buf)" using assms(2) by (intro to_int32_small) simp
  then show ?thesis
    using assms(1,3-6)
    by (auto simp: reduce_finish_def reduce_send_parent_def CIRCLE_reduce_def CIRCLE_free_def memcpy_from_def Let_def MPI_Send_def)
qed

theorem reduce_empty_crashes_witness:
  "reduce_finish fifo_mpi (CIRCLE_reduce fifo_mpi (CIRCLE_reduce fifo_mpi
     ((idle_pair 1)\<lparr>reduce_buf := (MSG_VALID, 0, 0)\<rparr>) ''sum'') []) (quiet_net 2) 7 = Inl Null_Deref"
proof -
  have "parent_rank (tree (idle_pair 1)) \<noteq> MPI_PROC_NULL fifo_mpi" by code_simp
  then show ?thesis
    using reduce_empty_crashes [of "''sum''" fifo_mpi "(idle_pair 1)\<lparr>reduce_buf := (MSG_VALID, 0, 0)\<rparr>" 0 0 "quiet_net 2" 7]
    by (simp add: INT32_MAX_def)
qed

text \<open>
  C36. The counter of processed items overflows. \<open>local_objects_processed\<close> is an \<open>int32_t\<close>; once a process has processed
  2147483647 items, processing the next one is undefined behaviour, whatever the callback does.
\<close>

theorem item_count_overflows:
  assumes "0 < count (queue p)" and "CIRCLE_ABORT_FLAG p = 0" and "local_objects_processed p = INT32_MAX"
    and "run_process E p = Inr p'"
  shows "work_or_terminate E p n = Inl Signed_Overflow"
proof -
  from assms(4) obtain f where "run_callback E (f (user p)) p = Inr p'" by (auto simp: run_process_def split: option.splits)
  then have "CIRCLE_state_st.truncate p' = CIRCLE_state_st.truncate p" using run_callback_only by (auto simp: only_user_def)
  then have "local_objects_processed (CIRCLE_state_st.truncate p') = local_objects_processed (CIRCLE_state_st.truncate p)" by simp
  then have "local_objects_processed p' = INT32_MAX" using assms(3) by (simp add: CIRCLE_state_st.truncate_def)
  then show ?thesis using assms by (simp add: work_or_terminate_def c_int_def)
qed

text \<open>The process of theory Single, about to process one more item.\<close>

theorem item_count_overflows_witness:
  "work_or_terminate fifo_mpi (alone\<lparr>local_objects_processed := INT32_MAX\<rparr>) (quiet_net 1) = Inl Signed_Overflow"
proof -
  have "case run_process fifo_mpi (alone\<lparr>local_objects_processed := INT32_MAX\<rparr>) of Inr _ \<Rightarrow> True | Inl _ \<Rightarrow> False"
    by code_simp
  then obtain p' where "run_process fifo_mpi (alone\<lparr>local_objects_processed := INT32_MAX\<rparr>) = Inr p'" by (elim returnsE)
  from item_count_overflows [OF _ _ _ this] show ?thesis by (simp add: alone_def small_proc_def small_queue_def)
qed

text \<open>
  C37. The debug output of the queue reads outside the queue. At the debug level \<open>CIRCLE_internal_queue_dump\<close> of any
  well-formed queue with a pool of at least one byte reads past its pool, since the pointer is advanced before it is used.
\<close>

theorem queue_dump_overruns:
  assumes "queue_wf H q" and "0 < bytes q" and "5 \<le> debug_level"
  shows "CIRCLE_internal_queue_dump debug_level q = Inl Out_Of_Bounds"
proof -
  from assms(1) obtain b where b: "base q = Some b" "unat (bytes q) = length b" by (elim queue_wfE)
  have run: "for_list (\<lambda>i out. andThen (arr_get (Some b) (int i)) (\<lambda>c. Inr (out @ [c]))) [j..<Suc (length b)] out = Inl Out_Of_Bounds"
    if "j \<le> length b" for j out
    using that
  proof (induction "length b - j" arbitrary: j out)
    case 0
    then show ?case by (simp add: arr_get_def)
  next
    case (Suc d)
    then have "j < length b" by simp
    then have "[j..<Suc (length b)] = j # [Suc j..<Suc (length b)]" by (simp add: upt_conv_Cons del: upt_Suc)
    then show ?case using Suc by (simp del: upt_Suc)
  qed
  have "1 \<le> length b" using assms(2) b(2) by (cases b) (auto simp: word_less_nat_alt)
  from run [OF this] show ?thesis using assms(3) b by (simp add: CIRCLE_internal_queue_dump_def del: upt_Suc)
qed

theorem queue_dump_overruns_witness: "CIRCLE_internal_queue_dump 5 small_queue = Inl Out_Of_Bounds"
  using queue_dump_overruns [OF small_queue_wf, of 5] by (simp add: small_queue_def)

end
