(* ===== verification/Progress.thy ===== *)
theory Progress
  imports Wave
begin

text \<open>
  Termination detection makes progress. The abstract protocol of theory Wave keeps, besides its invariant, how a
  result of 1 goes down the tree. Once every process is idle and nothing is under way, some process can always take a
  step of a wave as long as one of them has not left its loop, and every such step brings a measure down: at most as many
  waves fail as there are flags of 0 in play, and within a wave every edge of the tree goes through its states once.
\<close>

unbundle bit_operations_syntax

section \<open>How the result of 1 spreads\<close>

text \<open>
  As long as the root has not left, nobody has, and no result of 1 is on its way. Once it has, every process that
  has not left finds the 1 on its edge, or its parent has not left either and owes it a result.
\<close>

definition spreading :: "int \<Rightarrow> (int \<Rightarrow> int) \<Rightarrow> wave \<Rightarrow> bool" where
  "spreading ranks parent s \<longleftrightarrow>
     (if w_left s 0
      then \<forall>c. 0 < c \<and> c < ranks \<and> \<not> w_left s c \<longrightarrow> w_fall s c = [1] \<or> counted s c \<and> \<not> w_left s (parent c)
      else \<forall>i \<in> {0..<ranks}. \<not> w_left s i \<and> 1 \<notin> set (w_fall s i))"

text \<open>
  The measure. A wave that ends with 0 uses up a 0 among the flags and the reports under way, and nothing makes a new one in a quiet state. Within a
  wave an edge comes nearer to its end from 4 (the flag is part of the last wave and no result is there yet) over 3 (the result is on its way), 2 (it has arrived)
  and 1 (the next flag is on its way) to 0 (the flag has been counted). After a wave that ends with 1 the processes leave one by one.
\<close>

definition weight :: "int \<Rightarrow> (int \<Rightarrow> int) \<Rightarrow> wave \<Rightarrow> int \<Rightarrow> nat" where
  "weight ranks parent s c = (if w_fall s c \<noteq> [] then 3 else if w_rise s c \<noteq> [] then 1 else if \<not> w_up s c then 2
     else if c \<in> fresh ranks parent s then 0 else 4)"

definition zeros :: "int \<Rightarrow> wave \<Rightarrow> nat" where
  "zeros ranks s = card {i \<in> {0..<ranks}. w_flag s i = 0} + card {c \<in> {0..<ranks}. w_rise s c = [0]}"

definition staying :: "int \<Rightarrow> wave \<Rightarrow> int set" where
  "staying ranks s = {i \<in> {0..<ranks}. \<not> w_left s i}"

definition distance :: "int \<Rightarrow> (int \<Rightarrow> int) \<Rightarrow> wave \<Rightarrow> nat" where
  "distance ranks parent s = (if w_left s 0 then card (staying ranks s)
     else zeros ranks s * (4 * nat ranks + 1) + (\<Sum>c \<in> {0<..<ranks}. weight ranks parent s c) + nat ranks + 1)"

lemma weight_le: "weight ranks parent s c \<le> 4"
  by (simp add: weight_def)

lemma staying_card: "card (staying ranks s) \<le> nat ranks"
proof -
  have "staying ranks s \<subseteq> {0..<ranks}" by (auto simp: staying_def)
  from card_mono [OF _ this] show ?thesis by simp
qed

lemma weights_le: "(\<Sum>c \<in> {0<..<ranks}. weight ranks parent s c) \<le> 4 * nat ranks"
proof -
  have "(\<Sum>c \<in> {0<..<ranks}. weight ranks parent s c) \<le> of_nat (card {0<..<ranks}) * 4"
    by (rule sum_bounded_above) (rule weight_le)
  also have "\<dots> \<le> 4 * nat ranks" by simp
  finally show ?thesis .
qed

text \<open>One weight falls and no other rises.\<close>

lemma weights_less:
  assumes "0 < c" "c < ranks" and "weight ranks parent s' c < weight ranks parent s c"
    and "\<And>d. 0 < d \<Longrightarrow> d < ranks \<Longrightarrow> weight ranks parent s' d \<le> weight ranks parent s d"
  shows "(\<Sum>c \<in> {0<..<ranks}. weight ranks parent s' c) < (\<Sum>c \<in> {0<..<ranks}. weight ranks parent s c)"
  by (rule sum_strict_mono_ex1) (use assms in auto)

lemma distance_less:
  assumes "\<not> w_left s 0" "\<not> w_left s' 0" and "zeros ranks s' \<le> zeros ranks s"
    and "(\<Sum>c \<in> {0<..<ranks}. weight ranks parent s' c) < (\<Sum>c \<in> {0<..<ranks}. weight ranks parent s c)"
  shows "distance ranks parent s' < distance ranks parent s"
  using assms mult_le_mono1 [OF assms(3), of "4 * nat ranks + 1"] by (simp add: distance_def)

lemma distance_wave:
  assumes "\<not> w_left s 0" "\<not> w_left s' 0" and "zeros ranks s' < zeros ranks s"
  shows "distance ranks parent s' < distance ranks parent s"
proof -
  have "Suc (zeros ranks s') * (4 * nat ranks + 1) \<le> zeros ranks s * (4 * nat ranks + 1)"
    using assms(3) by (intro mult_le_mono1) simp
  then show ?thesis using assms(1,2) weights_le [of ranks parent s'] by (simp add: distance_def)
qed

section \<open>Steps of a quiet state\<close>

text \<open>The number of entries with a property when one entry is changed.\<close>

lemma card_fun_upd:
  assumes "finite A" and "i \<in> A"
  shows "card {j \<in> A. P ((f(i := v)) j)} + (if P (f i) then 1 else 0) = card {j \<in> A. P (f j)} + (if P v then 1 else 0)"
proof -
  have count: "card {j \<in> A. Q j} = (\<Sum>j \<in> A. if Q j then 1 else 0)" for Q
    using sum.inter_filter [OF assms(1), of "\<lambda>_. 1 :: nat" Q] by simp
  have "(\<Sum>j \<in> A - {i}. if P ((f(i := v)) j) then 1 else 0) = (\<Sum>j \<in> A - {i}. if P (f j) then 1 else 0 :: nat)"
    by (rule sum.cong) auto
  then show ?thesis
    unfolding count sum.remove [OF assms] by simp
qed

lemma zeros_flag:
  assumes "i \<in> {0..<ranks}"
  shows "zeros ranks (s\<lparr>w_flag := (w_flag s)(i := v)\<rparr>) + (if w_flag s i = 0 then 1 else 0)
    = zeros ranks s + (if v = 0 then 1 else 0)"
  using card_fun_upd [of "{0..<ranks}" i "\<lambda>x. x = 0" "w_flag s" v] assms by (simp add: zeros_def)

lemma zeros_rise:
  assumes "i \<in> {0..<ranks}"
  shows "zeros ranks (s\<lparr>w_rise := (w_rise s)(i := v)\<rparr>) + (if w_rise s i = [0] then 1 else 0)
    = zeros ranks s + (if v = [0] then 1 else 0)"
  using card_fun_upd [of "{0..<ranks}" i "\<lambda>x. x = [0]" "w_rise s" v] assms by (simp add: zeros_def)

lemma zeros_cong: "w_flag s' = w_flag s \<Longrightarrow> w_rise s' = w_rise s \<Longrightarrow> zeros ranks s' = zeros ranks s"
  by (simp add: zeros_def)

context rank_tree
begin

lemma left_root_up:
  assumes inv: "wave_inv ranks parent kids s" and sp: "spreading ranks parent s" and l: "w_left s 0"
    and i: "i \<in> {0..<ranks}" "\<not> w_left s i"
  shows "0 < i" "i < ranks" "w_up s i"
proof -
  show p: "0 < i" "i < ranks" using i l by (cases "i = 0"; auto)+
  have "w_fall s i = [1] \<or> counted s i" using sp l p i(2) by (auto simp: spreading_def)
  with wave_invE(5) [OF inv p] show "w_up s i" by (cases rule: edge_cases) (auto simp: counted_def)
qed

lemma absorb_shrinks:
  assumes inv: "wave_inv ranks parent kids s" and sp: "spreading ranks parent s"
    and i: "i \<in> {0..<ranks}" and c: "c \<in> set (kids i)" and x: "w_rise s c = x # xs" and nl: "\<not> w_left s i"
  defines "s' \<equiv> s\<lparr>w_rise := (w_rise s)(c := xs), w_flag := (w_flag s)(i := w_flag s i AND x),
      w_replies := (w_replies s)(i := w_replies s i + 1)\<rparr>"
  shows "distance ranks parent s' < distance ranks parent s" and "spreading ranks parent s'"
proof -
  from c i have pc: "0 < c" "c < ranks" "parent c = i" using kids_iff [of i c] by auto
  from wave_invE(5) [OF inv pc(1,2)] x
  have e: "xs = []" "x = 0 \<or> x = 1" "w_up s c" "w_fall s c = []" "\<not> w_up s i"
    by (cases rule: edge_cases; simp add: counted_def pc)+
  have root: "\<not> w_left s 0" using left_root_up(3) [OF inv sp _ i nl] e(5) by blast
  then show "spreading ranks parent s'" using sp by (simp add: spreading_def s'_def)
  have fr: "fresh ranks parent s' = fresh ranks parent s" unfolding s'_def by (rule absorb_fresh [OF inv i c x])
  have in_fresh: "c \<in> fresh ranks parent s" using pc e x by (intro fresh.rising) simp_all
  have w: "weight ranks parent s' d = (if d = c then 0 else weight ranks parent s d)" for d
    using e in_fresh unfolding weight_def fr by (auto simp: s'_def)
  have old: "weight ranks parent s c = 1" using e x by (simp add: weight_def)
  have "zeros ranks s' \<le> zeros ranks s"
  proof -
    have cr: "c \<in> {0..<ranks}" using pc by simp
    let ?t = "s\<lparr>w_rise := (w_rise s)(c := xs)\<rparr>"
    have "zeros ranks ?t + (if x = 0 then 1 else 0) = zeros ranks s" using zeros_rise [OF cr, of s xs] e(1) x by simp
    moreover have "zeros ranks (?t\<lparr>w_flag := (w_flag s)(i := w_flag s i AND x)\<rparr>) + (if w_flag s i = 0 then 1 else 0)
        = zeros ranks ?t + (if w_flag s i AND x = 0 then 1 else 0)" using zeros_flag [OF i, of ?t "w_flag s i AND x"] by simp
    moreover have "zeros ranks s' = zeros ranks (?t\<lparr>w_flag := (w_flag s)(i := w_flag s i AND x)\<rparr>)"
      by (rule zeros_cong) (simp_all add: s'_def)
    ultimately show ?thesis using e(2) wave_invE(2) [OF inv i] by (auto split: if_splits)
  qed
  moreover have "\<not> w_left s' 0" using root by (simp add: s'_def)
  moreover have "(\<Sum>d \<in> {0<..<ranks}. weight ranks parent s' d) < (\<Sum>d \<in> {0<..<ranks}. weight ranks parent s d)"
    by (rule weights_less [OF pc(1,2)]) (simp_all add: w old)
  ultimately show "distance ranks parent s' < distance ranks parent s" using root distance_less by blast
qed

lemma contribute_shrinks:
  assumes inv: "wave_inv ranks parent kids s" and sp: "spreading ranks parent s" and i: "i \<in> {0..<ranks}" "i \<noteq> 0"
    and idle: "w_idle s i" "w_out s i \<le> 0" "\<not> w_up s i" and full: "w_replies s i = int (length (kids i))" and nl: "\<not> w_left s i"
  defines "s' \<equiv> s\<lparr>w_rise := (w_rise s)(i := w_rise s i @ [w_flag s i]),
      w_flag := (w_flag s)(i := 1), w_up := (w_up s)(i := True)\<rparr>"
  shows "distance ranks parent s' < distance ranks parent s" and "spreading ranks parent s'"
proof -
  from i have pi: "0 < i" "i < ranks" by auto
  from wave_invE(5) [OF inv pi] idle(3)
  have e: "w_rise s i = []" "w_fall s i = []" by (cases rule: edge_cases; simp add: counted_def)+
  have root: "\<not> w_left s 0" using left_root_up(3) [OF inv sp _ i(1) nl] idle(3) by blast
  then show "spreading ranks parent s'" using sp by (simp add: spreading_def s'_def)
  have fr: "fresh ranks parent s' = insert i (fresh ranks parent s)"
    unfolding s'_def by (rule contribute_fresh [OF inv i idle full])
  have w: "weight ranks parent s' d = (if d = i then 1 else weight ranks parent s d)" for d
    using e unfolding weight_def fr by (auto simp: s'_def)
  have old: "weight ranks parent s i = 2" using e idle(3) by (simp add: weight_def)
  have "zeros ranks s' \<le> zeros ranks s"
  proof -
    let ?t = "s\<lparr>w_rise := (w_rise s)(i := w_rise s i @ [w_flag s i])\<rparr>"
    have "zeros ranks ?t = zeros ranks s + (if w_flag s i = 0 then 1 else 0)"
      using zeros_rise [OF i(1), of s "w_rise s i @ [w_flag s i]"] e(1) by simp
    moreover have "zeros ranks (?t\<lparr>w_flag := (w_flag s)(i := 1)\<rparr>) + (if w_flag s i = 0 then 1 else 0) = zeros ranks ?t"
      using zeros_flag [OF i(1), of ?t 1] by simp
    moreover have "zeros ranks s' = zeros ranks (?t\<lparr>w_flag := (w_flag s)(i := 1)\<rparr>)"
      by (rule zeros_cong) (simp_all add: s'_def)
    ultimately show ?thesis by (auto split: if_splits)
  qed
  moreover have "\<not> w_left s' 0" using root by (simp add: s'_def)
  moreover have "(\<Sum>d \<in> {0<..<ranks}. weight ranks parent s' d) < (\<Sum>d \<in> {0<..<ranks}. weight ranks parent s d)"
    by (rule weights_less [OF pi]) (simp_all add: w old)
  ultimately show "distance ranks parent s' < distance ranks parent s" using root distance_less by blast
qed

lemma deliver_shrinks:
  assumes inv: "wave_inv ranks parent kids s" and sp: "spreading ranks parent s" and i: "i \<in> {0..<ranks}" "i \<noteq> 0"
    and up: "w_up s i" and v: "w_fall s i = v # vs" and nl: "\<not> w_left s i"
  defines "s' \<equiv> s\<lparr>w_fall := fall_to (kids i) v ((w_fall s)(i := vs)), w_up := (w_up s)(i := False),
      w_replies := (w_replies s)(i := 0), w_left := (w_left s)(i := v \<noteq> 0)\<rparr>"
  shows "distance ranks parent s' < distance ranks parent s" and "spreading ranks parent s'"
proof -
  from i have pi: "0 < i" "i < ranks" "i \<notin> set (kids i)" using kids_iff [of i i] parent_below [of i] by auto
  from wave_invE(5) [OF inv pi(1,2)] v
  have e: "vs = []" "v = 0 \<or> v = 1" "w_rise s i = []" by (cases rule: edge_cases; simp add: counted_def)+
  have kid: "d \<in> set (kids i) \<longleftrightarrow> 0 < d \<and> d < ranks \<and> parent d = i" for d using kids_iff [of i d] i by simp
  have kc: "counted s d" if "d \<in> set (kids i)" for d
    using all_counted [OF inv i(1) falling_full [OF inv pi(1,2)] that] v by simp
  have fall: "w_fall s' d = (if d = i then [] else if d \<in> set (kids i) then [v] else w_fall s d)" for d
    using kc [of d] pi e(1) by (auto simp: s'_def fall_to_def counted_def)
  have fr: "fresh ranks parent s' = fresh ranks parent s" unfolding s'_def by (rule deliver_fresh [OF inv i up v])
  have left: "w_left s' = (w_left s)(i := v \<noteq> 0)" by (simp add: s'_def)
  show "spreading ranks parent s'"
  proof (cases "w_left s 0")
    case True
    have one: "v = 1"
      using sp True pi nl v by (auto simp: spreading_def counted_def)
    have "w_fall s' c = [1] \<or> counted s' c \<and> \<not> w_left s' (parent c)" if c: "0 < c" "c < ranks" "\<not> w_left s' c" for c
    proof -
      have ci: "c \<noteq> i" "\<not> w_left s c" using c(3) one by (auto simp: left split: if_splits)
      show ?thesis
      proof (cases "c \<in> set (kids i)")
        case True
        then show ?thesis using fall [of c] ci(1) one by simp
      next
        case False
        then have "parent c \<noteq> i" using c kid by auto
        then show ?thesis
          using sp True ci c(1,2) False fall [of c] \<open>w_left s 0\<close> by (auto simp: spreading_def left counted_def s'_def)
      qed
    qed
    then show ?thesis using True i(2) left by (simp add: spreading_def)
  next
    case False
    then have none: "\<not> w_left s j \<and> 1 \<notin> set (w_fall s j)" if "j \<in> {0..<ranks}" for j
      using sp that by (auto simp: spreading_def)
    from none [OF i(1)] v e(2) have "v = 0" by auto
    then have "\<not> w_left s' j \<and> 1 \<notin> set (w_fall s' j)" if "j \<in> {0..<ranks}" for j
      using none [OF that] by (simp add: fall left)
    moreover have "\<not> w_left s' 0" using False i(2) by (simp add: left)
    ultimately show ?thesis by (simp add: spreading_def)
  qed
  show "distance ranks parent s' < distance ranks parent s"
  proof (cases "w_left s 0")
    case True
    then have "w_left s' 0" using i(2) by (simp add: left)
    have one: "v = 1" using sp True pi nl v by (auto simp: spreading_def counted_def)
    have "staying ranks s' = staying ranks s - {i}" using one by (auto simp: staying_def left)
    moreover have "i \<in> staying ranks s" "finite (staying ranks s)"
      using i(1) nl by (auto simp: staying_def intro: finite_subset [of _ "{0..<ranks}"])
    ultimately have "card (staying ranks s') < card (staying ranks s)" by (metis card_Diff1_less)
    then show ?thesis using True \<open>w_left s' 0\<close> by (simp add: distance_def)
  next
    case False
    have "\<not> w_left s' 0" using False i(2) by (simp add: left)
    moreover have "zeros ranks s' = zeros ranks s" by (rule zeros_cong) (simp_all add: s'_def)
    moreover have "weight ranks parent s' i = 2" using e(3) fall [of i] by (simp add: weight_def s'_def)
    moreover have "weight ranks parent s i = 3" using v by (simp add: weight_def)
    moreover have "weight ranks parent s' d \<le> weight ranks parent s d" for d
    proof (cases "d \<in> set (kids i)")
      case True
      then have "\<not> d \<in> fresh ranks parent s"
      proof -
        have "i \<notin> fresh ranks parent s" using e(3) v by (auto elim: fresh.cases simp: counted_def)
        then show ?thesis using kc [OF True] True kid up by (auto elim: fresh.cases simp: counted_def)
      qed
      then have "weight ranks parent s d = 4" using kc [OF True] by (simp add: weight_def counted_def)
      then show ?thesis by (simp add: weight_le)
    next
      case nk: False
      show ?thesis
      proof (cases "d = i")
        case False
        then show ?thesis using nk fall [of d] unfolding weight_def fr by (simp add: s'_def)
      qed (use calculation in simp)
    qed
    ultimately show ?thesis using False weights_less [OF pi(1,2)] by (intro distance_less) auto
  qed
qed

lemma decide_shrinks:
  assumes inv: "wave_inv ranks parent kids s" and sp: "spreading ranks parent s" and r: "0 < ranks"
    and full: "w_replies s 0 = int (length (kids 0))" and nl: "\<not> w_left s 0"
  defines "s' \<equiv> s\<lparr>w_fall := fall_to (kids 0) (w_flag s 0) (w_fall s), w_flag := (w_flag s)(0 := 1),
      w_replies := (w_replies s)(0 := 0), w_left := (w_left s)(0 := w_flag s 0 \<noteq> 0)\<rparr>"
  shows "distance ranks parent s' < distance ranks parent s" and "spreading ranks parent s'"
proof -
  have z: "0 \<in> {0..<ranks}" using r by simp
  note all = root_full(1) [OF inv full]
  have kid: "d \<in> set (kids 0) \<longleftrightarrow> 0 < d \<and> d < ranks \<and> parent d = 0" for d using kids_iff [of 0 d] r by simp
  have fall: "w_fall s' d = (if d \<in> set (kids 0) then [w_flag s 0] else w_fall s d)" for d
    using all [of d] kid by (auto simp: s'_def fall_to_def counted_def)
  have left: "w_left s' = (w_left s)(0 := w_flag s 0 \<noteq> 0)" by (simp add: s'_def)
  have fl: "w_flag s 0 = 0 \<or> w_flag s 0 = 1" using wave_invE(2) [OF inv z] .
  have none: "\<not> w_left s j" "1 \<notin> set (w_fall s j)" if "j \<in> {0..<ranks}" for j
    using sp nl that by (auto simp: spreading_def)
  show "spreading ranks parent s'"
  proof (cases "w_flag s 0 = 0")
    case True
    then show ?thesis using none unfolding spreading_def by (auto simp: left fall)
  next
    case False
    have "w_fall s' c = [1] \<or> counted s' c \<and> \<not> w_left s' (parent c)" if "0 < c" "c < ranks" for c
    proof (cases "parent c = 0")
      case True
      then show ?thesis using fall [of c] kid that fl False by simp
    next
      case nz: False
      then have "counted s' c" using all [OF that] fall [of c] kid by (simp add: counted_def s'_def)
      moreover have "\<not> w_left s' (parent c)" using nz none(1) [of "parent c"] parent_below [OF that] that by (simp add: left)
      ultimately show ?thesis by blast
    qed
    then show ?thesis using False by (simp add: spreading_def left)
  qed
  show "distance ranks parent s' < distance ranks parent s"
  proof (cases "w_flag s 0 = 0")
    case True
    have "zeros ranks s' + 1 = zeros ranks s"
      using zeros_flag [OF z, of s 1] True zeros_cong [of s' "s\<lparr>w_flag := (w_flag s)(0 := 1)\<rparr>"] by (simp add: s'_def)
    then show ?thesis using nl True by (intro distance_wave) (simp_all add: left)
  next
    case False
    then have "distance ranks parent s' = card (staying ranks s')" by (simp add: distance_def left)
    then show ?thesis using staying_card [of ranks s'] nl by (simp add: distance_def)
  qed
qed


text \<open>The steps that leave the edges of the tree alone keep the way the result spreads.\<close>

lemma spreading_cong:
  "w_left s' = w_left s \<Longrightarrow> w_up s' = w_up s \<Longrightarrow> w_rise s' = w_rise s \<Longrightarrow> w_fall s' = w_fall s \<Longrightarrow>
    spreading ranks parent s' = spreading ranks parent s"
  by (simp add: spreading_def counted_def)

lemma spreading_step:
  assumes st: "wave_step ranks kids s s'" and inv: "wave_inv ranks parent kids s" and sp: "spreading ranks parent s"
  shows "spreading ranks parent s'"
  using st
proof cases
  case (absorb i c x xs)
  then show ?thesis using absorb_shrinks(2) [OF inv sp absorb(2,3,4,5)] by simp
next
  case (contribute i)
  then show ?thesis using contribute_shrinks(2) [OF inv sp contribute(2,3,4,5,6,7,8)] by simp
next
  case (deliver i v vs)
  then show ?thesis using deliver_shrinks(2) [OF inv sp deliver(2,3,4,5,6)] by simp
next
  case decide
  then show ?thesis using decide_shrinks(2) [OF inv sp decide(2,6,7)] by simp
qed (simp add: sp spreading_cong [of _ s])+

lemma spreading_steps:
  "(wave_step ranks kids)\<^sup>*\<^sup>* s s' \<Longrightarrow> wave_inv ranks parent kids s \<Longrightarrow> spreading ranks parent s \<Longrightarrow> spreading ranks parent s'"
proof (induction rule: rtranclp_induct)
  case (step y z)
  then show ?case using spreading_step [OF step(2) wave_steps_keep [OF step(1,4)]] by blast
qed

text \<open>In a quiet state every step is a step of the wave, and brings the end nearer.\<close>

lemma quiet_step:
  assumes st: "wave_step ranks kids s s'" and inv: "wave_inv ranks parent kids s" and sp: "spreading ranks parent s"
    and q: "quiet ranks s"
  shows "s' = s \<or> distance ranks parent s' < distance ranks parent s" and "quiet ranks s'"
proof -
  have idle: "w_idle s i" "w_out s i \<le> 0" if "i \<in> {0..<ranks}" for i using q that by (auto simp: quiet_def)
  show "s' = s \<or> distance ranks parent s' < distance ranks parent s"
    using st
  proof cases
    case (process i b)
    then show ?thesis using idle(1) by blast
  next
    case (halt i)
    then show ?thesis using idle(1) [of i] by (simp add: fun_upd_idem)
  next
    case (ship i j b)
    then show ?thesis using idle(1) by blast
  next
    case (take i j m b)
    then show ?thesis using out_zero(2) [OF inv take(3) idle(2) [OF take(3)] take(2)] by simp
  next
    case (acked i j m)
    then show ?thesis using out_zero(3) [OF inv acked(2) idle(2) [OF acked(2)] acked(3)] by simp
  next
    case (absorb i c x xs)
    then show ?thesis using absorb_shrinks(1) [OF inv sp absorb(2,3,4,5)] by simp
  next
    case (contribute i)
    then show ?thesis using contribute_shrinks(1) [OF inv sp contribute(2,3,4,5,6,7,8)] by simp
  next
    case (deliver i v vs)
    then show ?thesis using deliver_shrinks(1) [OF inv sp deliver(2,3,4,5,6)] by simp
  next
    case decide
    then show ?thesis using decide_shrinks(1) [OF inv sp decide(2,6,7)] by simp
  qed
  show "quiet ranks s'"
    using st
  proof cases
    case (process i b)
    then show ?thesis using idle(1) by blast
  next
    case (ship i j b)
    then show ?thesis using idle(1) by blast
  next
    case (take i j m b)
    then show ?thesis using out_zero(2) [OF inv take(3) idle(2) [OF take(3)] take(2)] by simp
  next
    case (acked i j m)
    then show ?thesis using out_zero(3) [OF inv acked(2) idle(2) [OF acked(2)] acked(3)] by simp
  qed (use q in \<open>auto simp: quiet_def\<close>)
qed

lemma quiet_steps:
  assumes "(wave_step ranks kids)\<^sup>*\<^sup>* s s'" and inv: "wave_inv ranks parent kids s" and sp: "spreading ranks parent s"
    and q: "quiet ranks s"
  shows "(s' = s \<or> distance ranks parent s' < distance ranks parent s) \<and> quiet ranks s'"
  using assms(1)
proof (induction rule: rtranclp_induct)
  case (step y z)
  have inv': "wave_inv ranks parent kids y" by (rule wave_steps_keep [OF step(1) inv])
  from quiet_step [OF step(2) inv' spreading_steps [OF step(1) inv sp]] step(3) show ?case by auto
qed (simp add: q)

end

section \<open>Some process can always take a step\<close>

text \<open>A step of the wave is due at process \<open>i\<close>.\<close>

definition due :: "(int \<Rightarrow> int list) \<Rightarrow> wave \<Rightarrow> int \<Rightarrow> bool" where
  "due kids s i \<longleftrightarrow> \<not> w_left s i \<and>
     (i \<noteq> 0 \<and> w_up s i \<and> w_fall s i \<noteq> []
      \<or> \<not> w_up s i \<and> (w_replies s i = int (length (kids i)) \<or> (\<exists>c \<in> set (kids i). w_rise s c \<noteq> [])))"

context rank_tree
begin

lemma due_after_decision:
  assumes inv: "wave_inv ranks parent kids s" and sp: "spreading ranks parent s" and l: "w_left s 0"
    and j: "j \<in> {0..<ranks}" "\<not> w_left s j"
  shows "\<exists>i \<in> {0..<ranks}. due kids s i"
proof -
  define c where "c = Min (staying ranks s)"
  have fin: "finite (staying ranks s)" by (rule finite_subset [of _ "{0..<ranks}"]) (auto simp: staying_def)
  have "c \<in> staying ranks s" unfolding c_def by (rule Min_in [OF fin]) (use j in \<open>auto simp: staying_def\<close>)
  then have c: "c \<in> {0..<ranks}" "\<not> w_left s c" by (simp_all add: staying_def)
  note pc = left_root_up [OF inv sp l c]
  have "w_left s (parent c)"
  proof (rule ccontr)
    assume "\<not> w_left s (parent c)"
    then have "parent c \<in> staying ranks s" using parent_below [OF pc(1,2)] pc by (simp add: staying_def)
    then have "c \<le> parent c" unfolding c_def by (rule Min_le [OF fin])
    then show False using parent_below [OF pc(1,2)] by simp
  qed
  then have "w_fall s c = [1]" using sp l pc c(2) by (auto simp: spreading_def)
  then have "due kids s c" using pc c(2) by (simp add: due_def)
  with c(1) show ?thesis by blast
qed

lemma due_before_decision:
  assumes inv: "wave_inv ranks parent kids s" and sp: "spreading ranks parent s" and l: "\<not> w_left s 0" and r: "0 < ranks"
  shows "\<exists>i \<in> {0..<ranks}. due kids s i"
proof (rule ccontr)
  assume "\<not> ?thesis"
  then have none: "\<not> due kids s i" if "i \<in> {0..<ranks}" for i using that by blast
  have stay: "\<not> w_left s i" if "i \<in> {0..<ranks}" for i using sp l that by (auto simp: spreading_def)
  have edge: "counted s c \<or> \<not> w_up s c" if c: "0 < c" "c < ranks" for c
    using wave_invE(5) [OF inv c]
  proof (cases rule: edge_cases)
    case (rising x)
    have pr: "parent c \<in> {0..<ranks}" "c \<in> set (kids (parent c))"
      using parent_below [OF c] kids_iff [of "parent c" c] c by auto
    then have "due kids s (parent c)" using rising stay [OF pr(1)] by (auto simp: due_def)
    then show ?thesis using none [OF pr(1)] by blast
  next
    case (falling v)
    then have "due kids s c" using stay [of c] c by (simp add: due_def)
    then show ?thesis using none [of c] c by simp
  qed simp_all
  define A where "A = {i \<in> {0..<ranks}. \<not> w_up s i}"
  define i where "i = Max A"
  have fin: "finite A" by (rule finite_subset [of _ "{0..<ranks}"]) (auto simp: A_def)
  have "0 \<in> A" using wave_invE(1) [OF inv] r by (simp add: A_def)
  then have "i \<in> A" unfolding i_def by (intro Max_in [OF fin]) blast
  then have i: "i \<in> {0..<ranks}" "\<not> w_up s i" by (simp_all add: A_def)
  have "counted s c" if c: "c \<in> set (kids i)" for c
  proof -
    have pc: "i < c" "0 < c" "c < ranks" using kids_range [of i c] c i by auto
    have "c \<notin> A" using Max_ge [OF fin, of c] pc(1) unfolding i_def by auto
    then show ?thesis using edge [OF pc(2,3)] pc by (simp add: A_def)
  qed
  then have "{c \<in> set (kids i). counted s c} = set (kids i)" by blast
  then have "w_replies s i = int (length (kids i))"
    using wave_invE(3) [OF inv i(1)] distinct_card [OF kids_distinct [of i]] by simp
  then have "due kids s i" using i(2) stay [OF i(1)] by (simp add: due_def)
  then show False using none [OF i(1)] by blast
qed

lemma some_due:
  assumes inv: "wave_inv ranks parent kids s" and sp: "spreading ranks parent s" and r: "0 < ranks"
    and j: "j \<in> {0..<ranks}" "\<not> w_left s j"
  shows "\<exists>i \<in> {0..<ranks}. due kids s i"
  using due_after_decision [OF inv sp _ j] due_before_decision [OF inv sp _ r] by blast

end

end
