(* ===== verification/Liveness.thy ===== *)
theory Liveness
  imports Serving Progress
begin

text \<open>
  Termination detection by the tree is live. Once every process is idle and every receipt is in, the calls
  of \<open>CIRCLE_check_for_term_allreduce\<close> bring the processes out of their loops in every fair run: each step of the
  system keeps the distance of theory Progress or brings it down, and the call that is due brings it down. A run is fair
  when each process in its loop looks at termination again and again, and at some of these times sees the messages sent to it.
\<close>

unbundle bit_operations_syntax

section \<open>A call of the detection returns, or blocks in a send\<close>

lemma terms_okD: "terms_ok c \<Longrightarrow> c (s, d, CIRCLE_TAG_TERM) = m # ms \<Longrightarrow> \<exists>v. m = Ints [v]"
  unfolding terms_ok_def by (metis list.set_intros(1))

lemma recv_term:
  assumes comm: "mpi_comm E chan posted" and ok: "terms_ok (chan n)"
    and pr: "mpi_iprobe E n me src CIRCLE_TAG_TERM = (Some st, n1)"
  obtains v ms n2 where "chan n (MPI_SOURCE st, me, CIRCLE_TAG_TERM) = Ints [v] # ms"
    and "recv_int E n1 me (MPI_SOURCE st) CIRCLE_TAG_TERM = Inr (v, n2)"
    and "chan n2 = (chan n)((MPI_SOURCE st, me, CIRCLE_TAG_TERM) := ms)" and "posted n2 = posted n"
proof -
  from mpi_comm.recv_after_probe [OF comm pr] obtain m ms n2 where
    m: "chan n (MPI_SOURCE st, me, CIRCLE_TAG_TERM) = m # ms"
      "MPI_Recv E n1 me (MPI_SOURCE st) CIRCLE_TAG_TERM = Inr (m, n2)"
      "chan n2 = (chan n)((MPI_SOURCE st, me, CIRCLE_TAG_TERM) := ms)" "posted n2 = posted n" by blast
  from terms_okD [OF ok m(1)] obtain v where "m = Ints [v]" ..
  with m that show thesis by (simp add: recv_eqs)
qed






text \<open>A parent is a rank.\<close>

lemma parent_some:
  assumes "mpi_comm E chan posted" and "tree_ok E k ranks p" and "rank p \<in> {0..<ranks}" and "0 < k"
  shows "rank p = 0 \<and> parent_rank (tree p) = MPI_PROC_NULL E
    \<or> rank p \<noteq> 0 \<and> parent_rank (tree p) = tree_parent k (rank p) \<and> parent_rank (tree p) \<in> {0..<ranks}
      \<and> parent_rank (tree p) \<noteq> MPI_PROC_NULL E \<and> parent_rank (tree p) \<noteq> MPI_ANY_SOURCE E"
  using tree_okD(3) [OF assms(2)] parent_null [OF assms] tree_facts(1) [OF assms(4), of "rank p" ranks] assms(3)
    mpi_comm.any_source [OF assms(1)] by auto




section \<open>What the call that is due does\<close>

text \<open>The result is there: it is passed on, and the process is ready for another wave.\<close>

lemma check_delivers:
  assumes "term_replies p = children (tree p)" and "work_outstanding p \<le> 0" and "term_up p \<noteq> 0"
    and "parent_rank (tree p) \<noteq> MPI_PROC_NULL E"
    and "fst (mpi_iprobe E n (rank p) (parent_rank (tree p)) CIRCLE_TAG_TERM) \<noteq> None"
    and run: "CIRCLE_check_for_term_allreduce E p n = Inr (st, p', n')"
  shows "term_up p' = 0"
proof -
  obtain s n1 where "mpi_iprobe E n (rank p) (parent_rank (tree p)) CIRCLE_TAG_TERM = (Some s, n1)"
    using assms(5) by (metis fst_conv not_None_eq surj_pair)
  then show ?thesis
    using run assms(1-4)
    by (auto simp: CIRCLE_check_for_term_allreduce_def term_loop.simps [of E p n] term_contribute_def term_result_def
        outcome split: if_splits)
qed

text \<open>All children have reported: the flag goes up, and no result can be there yet.\<close>

lemma check_contributes:
  assumes comm: "mpi_comm E chan posted" and "term_replies p = children (tree p)" and "work_outstanding p \<le> 0"
    and "term_up p = 0" and par: "parent_rank (tree p) \<noteq> MPI_PROC_NULL E" "parent_rank (tree p) \<noteq> MPI_ANY_SOURCE E"
      "parent_rank (tree p) \<noteq> rank p" and none: "chan n (parent_rank (tree p), rank p, CIRCLE_TAG_TERM) = []"
    and run: "CIRCLE_check_for_term_allreduce E p n = Inr (st, p', n')"
  shows "term_up p' = 1"
proof -
  obtain m where s: "MPI_Send E n (rank p) (parent_rank (tree p)) CIRCLE_TAG_TERM (Ints [term_flag p]) = Inr m"
    using run assms(2-4) par(1)
    by (auto simp: CIRCLE_check_for_term_allreduce_def term_loop.simps [of E p n] term_contribute_def outcome)
  have "chan m (parent_rank (tree p), rank p, CIRCLE_TAG_TERM) = []"
    using mpi_comm.MPI_Send_adds [OF comm s] none par(3) by simp
  then have "fst (mpi_iprobe E m (rank p) (parent_rank (tree p)) CIRCLE_TAG_TERM) = None"
    using mpi_comm.probe_hit [OF comm, of m "rank p" "parent_rank (tree p)" CIRCLE_TAG_TERM] par(2)
    by (metis list.distinct(1) not_None_eq prod.collapse)
  then obtain n1 where "mpi_iprobe E m (rank p) (parent_rank (tree p)) CIRCLE_TAG_TERM = (None, n1)"
    by (metis prod.collapse)
  then show ?thesis
    using run assms(2-4) par(1) s
    by (auto simp: CIRCLE_check_for_term_allreduce_def term_loop.simps [of E p n] term_contribute_def term_result_def)
qed

text \<open>The root decides.\<close>

lemma check_decides:
  assumes "term_replies p = children (tree p)" and "work_outstanding p \<le> 0" and "term_up p = 0"
    and "parent_rank (tree p) = MPI_PROC_NULL E" and run: "CIRCLE_check_for_term_allreduce E p n = Inr (st, p', n')"
  shows "term_replies p' = 0" and "term_flag p' = 1" and "st = TERMINATE \<longleftrightarrow> term_flag p \<noteq> 0"
  using run assms(1-4)
  by (auto simp: CIRCLE_check_for_term_allreduce_def term_loop.simps [of E p n] term_contribute_def term_result_def
      outcome Let_def split: if_splits)

text \<open>A child has reported: the call takes its flag, and goes on as a call made after that.\<close>

lemma check_absorbs:
  assumes comm: "mpi_comm E chan posted" and ok: "local_ok E chan posted k ranks p n"
    and less: "term_replies p < children (tree p)"
    and hit: "fst (mpi_iprobe E n (rank p) (MPI_ANY_SOURCE E) CIRCLE_TAG_TERM) \<noteq> None"
  obtains v n1 where "effect E chan posted k ranks u (p, n, False)
      (p\<lparr>term_flag := term_flag p AND v, term_replies := term_replies p + 1\<rparr>, n1, False)"
    and "CIRCLE_check_for_term_allreduce E p n
      = CIRCLE_check_for_term_allreduce E (p\<lparr>term_flag := term_flag p AND v, term_replies := term_replies p + 1\<rparr>) n1"
proof -
  obtain s n0 where pr: "mpi_iprobe E n (rank p) (MPI_ANY_SOURCE E) CIRCLE_TAG_TERM = (Some s, n0)"
    using hit by (metis fst_conv not_None_eq surj_pair)
  obtain v ms n1 where
    r: "chan n (MPI_SOURCE s, rank p, CIRCLE_TAG_TERM) = Ints [v] # ms"
      "recv_int E n0 (rank p) (MPI_SOURCE s) CIRCLE_TAG_TERM = Inr (v, n1)"
      "chan n1 = (chan n)((MPI_SOURCE s, rank p, CIRCLE_TAG_TERM) := ms)" "posted n1 = posted n"
    by (rule recv_term [OF comm local_okD(10) [OF ok] pr])
  let ?p = "p\<lparr>term_flag := term_flag p AND v, term_replies := term_replies p + 1\<rparr>"
  have "term_loop E p n = term_loop E ?p n1" using less pr r(2) by (subst term_loop.simps) simp
  then have "CIRCLE_check_for_term_allreduce E p n = CIRCLE_check_for_term_allreduce E ?p n1"
    by (simp add: CIRCLE_check_for_term_allreduce_def)
  with r less show thesis by (intro that [of v n1] effect.absorb) simp_all
qed

section \<open>Runs and fairness\<close>

text \<open>
  A run is an infinite sequence of steps of the system, some of which may be pauses. A process looks at
  termination in a step when it makes the call \<open>Detect\<close>, and sees its messages when a probe reports the messages
  of termination detection sent to it. In a fair run every process that does not leave its loop does both at the same time, again and again.
\<close>

definition is_run :: "('n, 'z) mpi_scheme \<Rightarrow> int \<Rightarrow> (nat \<Rightarrow> ('u, 'n) system) \<Rightarrow> bool" where
  "is_run E ranks \<sigma> \<longleftrightarrow> (\<forall>t. \<sigma> (Suc t) = \<sigma> t \<or> (\<exists>a. sys_step E ranks a (\<sigma> t) (\<sigma> (Suc t))))"

definition detects :: "('n, 'z) mpi_scheme \<Rightarrow> int \<Rightarrow> ('u, 'n) system \<Rightarrow> ('u, 'n) system \<Rightarrow> bool" where
  "detects E i s s' \<longleftrightarrow> (\<exists>p' n' leave. phase s i = Working \<and> move E False Detect (procs s i) (net s) p' n' leave
     \<and> s' = s\<lparr>procs := (procs s)(i := p'), net := n', phase := (phase s)(i := if leave then Draining else Working)\<rparr>)"

definition probes_hit :: "('n, 'z) mpi_scheme \<Rightarrow> ('n \<Rightarrow> channel \<Rightarrow> payload list) \<Rightarrow> int \<Rightarrow> int \<Rightarrow> 'n \<Rightarrow> bool" where
  "probes_hit E chan ranks i n \<longleftrightarrow> (\<forall>s \<in> {0..<ranks}. chan n (s, i, CIRCLE_TAG_TERM) \<noteq> [] \<longrightarrow>
     fst (mpi_iprobe E n i s CIRCLE_TAG_TERM) \<noteq> None
     \<and> fst (mpi_iprobe E n i (MPI_ANY_SOURCE E) CIRCLE_TAG_TERM) \<noteq> None)"

definition fair :: "('n, 'z) mpi_scheme \<Rightarrow> ('n \<Rightarrow> channel \<Rightarrow> payload list) \<Rightarrow> int \<Rightarrow> (nat \<Rightarrow> ('u, 'n) system) \<Rightarrow> bool" where
  "fair E chan ranks \<sigma> \<longleftrightarrow> (\<forall>t. \<forall>i \<in> {0..<ranks}. \<exists>t' \<ge> t. phase (\<sigma> t') i \<noteq> Working
     \<or> probes_hit E chan ranks i (net (\<sigma> t')) \<and> detects E i (\<sigma> t') (\<sigma> (Suc t')))"

text \<open>What the argument keeps.\<close>

definition settled ::
  "('n, 'z) mpi_scheme \<Rightarrow> ('n \<Rightarrow> channel \<Rightarrow> payload list) \<Rightarrow> ('n \<Rightarrow> channel set) \<Rightarrow> int \<Rightarrow> int \<Rightarrow> ('u, 'n) system \<Rightarrow> bool" where
  "settled E chan posted k ranks s \<longleftrightarrow> sys_inv E chan posted k ranks s
     \<and> spreading ranks (tree_parent k) (sys_wave chan k s) \<and> quiet ranks (sys_wave chan k s)"

lemma settledD:
  assumes "settled E chan posted k ranks s"
  shows "sys_inv E chan posted k ranks s" "glob E chan posted k ranks (procs s) (net s) (left_loop s)"
    "wave_inv ranks (tree_parent k) (tree_kids k ranks) (sys_wave chan k s)"
    "spreading ranks (tree_parent k) (sys_wave chan k s)" "quiet ranks (sys_wave chan k s)"
  using assms by (simp_all add: settled_def sys_inv_def glob_def sys_wave_def)

lemma wave_reads [simp]:
  "w_up (sys_wave chan k s) i \<longleftrightarrow> term_up (procs s i) \<noteq> 0" "w_replies (sys_wave chan k s) i = term_replies (procs s i)"
  "w_flag (sys_wave chan k s) i = term_flag (procs s i)" "w_left (sys_wave chan k s) i \<longleftrightarrow> phase s i \<noteq> Working"
  "w_idle (sys_wave chan k s) i \<longleftrightarrow> idle (procs s i)" "w_out (sys_wave chan k s) i = work_outstanding (procs s i)"
  "w_rise (sys_wave chan k s) i = term_vals (chan (net s) (i, tree_parent k i, CIRCLE_TAG_TERM))"
  "w_fall (sys_wave chan k s) i = term_vals (chan (net s) (tree_parent k i, i, CIRCLE_TAG_TERM))"
  by (simp_all add: sys_wave_def wave_of_def left_loop_def)

text \<open>Every step of the system keeps the distance or brings it down.\<close>

lemma settled_step:
  assumes st: "sys_step E ranks a s s'" and env: "env_ok E chan posted" and k: "0 < k"
    and se: "settled E chan posted k ranks s"
  shows "settled E chan posted k ranks s'"
    and "sys_wave chan k s' = sys_wave chan k s
      \<or> distance ranks (tree_parent k) (sys_wave chan k s') < distance ranks (tree_parent k) (sys_wave chan k s)"
proof -
  note rt = tree_facts(3) [OF k] and d = settledD [OF se]
  note sim = sys_step_simulates [OF st env k d(1)]
  show "settled E chan posted k ranks s'"
    unfolding settled_def
    using sim(2) rank_tree.spreading_steps [OF rt sim(1) d(3,4)] rank_tree.quiet_steps [OF rt sim(1) d(3,4,5)] by blast
  show "sys_wave chan k s' = sys_wave chan k s
      \<or> distance ranks (tree_parent k) (sys_wave chan k s') < distance ranks (tree_parent k) (sys_wave chan k s)"
    using rank_tree.quiet_steps [OF rt sim(1) d(3,4,5)] by blast
qed

lemma detects_step: "detects E i s s' \<Longrightarrow> i \<in> {0..<ranks} \<Longrightarrow> sys_step E ranks Detect s s'"
  unfolding detects_def by (elim exE conjE) (simp add: sys_step.work)

text \<open>The call made by a process that looks at termination.\<close>

lemma detects_check:
  assumes "detects E i s s'" and "local_ok E chan posted k ranks (procs s i) (net s)"
  obtains st p' where "CIRCLE_check_for_term_allreduce E (procs s i) (net s) = Inr (st, p', net s')"
    and "procs s' = (procs s)(i := p')"
    and "phase s' = (phase s)(i := if st = TERMINATE then Draining else Working)" and "phase s i = Working"
proof -
  from assms(1) obtain p' n' leave where
    m: "phase s i = Working" "move E False Detect (procs s i) (net s) p' n' leave"
      "s' = s\<lparr>procs := (procs s)(i := p'), net := n', phase := (phase s)(i := if leave then Draining else Working)\<rparr>"
    unfolding detects_def by blast
  from m(2) have "\<not> (count (queue (procs s i)) > 0 \<and> CIRCLE_ABORT_FLAG (procs s i) = 0)"
    "work_or_terminate E (procs s i) (net s) = Inr (leave, p', n')" by (auto elim: move.cases)
  then obtain st where "CIRCLE_check_for_term_allreduce E (procs s i) (net s) = Inr (st, p', n')" "leave = (st = TERMINATE)"
    using local_okD(7) [OF assms(2)] by (auto simp: work_or_terminate_def outcome)
  with m(1,3) show thesis by (intro that [of st p']) simp_all
qed

section \<open>The call that is due brings the distance down\<close>

lemma absorb_due:
  assumes env: "env_ok E chan posted" and k: "0 < k" and se: "settled E chan posted k ranks s" and i: "i \<in> {0..<ranks}"
    and less: "term_replies (procs s i) < children (tree (procs s i))" and up: "term_up (procs s i) = 0"
    and hit: "fst (mpi_iprobe E (net s) i (MPI_ANY_SOURCE E) CIRCLE_TAG_TERM) \<noteq> None" and det: "detects E i s s'"
  shows "distance ranks (tree_parent k) (sys_wave chan k s') < distance ranks (tree_parent k) (sys_wave chan k s)"
proof -
  note d = settledD [OF se] and rt = tree_facts(3) [OF k]
  note me = glob_proc [OF d(2) i]
  have comm: "mpi_comm E chan posted" using env by (simp add: env_ok_def)
  obtain st p' where c: "CIRCLE_check_for_term_allreduce E (procs s i) (net s) = Inr (st, p', net s')"
    and s': "procs s' = (procs s)(i := p')" "phase s' = (phase s)(i := if st = TERMINATE then Draining else Working)"
      "phase s i = Working" by (rule detects_check [OF det me(2)])
  from hit me(1) have hit': "fst (mpi_iprobe E (net s) (rank (procs s i)) (MPI_ANY_SOURCE E) CIRCLE_TAG_TERM) \<noteq> None" by simp
  obtain v n1 where
    e: "effect E chan posted k ranks False (procs s i, net s, False)
        ((procs s i)\<lparr>term_flag := term_flag (procs s i) AND v, term_replies := term_replies (procs s i) + 1\<rparr>, n1, False)"
      "CIRCLE_check_for_term_allreduce E (procs s i) (net s) = CIRCLE_check_for_term_allreduce E
        ((procs s i)\<lparr>term_flag := term_flag (procs s i) AND v, term_replies := term_replies (procs s i) + 1\<rparr>) n1"
    by (rule check_absorbs [OF comm me(2) less hit'])
  define p1 where "p1 = (procs s i)\<lparr>term_flag := term_flag (procs s i) AND v, term_replies := term_replies (procs s i) + 1\<rparr>"
  have l: "left_loop s i = False" using s'(3) by (simp add: left_loop_def)
  have "effects E chan posted k ranks False (procs s i, net s, left_loop s i) (p1, n1, False)"
    using e(1) unfolding l p1_def by (rule r_into_rtranclp)
  note sim1 = effects_simulate [where ps = "procs s" and left = "left_loop s" and i = i, OF this k i d(2)]
  define w where "w = wave_of k ((procs s)(i := p1)) (chan n1) ((left_loop s)(i := False))"
  have st1: "(wave_step ranks (tree_kids k ranks))\<^sup>*\<^sup>* (sys_wave chan k s) w"
    using sim1(1) by (simp only: sys_wave_def w_def)
  have "w_replies w i \<noteq> w_replies (sys_wave chan k s) i" by (simp add: w_def wave_of_def p1_def)
  then have less1: "distance ranks (tree_parent k) w < distance ranks (tree_parent k) (sys_wave chan k s)"
    using rank_tree.quiet_steps [OF rt st1 d(3,4,5)] by auto
  have inv1: "wave_inv ranks (tree_parent k) (tree_kids k ranks) w" "spreading ranks (tree_parent k) w" "quiet ranks w"
    using rank_tree.wave_steps_keep [OF rt st1 d(3)] rank_tree.spreading_steps [OF rt st1 d(3,4)]
      rank_tree.quiet_steps [OF rt st1 d(3,4,5)] by simp_all
  have p1: "local_ok E chan posted k ranks p1 n1" "idle p1" "rank p1 = 0 \<longrightarrow> term_up p1 = 0"
    using effect_local_ok(1) [OF e(1) me(2)] d(5) i up by (simp_all add: quiet_def p1_def idle_def)
  have "effects E chan posted k ranks False (p1, n1, False) (p', net s', False \<or> st = TERMINATE)"
    by (rule term_effects [OF comm _ p1(1) k p1(2,3)]) (use c e(2) in \<open>simp_all add: p1_def\<close>)
  then have "effects E chan posted k ranks False (((procs s)(i := p1)) i, n1, ((left_loop s)(i := False)) i)
      (p', net s', st = TERMINATE)" by simp
  note sim2 = effects_simulate(1) [OF this k i sim1(2)]
  have left: "left_loop s' = (left_loop s)(i := st = TERMINATE)" by (rule ext) (simp add: left_loop_def s'(2))
  have "sys_wave chan k s' = wave_of k ((procs s)(i := p1, i := p')) (chan (net s')) ((left_loop s)(i := False, i := st = TERMINATE))"
    by (simp only: sys_wave_def s'(1) fun_upd_upd left)
  with sim2 have "(wave_step ranks (tree_kids k ranks))\<^sup>*\<^sup>* w (sys_wave chan k s')" by (simp only: w_def)
  from rank_tree.quiet_steps [OF rt this inv1] less1 show ?thesis by auto
qed

lemma due_shrinks:
  assumes env: "env_ok E chan posted" and k: "0 < k" and se: "settled E chan posted k ranks s" and i: "i \<in> {0..<ranks}"
    and due: "due (tree_kids k ranks) (sys_wave chan k s) i" and hit: "probes_hit E chan ranks i (net s)"
    and det: "detects E i s s'"
  shows "distance ranks (tree_parent k) (sys_wave chan k s') < distance ranks (tree_parent k) (sys_wave chan k s)"
proof -
  note d = settledD [OF se] and rt = tree_facts(3) [OF k]
  note me = glob_proc [OF d(2) i]
  note lok = local_okD [OF me(2)]
  have comm: "mpi_comm E chan posted" using env by (simp add: env_ok_def)
  have ch: "children (tree (procs s i)) = int (length (tree_kids k ranks i))" using tree_okD(2) [OF lok(6)] me(1) by simp
  have out: "work_outstanding (procs s i) \<le> 0" using d(5) i by (simp add: quiet_def)
  note par = parent_some [OF comm lok(6,2) k, unfolded me(1)]
  obtain st p' where c: "CIRCLE_check_for_term_allreduce E (procs s i) (net s) = Inr (st, p', net s')"
    and s': "procs s' = (procs s)(i := p')" "phase s' = (phase s)(i := if st = TERMINATE then Draining else Working)"
      "phase s i = Working" by (rule detects_check [OF det me(2)])
  have move: "sys_wave chan k s' = sys_wave chan k s
      \<or> distance ranks (tree_parent k) (sys_wave chan k s') < distance ranks (tree_parent k) (sys_wave chan k s)"
    by (rule settled_step(2) [OF detects_step [OF det i] env k se])
  consider (deliver) "i \<noteq> 0" "term_up (procs s i) \<noteq> 0" "chan (net s) (tree_parent k i, i, CIRCLE_TAG_TERM) \<noteq> []"
    | (full) "term_up (procs s i) = 0" "term_replies (procs s i) = int (length (tree_kids k ranks i))"
    | (absorb) j where "term_up (procs s i) = 0" "term_replies (procs s i) \<noteq> int (length (tree_kids k ranks i))"
        "j \<in> set (tree_kids k ranks i)" "chan (net s) (j, tree_parent k j, CIRCLE_TAG_TERM) \<noteq> []"
    using due unfolding due_def by auto
  then show ?thesis
  proof cases
    case deliver
    have "0 < i" "i < ranks" using i deliver(1) by auto
    then have r: "term_replies (procs s i) = children (tree (procs s i))"
      using rank_tree.falling_full [OF rt d(3)] deliver(3) ch by simp
    have "term_up p' = 0"
      by (rule check_delivers [OF r out deliver(2) _ _ c]) (use par hit deliver(1,3) me(1) in \<open>auto simp: probes_hit_def\<close>)
    then have "w_up (sys_wave chan k s') i \<noteq> w_up (sys_wave chan k s) i" using deliver(2) s'(1) by simp
    then show ?thesis using move by metis
  next
    case full
    then have r: "term_replies (procs s i) = children (tree (procs s i))" using ch by simp
    show ?thesis
    proof (cases "i = 0")
      case True
      have "parent_rank (tree (procs s i)) = MPI_PROC_NULL E" using par True by simp
      note dec = check_decides [OF r out full(1) this c]
      have "sys_wave chan k s' \<noteq> sys_wave chan k s"
      proof
        assume same: "sys_wave chan k s' = sys_wave chan k s"
        have "term_flag (procs s i) = 1"
          using arg_cong [OF same, of "\<lambda>w. w_flag w i"] dec(2) s'(1) by simp
        then have "w_left (sys_wave chan k s') i" using dec(3) s'(2) by simp
        then show False using same s'(3) by simp
      qed
      with move show ?thesis by blast
    next
      case False
      have "0 < i" "i < ranks" using i False by auto
      from wave_invE(5) [OF d(3) this] full(1) have "w_fall (sys_wave chan k s) i = []"
        by (cases rule: edge_cases) (simp_all add: counted_def)
      moreover have "tree_parent k i < i" using tree_facts(1) [OF k \<open>0 < i\<close> \<open>i < ranks\<close>] by simp
      ultimately have "term_up p' = 1"
        by (intro check_contributes [OF comm r out full(1) _ _ _ _ c]) (use par False me(1) in auto)
      then have "w_up (sys_wave chan k s') i \<noteq> w_up (sys_wave chan k s) i" using full(1) s'(1) by simp
      then show ?thesis using move by metis
    qed
  next
    case absorb
    have ir: "0 \<le> i" "i < ranks" using i by auto
    have j: "j \<in> {0..<ranks}" "tree_parent k j = i" using tree_facts(2) [OF k ir] absorb(3) by auto
    have "term_replies (procs s i) \<le> int (length (tree_kids k ranks i))"
      using wave_invE(3) [OF d(3) i] card_mono [of "set (tree_kids k ranks i)" "{c \<in> set (tree_kids k ranks i). counted (sys_wave chan k s) c}"]
        card_length [of "tree_kids k ranks i"] by (simp add: Collect_conj_eq)
    then have "term_replies (procs s i) < children (tree (procs s i))" using absorb(2) ch by simp
    from absorb_due [OF env k se i this absorb(1) _ det] show ?thesis
      using hit j absorb(4) by (auto simp: probes_hit_def)
  qed
qed

section \<open>Fair runs end\<close>

lemma start_spreading: "sys_start E chan posted k ranks s \<Longrightarrow> 0 < ranks \<Longrightarrow> spreading ranks (tree_parent k) (sys_wave chan k s)"
  by (simp add: sys_start_def spreading_def)

lemma reach_settled:
  assumes env: "env_ok E chan posted" and k: "0 < k" and r: "0 < ranks" "ranks * k \<le> INT32_MAX"
    and st: "sys_start E chan posted k ranks s0" and re: "reach E ranks s0 s"
    and q: "\<forall>i \<in> {0..<ranks}. idle (procs s i) \<and> work_outstanding (procs s i) = 0"
  shows "settled E chan posted k ranks s"
proof -
  note inv = sys_start_inv [OF st env k r] and rt = tree_facts(3) [OF k]
  have w: "wave_inv ranks (tree_parent k) (tree_kids k ranks) (sys_wave chan k s0)"
    using inv by (simp add: sys_inv_def glob_def sys_wave_def)
  note ri = reach_inv [OF re env k inv]
  have "spreading ranks (tree_parent k) (sys_wave chan k s)"
    using rank_tree.spreading_steps [OF rt _ w start_spreading [OF st r(1)]] ri by blast
  then show ?thesis using ri q by (simp add: settled_def quiet_def)
qed

lemma run_reaches: "is_run E ranks \<sigma> \<Longrightarrow> reach E ranks (\<sigma> 0) (\<sigma> t)"
proof (induction t)
  case (Suc t)
  then show ?case unfolding is_run_def by (metis reach.step)
qed (rule reach.start)

lemma run_settled:
  assumes "is_run E ranks \<sigma>" and "env_ok E chan posted" and "0 < k" and "settled E chan posted k ranks (\<sigma> t)"
  shows "settled E chan posted k ranks (\<sigma> (t + u))
    \<and> (sys_wave chan k (\<sigma> (t + u)) = sys_wave chan k (\<sigma> t)
      \<or> distance ranks (tree_parent k) (sys_wave chan k (\<sigma> (t + u))) < distance ranks (tree_parent k) (sys_wave chan k (\<sigma> t)))"
proof (induction u)
  case (Suc u)
  from assms(1) consider "\<sigma> (t + Suc u) = \<sigma> (t + u)" | a where "sys_step E ranks a (\<sigma> (t + u)) (\<sigma> (t + Suc u))"
    unfolding is_run_def by (metis add_Suc_right)
  then show ?case
  proof cases
    case 2
    note ss = settled_step [OF this assms(2,3) conjunct1 [OF Suc]]
    from ss(2) Suc have "sys_wave chan k (\<sigma> (t + Suc u)) = sys_wave chan k (\<sigma> t)
      \<or> distance ranks (tree_parent k) (sys_wave chan k (\<sigma> (t + Suc u))) < distance ranks (tree_parent k) (sys_wave chan k (\<sigma> t))"
      by (elim disjE conjE) (simp_all only: simp_thms, linarith)
    with ss(1) show ?thesis by blast
  qed (use Suc in simp)
qed (use assms(4) in simp)

lemma fair_run_ends:
  assumes run: "is_run E ranks \<sigma>" and fr: "fair E chan ranks \<sigma>" and env: "env_ok E chan posted" and k: "0 < k"
    and r: "0 < ranks"
  shows "settled E chan posted k ranks (\<sigma> t) \<Longrightarrow> \<exists>t' \<ge> t. \<forall>i \<in> {0..<ranks}. phase (\<sigma> t') i \<noteq> Working"
proof (induction "distance ranks (tree_parent k) (sys_wave chan k (\<sigma> t))" arbitrary: t rule: less_induct)
  case less
  let ?w = "\<lambda>t. sys_wave chan k (\<sigma> t)"
  show ?case
  proof (cases "\<forall>i \<in> {0..<ranks}. phase (\<sigma> t) i \<noteq> Working")
    case False
    then obtain j where j: "j \<in> {0..<ranks}" "\<not> w_left (?w t) j" by auto
    note d = settledD [OF less.prems]
    obtain i where i: "i \<in> {0..<ranks}" "due (tree_kids k ranks) (?w t) i"
      using rank_tree.some_due [OF tree_facts(3) [OF k] d(3,4) r j] by blast
    obtain t' where t': "t \<le> t'" "phase (\<sigma> t') i \<noteq> Working
        \<or> probes_hit E chan ranks i (net (\<sigma> t')) \<and> detects E i (\<sigma> t') (\<sigma> (Suc t'))"
      using fr i(1) unfolding fair_def by blast
    from run_settled [OF run env k less.prems, of "t' - t"] t'(1) have
      m: "settled E chan posted k ranks (\<sigma> t')" "?w t' = ?w t
        \<or> distance ranks (tree_parent k) (?w t') < distance ranks (tree_parent k) (?w t)" by simp_all
    have "\<exists>u \<ge> t. settled E chan posted k ranks (\<sigma> u)
        \<and> distance ranks (tree_parent k) (?w u) < distance ranks (tree_parent k) (?w t)"
    proof (cases "?w t' = ?w t")
      case True
      then have du: "due (tree_kids k ranks) (?w t') i" using i(2) by simp
      then have "phase (\<sigma> t') i = Working" by (simp add: due_def)
      with t'(2) have h: "probes_hit E chan ranks i (net (\<sigma> t'))" "detects E i (\<sigma> t') (\<sigma> (Suc t'))" by simp_all
      note due_shrinks [OF env k m(1) i(1) du h]
      moreover have "settled E chan posted k ranks (\<sigma> (Suc t'))"
        by (rule settled_step(1) [OF detects_step [OF h(2) i(1)] env k m(1)])
      ultimately show ?thesis using True t'(1) by (intro exI [of _ "Suc t'"]) simp
    next
      case False
      then show ?thesis using m t'(1) by blast
    qed
    then obtain u where u: "t \<le> u" "settled E chan posted k ranks (\<sigma> u)"
      "distance ranks (tree_parent k) (?w u) < distance ranks (tree_parent k) (?w t)" by blast
    from less.hyps [OF u(3,2)] u(1) show ?thesis using order_trans by blast
  qed auto
qed

section \<open>Properties\<close>

text \<open>
  C2. Termination is detected. In every fair run from the start of the program, for every tree width and
  number of ranks: if at some time every process is idle (its queue is empty or it is aborting) and waits for no
  receipt, then at some later time every process has left its main loop.
\<close>

theorem termination_detected:
  assumes "env_ok E chan posted" and "0 < k" and "0 < ranks" and "ranks * k \<le> INT32_MAX"
    and "sys_start E chan posted k ranks (\<sigma> 0)" and "is_run E ranks \<sigma>" and "fair E chan ranks \<sigma>"
    and "\<forall>i \<in> {0..<ranks}. idle (procs (\<sigma> t) i) \<and> work_outstanding (procs (\<sigma> t) i) = 0"
  shows "\<exists>t' \<ge> t. \<forall>i \<in> {0..<ranks}. phase (\<sigma> t') i \<noteq> Working"
  by (rule fair_run_ends [OF assms(6,7,1-3) reach_settled [OF assms(1-5) run_reaches [OF assms(6)] assms(8)]])



text \<open>A run of two idle ranks: rank 1 reports, rank 0 decides, rank 1 gets the result.\<close>

lemma demo_ends:
  "case work_or_terminate fifo_mpi (demo_proc (small_queue\<lparr>count := 0\<rparr>) 1) (quiet_net 2) of
     Inr (l1, p1, n1) \<Rightarrow> \<not> l1 \<and> f_deaf n1 = [] \<and> f_size n1 = 2
       \<and> (case work_or_terminate fifo_mpi (demo_proc (small_queue\<lparr>count := 0\<rparr>) 0) n1 of
       Inr (l0, p0, n0) \<Rightarrow> l0 \<and> f_deaf n0 = [] \<and> f_size n0 = 2 \<and> count (queue p1) = 0
         \<and> (case work_or_terminate fifo_mpi p1 n0 of Inr (l2, p2, n2) \<Rightarrow> l2 | Inl _ \<Rightarrow> False)
     | Inl _ \<Rightarrow> False)
   | Inl _ \<Rightarrow> False"
  "work_outstanding (demo_proc (small_queue\<lparr>count := 0\<rparr>) 0) = 0"
  "work_outstanding (demo_proc (small_queue\<lparr>count := 0\<rparr>) 1) = 0"
  by code_simp+

lemma fifo_probes_hit:
  assumes "f_deaf n = []" and "f_size n = 2"
  shows "probes_hit fifo_mpi f_chan 2 i n"
proof -
  have "fst (mpi_iprobe fifo_mpi n i s tag) \<noteq> None \<and> fst (mpi_iprobe fifo_mpi n i (MPI_ANY_SOURCE fifo_mpi) tag) \<noteq> None"
    if s: "s \<in> {0..<2}" "f_chan n (s, i, tag) \<noteq> []" for s tag
  proof -
    have "s \<in> int ` {0..<2}" using s(1) by (intro image_eqI [of _ _ "nat s"]) auto
    then have "filter (\<lambda>s. f_chan n (s, i, tag) \<noteq> [] \<and> (s, i, tag) \<notin> set (f_deaf n)) (map int [0..<f_size n]) \<noteq> []"
      using s(2) assms by (auto simp: filter_empty_conv)
    then show ?thesis using s assms by (auto simp: fifo_iprobe_def Let_def split: list.splits)
  qed
  then show ?thesis by (simp add: probes_hit_def)
qed

theorem termination_detected_witness:
  "\<exists>\<sigma> :: nat \<Rightarrow> (unit, fifo_net) system. is_run fifo_mpi 2 \<sigma> \<and> fair fifo_mpi f_chan 2 \<sigma>
     \<and> (\<exists>t. \<forall>i \<in> {0..<2}. phase (\<sigma> t) i \<noteq> Working)"
proof -
  let ?q = "small_queue\<lparr>count := 0\<rparr>"
  obtain p1 n1 p0 n0 p2 n2 where
    r: "work_or_terminate fifo_mpi (demo_proc ?q 1) (quiet_net 2) = Inr (False, p1, n1)"
      "work_or_terminate fifo_mpi (demo_proc ?q 0) n1 = Inr (True, p0, n0)"
      "work_or_terminate fifo_mpi p1 n0 = Inr (True, p2, n2)" "count (queue p1) = 0"
      "f_deaf n1 = []" "f_size n1 = 2" "f_deaf n0 = []" "f_size n0 = 2"
    using demo_ends(1) by (elim returnsE) (clarsimp elim!: returnsE)
  define s0 where "s0 = demo_start ?q"
  define s1 where "s1 = s0\<lparr>procs := (procs s0)(1 := p1), net := n1, phase := (phase s0)(1 := Working)\<rparr>"
  define s2 where "s2 = s1\<lparr>procs := (procs s1)(0 := p0), net := n0, phase := (phase s1)(0 := Draining)\<rparr>"
  define s3 where "s3 = s2\<lparr>procs := (procs s2)(1 := p2), net := n2, phase := (phase s2)(1 := Draining)\<rparr>"
  have init: "procs s0 i = demo_proc (if i = 0 then ?q else ?q) i" "net s0 = quiet_net 2" "phase s0 i = Working" for i
    by (simp_all add: s0_def demo_start_def)
  have c: "count (queue (demo_proc ?q 0)) = 0" "count (queue (demo_proc ?q 1)) = 0" by (rule demo_detects(2,3))+
  have d0: "detects fifo_mpi 1 s0 s1"
    unfolding detects_def using move.detect [OF _ _ r(1), of False] c init
    by (intro exI [of _ p1] exI [of _ n1] exI [of _ False]) (simp add: s1_def)
  have d1: "detects fifo_mpi 0 s1 s2"
    unfolding detects_def using move.detect [OF _ _ r(2), of False] c init
    by (intro exI [of _ p0] exI [of _ n0] exI [of _ True]) (simp add: s1_def s2_def)
  have d2: "detects fifo_mpi 1 s2 s3"
    unfolding detects_def using move.detect [OF _ _ r(3), of False] r(4) init
    by (intro exI [of _ p2] exI [of _ n2] exI [of _ True]) (simp add: s1_def s2_def s3_def)
  define \<sigma> where "\<sigma> t = (if t = 0 then s0 else if t = 1 then s1 else if t = 2 then s2 else s3)" for t :: nat
  have at: "\<sigma> 0 = s0" "\<sigma> (Suc 0) = s1" "\<sigma> (Suc (Suc 0)) = s2" "\<sigma> (Suc (Suc (Suc t))) = s3" for t
    by (simp_all add: \<sigma>_def)
  have two: "i = 0 \<or> i = 1" if "i \<in> {0..<2}" for i :: int using that by auto
  have run: "is_run fifo_mpi 2 \<sigma>"
    unfolding is_run_def
  proof
    fix t
    consider "t = 0" | "t = 1" | "t = 2" | u where "t = Suc (Suc (Suc u))" by (metis One_nat_def Suc_1 not0_implies_Suc)
    then show "\<sigma> (Suc t) = \<sigma> t \<or> (\<exists>a. sys_step fifo_mpi 2 a (\<sigma> t) (\<sigma> (Suc t)))"
      using detects_step [OF d0, of 2] detects_step [OF d1, of 2] detects_step [OF d2, of 2]
      by cases (auto simp: at numeral_2_eq_2)
  qed
  have nets: "net s1 = n1" "net s2 = n0" "phase s2 0 \<noteq> Working" "phase s3 0 \<noteq> Working" "phase s3 1 \<noteq> Working"
    by (simp_all add: s1_def s2_def s3_def)
  have "fair fifo_mpi f_chan 2 \<sigma>"
    unfolding fair_def
  proof (intro allI ballI)
    fix t :: nat and i :: int assume i: "i \<in> {0..<2}"
    consider "i = 0" "t \<le> 1" | "i = 1" "t \<le> 2" | "3 \<le> t \<or> i = 0 \<and> t = 2" "i = 0 \<or> i = 1" using two [OF i] by linarith
    then show "\<exists>t' \<ge> t. phase (\<sigma> t') i \<noteq> Working
        \<or> probes_hit fifo_mpi f_chan 2 i (net (\<sigma> t')) \<and> detects fifo_mpi i (\<sigma> t') (\<sigma> (Suc t'))"
    proof cases
      case 1
      then show ?thesis using d1 fifo_probes_hit [OF r(5,6)] by (intro exI [of _ 1]) (simp add: at nets)
    next
      case 2
      then show ?thesis
        using d2 fifo_probes_hit [OF r(7,8)] by (intro exI [of _ 2]) (simp add: at nets numeral_2_eq_2)
    next
      case 3
      then show ?thesis using nets by (intro exI [of _ t]) (auto simp: \<sigma>_def)
    qed
  qed
  moreover have "\<exists>t' \<ge> 0. \<forall>i \<in> {0..<2}. phase (\<sigma> t') i \<noteq> Working"
  proof (rule termination_detected [OF fifo_env_ok _ _ _ _ run calculation])
    show "sys_start fifo_mpi f_chan fifo_posted 2 2 (\<sigma> 0)" using demo_sys_start by (simp add: at s0_def)
    show "\<forall>i \<in> {0..<2}. idle (procs (\<sigma> 0) i) \<and> work_outstanding (procs (\<sigma> 0) i) = 0"
    proof
      fix i :: int assume "i \<in> {0..<2}"
      then show "idle (procs (\<sigma> 0) i) \<and> work_outstanding (procs (\<sigma> 0) i) = 0"
        using two [of i] c demo_ends(2,3) init(1) by (auto simp: at idle_def)
    qed
  qed (simp_all add: INT32_MAX_def)
  ultimately show ?thesis using run by blast
qed

end
